(* ===== verification/App_Prelude.thy ===== *)
theory App_Prelude
  imports Main "HOL-Library.Word"
begin

unbundle bit_operations_syntax

text \<open>
  Shared vocabulary of the development: the machine types of the C++ sources, the values
  that stand for a failed assertion, a bad pointer or a thrown exception, the bind of the
  result type, and the lemmas on words, lists and modular indices that the component
  theories use.
\<close>

subsection \<open>Machine types\<close>

text \<open>
  The sources are built for a 64-bit target: \<^verbatim>\<open>size_t\<close>, \<^verbatim>\<open>uintptr_t\<close> and pointers are
  64-bit words, the address 0 is \<^verbatim>\<open>nullptr\<close>.
\<close>

type_synonym size_t = "64 word"
type_synonym addr = "64 word"

abbreviation (input) nullptr :: addr where
  "nullptr \<equiv> 0"

subsection \<open>Failures as values\<close>

text \<open>
  \<open>AssertFailed\<close> is an \<^verbatim>\<open>assert\<close> whose condition is false, \<open>BadPointer\<close> a dereference of a
  null, freed or never allocated pointer, \<open>BadIndex\<close> an access outside an array,
  \<open>DeadObject\<close> the use of storage that holds no constructed object, \<open>BadAlloc\<close> a thrown
  \<^verbatim>\<open>std::bad_alloc\<close>, \<open>BadFree\<close> a pointer released by the wrong deallocation function.
\<close>

datatype cpp_error = AssertFailed | BadPointer | BadIndex | DeadObject | BadAlloc | BadFree

type_synonym 'a res = "cpp_error + 'a"

definition bindE :: "'e + 'a \<Rightarrow> ('a \<Rightarrow> 'e + 'b) \<Rightarrow> 'e + 'b" where
  "bindE m f = (case m of Inl e \<Rightarrow> Inl e | Inr x \<Rightarrow> f x)"

lemma bindE_simps [simp]:
  "bindE (Inl e) f = Inl e"
  "bindE (Inr x) f = f x"
  by (simp_all add: bindE_def)

lemma bindE_eq_Inr [simp]: "bindE m f = Inr y \<longleftrightarrow> (\<exists>x. m = Inr x \<and> f x = Inr y)"
  by (cases m) simp_all

definition assertE :: "bool \<Rightarrow> unit res" where
  "assertE c = (if c then Inr () else Inl AssertFailed)"

lemma assertE_simps [simp]:
  "assertE True = Inr ()"
  "assertE False = Inl AssertFailed"
  by (simp_all add: assertE_def)

subsection \<open>Masking with a power of two minus one\<close>

lemma unat_and_mask:
  fixes w :: "64 word"
  shows "unat (w AND mask e) = unat w mod 2 ^ e"
  by (simp flip: take_bit_eq_mask take_bit_eq_mod add: unsigned_take_bit_eq)

lemma pow2_less_64: "e < 64 \<Longrightarrow> (2::nat) ^ e < 18446744073709551616"
  using power_strict_increasing[of e 64 "2::nat"] by simp

lemma unat_pow2_64: "e < 64 \<Longrightarrow> unat (2 ^ e :: 64 word) = 2 ^ e"
  using pow2_less_64[of e] unsigned_of_nat[of "2 ^ e", where ?'b = 64]
  by (simp add: take_bit_nat_eq_self)

lemma unat_mask_64: "e < 64 \<Longrightarrow> unat (mask e :: 64 word) = 2 ^ e - 1"
  using unat_minus_one[of "2 ^ e :: 64 word"] unat_pow2_64[of e]
  by (metis mask_eq_exp_minus_1 power_not_zero unat_0 zero_neq_numeral)

subsection \<open>Arithmetic that does not wrap\<close>

lemma unat_add_no_wrap: "unat (a::size_t) + unat b < 2 ^ 64 \<Longrightarrow> unat (a + b) = unat a + unat b"
  by (simp add: unat_word_ariths)

lemma unat_mult_no_wrap: "unat (a::size_t) * unat b < 2 ^ 64 \<Longrightarrow> unat (a * b) = unat a * unat b"
  by (simp add: unat_word_ariths)

lemma unat_pos: "(a::size_t) \<noteq> 0 \<Longrightarrow> 0 < unat a"
  by (simp add: unat_gt_0)

subsection \<open>Circular indices\<close>

lemma mod_shift_eq_iff:
  fixes a i j n :: nat
  assumes "i < n" "j < n"
  shows "(a + i) mod n = (a + j) mod n \<longleftrightarrow> i = j"
proof
  assume eq: "(a + i) mod n = (a + j) mod n"
  have "i mod n = j mod n"
  proof (cases "i \<le> j")
    case True
    then have "n dvd (a + j) - (a + i)" using eq by (metis mod_eq_dvd_iff_nat nat_add_left_cancel_le)
    then have "n dvd j - i" by simp
    then show ?thesis using True by (metis mod_eq_dvd_iff_nat)
  next
    case False
    then have "n dvd (a + i) - (a + j)" using eq by (metis mod_eq_dvd_iff_nat nat_le_linear nat_add_left_cancel_le)
    then have "n dvd i - j" by simp
    then show ?thesis using False by (metis mod_eq_dvd_iff_nat nat_le_linear)
  qed
  then show "i = j" using assms by simp
qed simp

lemma mod_shift_self_iff:
  fixes a j n :: nat
  assumes "j < n"
  shows "(a + j) mod n = a mod n \<longleftrightarrow> j = 0"
  using mod_shift_eq_iff[of j n 0 a] assms by simp

lemma all_less_Suc_shift:
  "(\<forall>i < Suc n. P i) \<longleftrightarrow> P 0 \<and> (\<forall>i < n. P (Suc i))"
  by (auto simp: less_Suc_eq_0_disj)

end
