(* ===== verification/Rwq_Block.thy ===== *)
theory Rwq_Block
  imports App_Prelude
begin

unbundle bit_operations_syntax

text \<open>
  The low-level circular buffer of \<^verbatim>\<open>libs/readerwriterqueue/readerwriterqueue.h\<close>: the
  arithmetic helpers \<^verbatim>\<open>ceilToPow2\<close> and \<^verbatim>\<open>align_for\<close>, \<^verbatim>\<open>struct Block\<close>, its allocation by
  \<^verbatim>\<open>make_block\<close>, and the accesses to one block that the queue operations make. The lemmas
  say that \<^verbatim>\<open>ceilToPow2\<close> is the least power of two above its argument, that the storage
  \<^verbatim>\<open>make_block\<close> lays out stays inside the memory it asked for, and that a block is a bounded
  FIFO list with possibly stale shadow copies of its indices.
\<close>

subsection \<open>ceilToPow2\<close>

text \<open>The loop \<^verbatim>\<open>for (i = 1; i < sizeof(size_t); i <<= 1) x |= x >> (i << 3)\<close>, with \<open>i = 2 ^ e\<close>.\<close>

function ceil_loop :: "nat \<Rightarrow> size_t \<Rightarrow> size_t" where
  "ceil_loop e x = (if 2 ^ e < (8::nat) then ceil_loop (Suc e) (x OR drop_bit (2 ^ e * 8) x) else x)"
  by pat_completeness auto
termination
proof (relation "measure (\<lambda>(e, x). 3 - e)")
  fix e :: nat and x :: size_t
  assume lt: "2 ^ e < (8::nat)"
  have "e < 3"
  proof (rule ccontr)
    assume "\<not> e < 3"
    then have "(2::nat) ^ 3 \<le> 2 ^ e" by (intro power_increasing) auto
    with lt show False by simp
  qed
  then show "((Suc e, x OR drop_bit (2 ^ e * 8) x), (e, x)) \<in> measure (\<lambda>(e, x). 3 - e)" by simp
qed simp

declare ceil_loop.simps [simp del]

definition ceilToPow2 :: "size_t \<Rightarrow> size_t" where
  "ceilToPow2 x0 =
     (let x1 = x0 - 1;
          x2 = x1 OR drop_bit 1 x1;
          x3 = x2 OR drop_bit 2 x2;
          x4 = x3 OR drop_bit 4 x3
      in ceil_loop 0 x4 + 1)"

subsection \<open>align_for\<close>

definition align_for :: "size_t \<Rightarrow> addr \<Rightarrow> addr" where
  "align_for alignment ptr = ptr + (alignment - ptr mod alignment) mod alignment"

subsection \<open>struct Block\<close>

text \<open>
  The member \<^verbatim>\<open>data\<close> points at raw storage for \<open>sizeMask + 1\<close> objects; \<open>slots\<close> is that
  storage, \<open>None\<close> where no object is constructed. The cache-line fillers have no content.
\<close>

record 'a Block =
  front :: size_t
  localTail :: size_t
  tail :: size_t
  localFront :: size_t
  nextB :: addr
  data :: addr
  sizeMask :: size_t
  rawThis :: addr
  slots :: "'a option list"

type_synonym 'a heap = "addr \<rightharpoonup> 'a Block"

definition Block_ctor :: "size_t \<Rightarrow> addr \<Rightarrow> addr \<Rightarrow> 'a Block" where
  "Block_ctor sz raw dat =
     \<lparr>front = 0, localTail = 0, tail = 0, localFront = 0, nextB = nullptr, data = dat,
      sizeMask = sz - 1, rawThis = raw, slots = replicate (unat sz) None\<rparr>"

subsection \<open>make_block\<close>

text \<open>
  The sizes and alignments the compiler chooses for \<^verbatim>\<open>Block\<close> and for the element type, and
  the C allocator: \<open>malloc h n\<close> is the address it returns in the heap \<open>h\<close>, 0 when it fails.
\<close>

record layout =
  sizeof_Block :: size_t
  alignof_Block :: size_t
  sizeof_T :: size_t
  alignof_T :: size_t

type_synonym 'a malloc = "'a heap \<Rightarrow> size_t \<Rightarrow> addr"

definition block_bytes :: "layout \<Rightarrow> size_t \<Rightarrow> size_t" where
  "block_bytes ly capacity =
     (let sz = sizeof_Block ly + alignof_Block ly - 1
      in sz + (sizeof_T ly * capacity + alignof_T ly - 1))"

definition make_block :: "layout \<Rightarrow> 'a malloc \<Rightarrow> 'a heap \<Rightarrow> size_t \<Rightarrow> addr \<times> 'a heap" where
  "make_block ly malloc h capacity =
     (let newBlockRaw = malloc h (block_bytes ly capacity)
      in if newBlockRaw = nullptr then (nullptr, h)
         else let newBlockAligned = align_for (alignof_Block ly) newBlockRaw;
                  newBlockData = align_for (alignof_T ly) (newBlockAligned + sizeof_Block ly)
              in (newBlockAligned,
                  h(newBlockAligned \<mapsto> Block_ctor capacity newBlockRaw newBlockData)))"

subsection \<open>Accesses to a block\<close>

definition get_block :: "'a heap \<Rightarrow> addr \<Rightarrow> 'a Block res" where
  "get_block h p = (case h p of None \<Rightarrow> Inl BadPointer | Some b \<Rightarrow> Inr b)"

text \<open>Placement new, the move out of a slot followed by the destructor, and the destructor alone.\<close>

definition construct_at :: "'a Block \<Rightarrow> size_t \<Rightarrow> 'a \<Rightarrow> 'a Block res" where
  "construct_at b i v =
     (if unat i < length (slots b) then Inr (b\<lparr>slots := (slots b)[unat i := Some v]\<rparr>)
      else Inl BadIndex)"

definition move_out :: "'a Block \<Rightarrow> size_t \<Rightarrow> ('a \<times> 'a Block) res" where
  "move_out b i =
     (if unat i < length (slots b)
      then (case slots b ! unat i of
              None \<Rightarrow> Inl DeadObject
            | Some v \<Rightarrow> Inr (v, b\<lparr>slots := (slots b)[unat i := None]\<rparr>))
      else Inl BadIndex)"

definition destroy_at :: "'a Block \<Rightarrow> size_t \<Rightarrow> 'a Block res" where
  "destroy_at b i = bindE (move_out b i) (\<lambda>(v, b'). Inr b')"

definition advance :: "'a Block \<Rightarrow> size_t \<Rightarrow> size_t" where
  "advance b i = (i + 1) AND sizeMask b"

lemma get_block_upd [simp]: "get_block (h(p \<mapsto> b)) p = Inr b"
  by (simp add: get_block_def)

subsection \<open>ceilToPow2 is the least power of two\<close>

text \<open>\<open>window w x y\<close>: bit \<open>n\<close> of \<open>y\<close> is set when one of the \<open>w\<close> bits of \<open>x\<close> from \<open>n\<close> up is.\<close>

definition window :: "nat \<Rightarrow> size_t \<Rightarrow> size_t \<Rightarrow> bool" where
  "window w x y \<longleftrightarrow> (\<forall>n. bit y n \<longleftrightarrow> (\<exists>m < w. bit x (n + m)))"

lemma window_1: "window 1 x x"
  by (simp add: window_def)

lemma window_double: "window w x y \<Longrightarrow> window (2 * w) x (y OR drop_bit w y)"
proof (unfold window_def, intro allI)
  fix n
  assume w: "\<forall>n. bit y n \<longleftrightarrow> (\<exists>m < w. bit x (n + m))"
  have "bit (y OR drop_bit w y) n \<longleftrightarrow> (\<exists>m < w. bit x (n + m)) \<or> (\<exists>m < w. bit x (n + w + m))"
    using w by (simp add: bit_or_iff bit_drop_bit_eq add.commute)
  also have "\<dots> \<longleftrightarrow> (\<exists>m < 2 * w. bit x (n + m))"
  proof
    assume "\<exists>m < 2 * w. bit x (n + m)"
    then obtain m where m: "m < 2 * w" "bit x (n + m)" by blast
    show "(\<exists>m < w. bit x (n + m)) \<or> (\<exists>m < w. bit x (n + w + m))"
    proof (cases "m < w")
      case False
      with m have "m - w < w" "bit x (n + w + (m - w))" by auto
      then show ?thesis by blast
    qed (use m in blast)
  next
    assume "(\<exists>m < w. bit x (n + m)) \<or> (\<exists>m < w. bit x (n + w + m))"
    then show "\<exists>m < 2 * w. bit x (n + m)"
    proof
      assume "\<exists>m < w. bit x (n + w + m)"
      then obtain m where "m < w" "bit x (n + w + m)" by blast
      then show ?thesis by (intro exI[of _ "w + m"]) (simp add: add.assoc)
    next
      assume "\<exists>m < w. bit x (n + m)"
      then obtain m where "m < w" "bit x (n + m)" by blast
      then show ?thesis by (intro exI[of _ m]) simp
    qed
  qed
  finally show "bit (y OR drop_bit w y) n \<longleftrightarrow> (\<exists>m < 2 * w. bit x (n + m))" .
qed

lemma ceil_loop_window: "window 8 x y \<Longrightarrow> window 64 x (ceil_loop 0 y)"
  using window_double[of 8 x y] window_double[of 16 x "y OR drop_bit 8 y"]
    window_double[of 32 x "(y OR drop_bit 8 y) OR drop_bit 16 (y OR drop_bit 8 y)"]
  by (simp add: ceil_loop.simps numeral_2_eq_2[symmetric] numeral_3_eq_3[symmetric] Let_def)

lemma window_64_mask:
  assumes w: "window 64 x y" and b: "bit x k" and top: "\<And>m. k < m \<Longrightarrow> \<not> bit x m"
  shows "y = mask (Suc k)"
proof (rule bit_word_eqI)
  fix n
  have k: "k < 64" using bit_imp_le_length[OF b] by simp
  have "bit y n \<longleftrightarrow> n \<le> k"
  proof
    assume "bit y n"
    then obtain m where "bit x (n + m)" using w by (auto simp: window_def)
    then show "n \<le> k" using top[of "n + m"] by linarith
  next
    assume "n \<le> k"
    then have "k - n < 64" "bit x (n + (k - n))" using b k by auto
    then show "bit y n" using w unfolding window_def by blast
  qed
  then show "bit y n \<longleftrightarrow> bit (mask (Suc k) :: size_t) n"
    using k by (auto simp: bit_mask_iff)
qed

lemma top_bit_exists:
  fixes x :: size_t
  assumes "x \<noteq> 0"
  shows "\<exists>k. bit x k \<and> (\<forall>m > k. \<not> bit x m)"
proof -
  let ?S = "{n. bit x n}"
  have fin: "finite ?S" using bit_imp_le_length[of x] by (auto intro: finite_subset[of _ "{..<64}"])
  have ne: "?S \<noteq> {}" using assms by (auto simp: bit_eq_iff)
  show ?thesis
    using Max_in[OF fin ne] Max_ge[OF fin] by (intro exI[of _ "Max ?S"]) (auto simp: not_le[symmetric])
qed

lemma top_bit_bounds:
  fixes x :: size_t
  assumes b: "bit x k" and top: "\<And>m. k < m \<Longrightarrow> \<not> bit x m"
  shows "2 ^ k \<le> unat x \<and> unat x < 2 ^ Suc k"
proof
  have "bit (unat x) k" using b by (simp add: bit_unsigned_iff)
  then have "odd (unat x div 2 ^ k)" by (simp add: bit_iff_odd)
  then have "unat x div 2 ^ k \<noteq> 0" by (metis even_zero)
  then show "2 ^ k \<le> unat x" by (simp add: div_eq_0_iff)
  have "take_bit (Suc k) x = x"
    using top by (intro bit_eqI) (auto simp: bit_take_bit_iff less_Suc_eq_le not_le[symmetric])
  then have "take_bit (Suc k) (unat x) = unat x" by (metis unsigned_take_bit_eq)
  then show "unat x < 2 ^ Suc k" by (simp add: take_bit_nat_eq_self_iff)
qed

lemma ceilToPow2_top_bit:
  assumes "bit (x - 1) k" and "\<And>m. k < m \<Longrightarrow> \<not> bit (x - 1) m"
  shows "ceilToPow2 x = 2 ^ Suc k"
proof -
  let ?x1 = "x - 1"
  have "window 8 ?x1 (let x2 = ?x1 OR drop_bit 1 ?x1; x3 = x2 OR drop_bit 2 x2 in x3 OR drop_bit 4 x3)"
    using window_double[OF window_double[OF window_double[OF window_1[of ?x1]]]]
    by (simp add: Let_def)
  from window_64_mask[OF ceil_loop_window[OF this] assms]
  show ?thesis by (simp add: ceilToPow2_def Let_def mask_eq_exp_minus_1)
qed

lemma ceilToPow2_one: "ceilToPow2 1 = 1"
  by (simp add: ceilToPow2_def ceil_loop.simps)

lemma ceilToPow2_least:
  assumes "1 \<le> unat x" and "unat x \<le> 2 ^ 63"
  shows "\<exists>e. ceilToPow2 x = 2 ^ e \<and> e \<le> 63 \<and> unat x \<le> 2 ^ e \<and> (\<forall>f. unat x \<le> 2 ^ f \<longrightarrow> e \<le> f)"
proof (cases "x = 1")
  case True
  then show ?thesis using ceilToPow2_one by (intro exI[of _ 0]) simp
next
  case False
  have x0: "x \<noteq> 0" using assms(1) by auto
  with False have nz: "x - 1 \<noteq> 0" by simp
  have u: "unat (x - 1) = unat x - 1" using x0 by (rule unat_minus_one)
  from nz obtain k where k: "bit (x - 1) k" "\<And>m. k < m \<Longrightarrow> \<not> bit (x - 1) m"
    using top_bit_exists by blast
  from top_bit_bounds[OF k] have bnd: "2 ^ k < unat x" "unat x \<le> 2 ^ Suc k" using u assms(1) by auto
  have "(2::nat) ^ k < 2 ^ 63" using bnd(1) assms(2) by linarith
  then have k63: "k < 63" by (rule power_less_imp_less_exp[rotated]) simp
  have "Suc k \<le> f" if "unat x \<le> 2 ^ f" for f
  proof -
    have "(2::nat) ^ k < 2 ^ f" using bnd(1) that by linarith
    then show ?thesis by (simp add: Suc_le_eq)
  qed
  then show ?thesis using ceilToPow2_top_bit[OF k] bnd(2) k63 by (intro exI[of _ "Suc k"]) auto
qed

subsection \<open>Layout of an allocated block\<close>

definition fits :: "layout \<Rightarrow> nat \<Rightarrow> bool" where
  "fits ly cap \<longleftrightarrow> alignof_Block ly \<noteq> 0 \<and> alignof_T ly \<noteq> 0 \<and> sizeof_Block ly \<noteq> 0 \<and>
     unat (sizeof_Block ly) + unat (alignof_Block ly) + unat (sizeof_T ly) * cap + unat (alignof_T ly) < 2 ^ 64"

lemma fits_mono: "fits ly cap \<Longrightarrow> cap' \<le> cap \<Longrightarrow> fits ly cap'"
  using mult_le_mono2[of cap' cap "unat (sizeof_T ly)"] unfolding fits_def by linarith

lemma block_bytes_unat:
  assumes "fits ly (unat cap)"
  shows "unat (block_bytes ly cap) =
    unat (sizeof_Block ly) + (unat (alignof_Block ly) - 1) + unat (sizeof_T ly) * unat cap + (unat (alignof_T ly) - 1)"
proof -
  let ?B = "sizeof_Block ly" and ?A = "alignof_Block ly" and ?S = "sizeof_T ly" and ?L = "alignof_T ly"
  have nz: "0 < unat ?A" "0 < unat ?L" using assms by (auto simp: fits_def unat_pos)
  have lim: "unat ?B + unat ?A + unat ?S * unat cap + unat ?L < 2 ^ 64" using assms by (simp add: fits_def)
  have m: "unat (?S * cap) = unat ?S * unat cap" using lim by (intro unat_mult_no_wrap) linarith
  have a: "unat (?A - 1) = unat ?A - 1" "unat (?L - 1) = unat ?L - 1"
    using assms by (auto simp: fits_def unat_minus_one)
  have s1: "unat (?B + (?A - 1)) = unat ?B + (unat ?A - 1)"
    using lim a nz by (subst unat_add_no_wrap) auto
  have s2: "unat (?S * cap + (?L - 1)) = unat ?S * unat cap + (unat ?L - 1)"
    using lim a nz m by (subst unat_add_no_wrap) auto
  have "block_bytes ly cap = (?B + (?A - 1)) + (?S * cap + (?L - 1))"
    by (simp add: block_bytes_def Let_def)
  then show ?thesis using s1 s2 lim nz by (subst \<open>block_bytes ly cap = _\<close>, subst unat_add_no_wrap) auto
qed

lemma align_for_unat:
  assumes "al \<noteq> 0" and "unat p + unat al \<le> 2 ^ 64"
  shows "unat al dvd unat (align_for al p) \<and> unat p \<le> unat (align_for al p) \<and>
         unat (align_for al p) < unat p + unat al"
proof -
  have al: "0 < unat al" using assms(1) by (rule unat_pos)
  let ?r = "unat p mod unat al"
  have r: "?r < unat al" using al by simp
  have sub: "unat (al - p mod al) = unat al - ?r"
  proof -
    have "p mod al \<le> al" using r by (simp add: word_le_nat_alt unat_mod_distrib less_imp_le)
    then show ?thesis by (simp add: unat_sub unat_mod_distrib)
  qed
  have off: "unat ((al - p mod al) mod al) = (unat al - ?r) mod unat al"
    by (simp add: unat_mod_distrib sub)
  have offlt: "(unat al - ?r) mod unat al < unat al" using al by simp
  have sum: "unat (align_for al p) = unat p + (unat al - ?r) mod unat al"
    unfolding align_for_def using assms(2) offlt by (subst unat_add_no_wrap) (simp_all add: off)
  have "(unat p + (unat al - ?r) mod unat al) mod unat al = (?r + (unat al - ?r)) mod unat al"
    by (simp only: mod_add_right_eq mod_add_left_eq)
  also have "\<dots> = 0" using r by simp
  finally have "unat al dvd unat (align_for al p)" unfolding sum by (rule mod_0_imp_dvd)
  then show ?thesis using sum offlt by linarith
qed

lemma make_block_layout:
  assumes fit: "fits ly (unat cap)"
    and raw: "malloc h (block_bytes ly cap) = raw" "raw \<noteq> nullptr"
    and room: "unat raw + unat (block_bytes ly cap) < 2 ^ 64"
    and res: "make_block ly malloc h cap = (a, h')"
  shows "\<exists>b. h' = h(a \<mapsto> b) \<and> rawThis b = raw \<and>
     unat (alignof_Block ly) dvd unat a \<and> unat (alignof_T ly) dvd unat (data b) \<and>
     unat raw \<le> unat a \<and> unat a + unat (sizeof_Block ly) \<le> unat (data b) \<and>
     unat (data b) + unat (sizeof_T ly) * length (slots b) \<le> unat raw + unat (block_bytes ly cap)"
proof -
  let ?B = "sizeof_Block ly" and ?A = "alignof_Block ly" and ?S = "sizeof_T ly" and ?L = "alignof_T ly"
  have nz: "?A \<noteq> 0" "?L \<noteq> 0" "0 < unat ?A" "0 < unat ?L" "0 < unat ?B"
    using fit by (auto simp: fits_def unat_pos)
  note bytes = block_bytes_unat[OF fit]
  define d where "d = align_for ?L (a + ?B)"
  have a: "a = align_for ?A raw" and h': "h' = h(a \<mapsto> Block_ctor cap raw d)"
    using res raw by (auto simp: make_block_def Let_def d_def)
  have al: "unat ?A dvd unat a" "unat raw \<le> unat a" "unat a < unat raw + unat ?A"
    using align_for_unat[of ?A raw] nz room bytes unfolding a by auto
  have aB: "unat (a + ?B) = unat a + unat ?B"
    using al(3) room bytes nz by (intro unat_add_no_wrap) linarith
  have dl: "unat ?L dvd unat d" "unat (a + ?B) \<le> unat d" "unat d < unat (a + ?B) + unat ?L"
    using align_for_unat[of ?L "a + ?B"] nz room bytes al(3) aB unfolding d_def by auto
  show ?thesis
    using h' al dl aB bytes room nz by (intro exI[of _ "Block_ctor cap raw d"]) (auto simp: Block_ctor_def)
qed

subsection \<open>The allocator\<close>

definition allocation :: "layout \<Rightarrow> 'a Block \<Rightarrow> nat set" where
  "allocation ly b = {unat (rawThis b) ..< unat (rawThis b) + unat (block_bytes ly (sizeMask b + 1))}"

definition malloc_ok :: "layout \<Rightarrow> 'a malloc \<Rightarrow> bool" where
  "malloc_ok ly malloc \<longleftrightarrow> (\<forall>h n. malloc h n \<noteq> nullptr \<longrightarrow>
     unat (malloc h n) + unat n < 2 ^ 64 \<and>
     (\<forall>p b. h p = Some b \<longrightarrow> {unat (malloc h n) ..< unat (malloc h n) + unat n} \<inter> allocation ly b = {}))"

definition heap_ok :: "layout \<Rightarrow> 'a heap \<Rightarrow> bool" where
  "heap_ok ly h \<longleftrightarrow> (\<forall>p b. h p = Some b \<longrightarrow> unat p \<in> allocation ly b \<and> p \<noteq> nullptr) \<and>
     (\<forall>p b p' b'. h p = Some b \<and> h p' = Some b' \<and> p \<noteq> p' \<longrightarrow> allocation ly b \<inter> allocation ly b' = {})"

lemma heap_ok_block: "heap_ok ly h \<Longrightarrow> h p = Some b \<Longrightarrow> unat p \<in> allocation ly b \<and> p \<noteq> nullptr"
  by (simp add: heap_ok_def)

text \<open>Distinct blocks have distinct allocations, so \<^verbatim>\<open>rawThis\<close> identifies a block.\<close>

lemma heap_ok_rawThis:
  assumes "heap_ok ly h" "h p = Some b" "h p' = Some b'" "rawThis b = rawThis b'"
  shows "p = p'"
proof (rule ccontr)
  assume ne: "p \<noteq> p'"
  have "unat p \<in> allocation ly b" "unat p' \<in> allocation ly b'" using assms by (auto simp: heap_ok_def)
  then have "unat (rawThis b) \<in> allocation ly b" "unat (rawThis b) \<in> allocation ly b'"
    using assms(4) by (auto simp: allocation_def)
  then show False using assms(1-3) ne unfolding heap_ok_def by blast
qed

lemma heap_ok_add:
  assumes h: "heap_ok ly h" and a: "h a = None" "a \<noteq> nullptr" "unat a \<in> allocation ly b"
    and d: "\<And>p b'. h p = Some b' \<Longrightarrow> allocation ly b \<inter> allocation ly b' = {}"
  shows "heap_ok ly (h(a \<mapsto> b))"
  unfolding heap_ok_def
proof (intro conjI allI impI)
  have hd: "allocation ly c \<inter> allocation ly c' = {}" if "h p = Some c" "h p' = Some c'" "p \<noteq> p'" for p c p' c'
    using h that unfolding heap_ok_def by blast
  fix p c p' c' assume pc: "(h(a \<mapsto> b)) p = Some c \<and> (h(a \<mapsto> b)) p' = Some c' \<and> p \<noteq> p'"
  show "allocation ly c \<inter> allocation ly c' = {}"
  proof (cases "p = a")
    case True
    then have "c = b" "h p' = Some c'" using pc by auto
    then show ?thesis using d by simp
  next
    case np: False
    then have p: "h p = Some c" using pc by simp
    show ?thesis
    proof (cases "p' = a")
      case True
      then have "c' = b" using pc by auto
      then show ?thesis using d[OF p] by (simp add: Int_commute)
    next
      case False
      then have "h p' = Some c'" using pc by simp
      then show ?thesis using hd[OF p] pc by simp
    qed
  qed
qed (use heap_ok_block[OF h] a in \<open>auto split: if_splits\<close>)

lemma make_block_cases:
  assumes fit: "fits ly (unat cap)" and ok: "malloc_ok ly malloc" and hok: "heap_ok ly h"
    and res: "make_block ly malloc h cap = (a, h')"
  shows "a = nullptr \<and> h' = h \<and> malloc h (block_bytes ly cap) = nullptr \<or>
    (\<exists>raw dat. a \<noteq> nullptr \<and> h a = None \<and> h' = h(a \<mapsto> Block_ctor cap raw dat) \<and> heap_ok ly h')"
proof (cases "malloc h (block_bytes ly cap) = nullptr")
  case True
  then show ?thesis using res by (simp add: make_block_def)
next
  case False
  let ?raw = "malloc h (block_bytes ly cap)"
  have room: "unat ?raw + unat (block_bytes ly cap) < 2 ^ 64"
    and disj: "\<And>p b. h p = Some b \<Longrightarrow>
      {unat ?raw ..< unat ?raw + unat (block_bytes ly cap)} \<inter> allocation ly b = {}"
    using ok False unfolding malloc_ok_def by blast+
  from make_block_layout[OF fit refl False room res]
  have lo: "unat ?raw \<le> unat a" and hi: "unat a + unat (sizeof_Block ly) \<le> unat ?raw + unat (block_bytes ly cap)"
    by auto
  have "0 < unat (sizeof_Block ly)" using fit by (simp add: fits_def unat_pos)
  then have mem: "unat a \<in> {unat ?raw ..< unat ?raw + unat (block_bytes ly cap)}" using lo hi by auto
  have a0: "a \<noteq> nullptr" using lo False unat_pos[OF False] by auto
  have fresh: "h a = None"
  proof (rule ccontr)
    assume "h a \<noteq> None"
    then obtain b where b: "h a = Some b" by blast
    with hok have "unat a \<in> allocation ly b" by (simp add: heap_ok_block)
    with disj[OF b] mem show False by blast
  qed
  obtain dat where h': "h' = h(a \<mapsto> Block_ctor cap ?raw dat)"
    using res False by (auto simp: make_block_def Let_def)
  have al: "allocation ly (Block_ctor cap ?raw dat) = {unat ?raw ..< unat ?raw + unat (block_bytes ly cap)}"
    by (simp add: allocation_def Block_ctor_def)
  have "heap_ok ly h'"
    unfolding h' using mem disj by (intro heap_ok_add[OF hok fresh a0]) (simp_all only: al)
  then show ?thesis using a0 fresh h' by blast
qed

subsection \<open>A block as a bounded list\<close>

abbreviation cap :: "'a Block \<Rightarrow> nat" where
  "cap b \<equiv> length (slots b)"

definition block_shape :: "'a Block \<Rightarrow> bool" where
  "block_shape b \<longleftrightarrow> (\<exists>e. 0 < e \<and> e < 64 \<and> cap b = 2 ^ e \<and> sizeMask b = mask e) \<and>
     unat (front b) < cap b \<and> unat (tail b) < cap b \<and>
     unat (localFront b) < cap b \<and> unat (localTail b) < cap b"

definition shadows_ok :: "'a Block \<Rightarrow> nat \<Rightarrow> bool" where
  "shadows_ok b n \<longleftrightarrow>
     (\<exists>lt \<le> n. unat (localTail b) = (unat (front b) + lt) mod cap b) \<and>
     (\<exists>lf. lf + n < cap b \<and> unat (front b) = (unat (localFront b) + lf) mod cap b)"

definition slots_ok :: "'a Block \<Rightarrow> 'a list \<Rightarrow> bool" where
  "slots_ok b vs \<longleftrightarrow> (\<forall>j < cap b. slots b ! ((unat (front b) + j) mod cap b) =
     (if j < length vs then Some (vs ! j) else None))"

definition block_rep :: "'a Block \<Rightarrow> 'a list \<Rightarrow> bool" where
  "block_rep b vs \<longleftrightarrow> block_shape b \<and> length vs < cap b \<and>
     unat (tail b) = (unat (front b) + length vs) mod cap b \<and>
     shadows_ok b (length vs) \<and> slots_ok b vs"

lemma block_shape_cap: "block_shape b \<Longrightarrow> 1 < cap b"
  unfolding block_shape_def using one_less_power[of "2::nat"] by auto

lemma block_rep_shape: "block_rep b vs \<Longrightarrow> block_shape b"
  by (simp add: block_rep_def)

lemma unat_advance: "block_shape b \<Longrightarrow> unat i < cap b \<Longrightarrow> unat (advance b i) = (unat i + 1) mod cap b"
proof -
  assume s: "block_shape b" and i: "unat i < cap b"
  then obtain e where e: "e < 64" "cap b = 2 ^ e" "sizeMask b = mask e" by (auto simp: block_shape_def)
  have "unat i + 1 < 2 ^ 64" using i e(2) pow2_less_64[OF e(1)] by simp
  then have "unat (i + 1) = unat i + 1" using unat_add_no_wrap[of i 1] by simp
  then show ?thesis using e by (simp add: advance_def unat_and_mask)
qed

lemma advance_less: "block_shape b \<Longrightarrow> unat i < cap b \<Longrightarrow> unat (advance b i) < cap b"
  using block_shape_cap[of b] by (simp only: unat_advance) (rule mod_less_divisor, linarith)

lemma front_eq_tail_iff: "block_rep b vs \<Longrightarrow> front b = tail b \<longleftrightarrow> vs = []"
proof -
  assume r: "block_rep b vs"
  have "front b = tail b \<longleftrightarrow> unat (front b) mod cap b = (unat (front b) + length vs) mod cap b"
    using r by (auto simp: block_rep_def block_shape_def word_unat_eq_iff)
  also have "\<dots> \<longleftrightarrow> vs = []"
    using r mod_shift_self_iff[of "length vs" "cap b" "unat (front b)"] by (auto simp: block_rep_def)
  finally show ?thesis .
qed

lemma front_neq_localTail: "block_rep b vs \<Longrightarrow> front b \<noteq> localTail b \<Longrightarrow> vs \<noteq> []"
proof
  assume r: "block_rep b vs" and ne: "front b \<noteq> localTail b" and "vs = []"
  then have "unat (localTail b) = unat (front b) mod cap b"
    by (auto simp: block_rep_def shadows_ok_def)
  with r ne show False by (simp add: block_rep_def block_shape_def word_unat_eq_iff)
qed

lemma unat_advance_tail:
  "block_rep b vs \<Longrightarrow> unat (advance b (tail b)) = (unat (front b) + Suc (length vs)) mod cap b"
  by (simp add: block_rep_def block_shape_def[of b] unat_advance mod_simps)

lemma advance_tail_eq_front_iff:
  assumes r: "block_rep b vs"
  shows "advance b (tail b) = front b \<longleftrightarrow> Suc (length vs) = cap b"
proof -
  have f: "unat (front b) < cap b" and l: "length vs < cap b" using r by (auto simp: block_rep_def block_shape_def)
  have "advance b (tail b) = front b \<longleftrightarrow>
      (unat (front b) + Suc (length vs)) mod cap b = unat (front b) mod cap b"
    using unat_advance_tail[OF r] f by (simp add: word_unat_eq_iff)
  also have "\<dots> \<longleftrightarrow> Suc (length vs) = cap b"
  proof (cases "Suc (length vs) = cap b")
    case False
    then show ?thesis using l mod_shift_self_iff[of "Suc (length vs)" "cap b" "unat (front b)"] by simp
  qed simp
  finally show ?thesis .
qed

lemma localFront_gap:
  assumes r: "block_rep b vs" and ne: "advance b (tail b) \<noteq> localFront b"
  shows "\<exists>lf. lf + Suc (length vs) < cap b \<and> unat (front b) = (unat (localFront b) + lf) mod cap b"
proof -
  obtain lf where lf: "lf + length vs < cap b" "unat (front b) = (unat (localFront b) + lf) mod cap b"
    using r by (auto simp: block_rep_def shadows_ok_def)
  have l: "unat (localFront b) < cap b" using r by (simp add: block_rep_def block_shape_def)
  have "lf + Suc (length vs) \<noteq> cap b"
  proof
    assume full: "lf + Suc (length vs) = cap b"
    have "unat (advance b (tail b)) = (unat (localFront b) + (lf + Suc (length vs))) mod cap b"
      unfolding unat_advance_tail[OF r] lf(2) by (simp only: mod_add_left_eq add.assoc)
    also have "\<dots> = unat (localFront b)" unfolding full using l by simp
    finally show False using ne by (simp add: word_unat_eq_iff)
  qed
  then show ?thesis using lf by (intro exI[of _ lf]) auto
qed

lemma block_rep_sync_tail: "block_rep b vs \<Longrightarrow> block_rep (b\<lparr>localTail := tail b\<rparr>) vs"
  by (auto simp: block_rep_def block_shape_def shadows_ok_def slots_ok_def)

lemma block_rep_sync_front: "block_rep b vs \<Longrightarrow> block_rep (b\<lparr>localFront := front b\<rparr>) vs"
  by (auto simp: block_rep_def block_shape_def shadows_ok_def slots_ok_def intro!: exI[of _ 0])

lemma block_rep_next: "block_rep (b\<lparr>nextB := p\<rparr>) vs \<longleftrightarrow> block_rep b vs"
  by (simp add: block_rep_def block_shape_def shadows_ok_def slots_ok_def)

text \<open>Enqueueing in a block with room: construct in the slot at \<open>tail\<close>, then move \<open>tail\<close> on.\<close>

lemma slots_ok_push:
  assumes s: "slots_ok b vs" and l: "length vs < cap b"
  shows "slots_ok (b\<lparr>slots := (slots b)[(unat (front b) + length vs) mod cap b := Some v], tail := t\<rparr>) (vs @ [v])"
proof (unfold slots_ok_def, intro allI impI)
  fix j
  let ?b = "b\<lparr>slots := (slots b)[(unat (front b) + length vs) mod cap b := Some v], tail := t\<rparr>"
  assume "j < cap ?b"
  then have j: "j < cap b" by simp
  have lt: "(unat (front b) + length vs) mod cap b < cap b" using j by (intro mod_less_divisor) linarith
  show "slots ?b ! ((unat (front ?b) + j) mod cap ?b) = (if j < length (vs @ [v]) then Some ((vs @ [v]) ! j) else None)"
  proof (cases "j = length vs")
    case True
    then show ?thesis using lt by simp
  next
    case False
    then have "(unat (front b) + length vs) mod cap b \<noteq> (unat (front b) + j) mod cap b"
      using mod_shift_eq_iff[OF l j] by simp
    then show ?thesis using s j False by (simp add: slots_ok_def nth_append)
  qed
qed

lemma block_rep_push:
  assumes r: "block_rep b vs" and ne: "advance b (tail b) \<noteq> localFront b"
  shows "\<exists>b'. construct_at b (tail b) v = Inr b' \<and>
    block_rep (b'\<lparr>tail := advance b (tail b)\<rparr>) (vs @ [v]) \<and> nextB b' = nextB b \<and> rawThis b' = rawThis b \<and>
    sizeMask b' = sizeMask b \<and> cap b' = cap b"
proof -
  have sh: "block_shape b" using r by (simp add: block_rep_def)
  have t: "unat (tail b) = (unat (front b) + length vs) mod cap b" using r by (simp add: block_rep_def)
  have tl: "unat (tail b) < cap b" using sh by (simp add: block_shape_def)
  let ?b' = "b\<lparr>slots := (slots b)[unat (tail b) := Some v], tail := advance b (tail b)\<rparr>"
  obtain lf where lf: "lf + Suc (length vs) < cap b" "unat (front b) = (unat (localFront b) + lf) mod cap b"
    using localFront_gap[OF r ne] by blast
  obtain lt where lt: "lt \<le> length vs" "unat (localTail b) = (unat (front b) + lt) mod cap b"
    using r by (auto simp: block_rep_def shadows_ok_def)
  have "slots_ok ?b' (vs @ [v])" unfolding t using r slots_ok_push by (auto simp: block_rep_def)
  moreover have "shadows_ok ?b' (length (vs @ [v]))" using lf lt by (auto simp: shadows_ok_def intro: exI[of _ lt])
  moreover have "block_shape ?b'" using sh advance_less[OF sh tl] by (simp add: block_shape_def)
  ultimately have "block_rep ?b' (vs @ [v])"
    using lf(1) unat_advance_tail[OF r] by (simp add: block_rep_def)
  then show ?thesis using tl by (simp add: construct_at_def)
qed

text \<open>Dequeueing from a non-empty block: move out of the slot at \<open>front\<close>, then move \<open>front\<close> on.\<close>

lemma slots_ok_pop:
  assumes s: "slots_ok b (v # vs)" and f: "unat (front b) < cap b" and l: "length (v # vs) < cap b"
    and f': "unat f' = (unat (front b) + 1) mod cap b"
  shows "slots_ok (b\<lparr>slots := (slots b)[unat (front b) := None], front := f'\<rparr>) vs"
proof (unfold slots_ok_def, intro allI impI)
  fix j
  let ?b = "b\<lparr>slots := (slots b)[unat (front b) := None], front := f'\<rparr>"
  assume "j < cap ?b"
  then have j: "j < cap b" by simp
  have ix: "(unat (front ?b) + j) mod cap ?b = (unat (front b) + Suc j) mod cap b"
    by (simp add: f' mod_simps)
  show "slots ?b ! ((unat (front ?b) + j) mod cap ?b) = (if j < length vs then Some (vs ! j) else None)"
  proof (cases "Suc j = cap b")
    case True
    then show ?thesis using ix f l by simp
  next
    case False
    then have j': "Suc j < cap b" using j by simp
    have "(unat (front b) + Suc j) mod cap b \<noteq> unat (front b)"
      using mod_shift_self_iff[OF j', of "unat (front b)"] f by simp
    then have "slots ?b ! ((unat (front ?b) + j) mod cap ?b) = slots b ! ((unat (front b) + Suc j) mod cap b)"
      unfolding ix by simp
    also have "\<dots> = (if j < length vs then Some (vs ! j) else None)"
      using s[unfolded slots_ok_def, rule_format, OF j'] by simp
    finally show ?thesis .
  qed
qed

lemma shadows_ok_pop:
  assumes s: "shadows_ok b (Suc n)" and l: "Suc n < cap b" and lt0: "front b \<noteq> localTail b"
    and sh: "block_shape b" and f': "unat f' = (unat (front b) + 1) mod cap b"
    and ss: "length ss = cap b"
  shows "shadows_ok (b\<lparr>slots := ss, front := f'\<rparr>) n"
proof -
  obtain lt where lt: "lt \<le> Suc n" "unat (localTail b) = (unat (front b) + lt) mod cap b"
    using s by (auto simp: shadows_ok_def)
  obtain lf where lf: "lf + Suc n < cap b" "unat (front b) = (unat (localFront b) + lf) mod cap b"
    using s by (auto simp: shadows_ok_def)
  have "lt \<noteq> 0"
  proof
    assume "lt = 0"
    then have "unat (localTail b) = unat (front b)" using lt(2) sh by (simp add: block_shape_def)
    then show False using lt0 by (simp add: word_unat_eq_iff)
  qed
  then obtain lt' where lt': "lt = Suc lt'" by (cases lt) auto
  then have "lt' \<le> n" "unat (localTail b) = (unat f' + lt') mod cap b"
    using lt by (auto simp: f' mod_simps)
  moreover have "unat f' = (unat (localFront b) + Suc lf) mod cap b"
    unfolding f' lf(2) by (simp add: mod_simps)
  ultimately show ?thesis using lf(1) ss
    by (auto simp: shadows_ok_def intro: exI[of _ lt'] exI[of _ "Suc lf"])
qed

lemma block_rep_pop:
  assumes r: "block_rep b (v # vs)" and ne: "front b \<noteq> localTail b"
  shows "\<exists>b'. move_out b (front b) = Inr (v, b') \<and>
    block_rep (b'\<lparr>front := advance b (front b)\<rparr>) vs \<and> nextB b' = nextB b \<and> rawThis b' = rawThis b \<and>
    sizeMask b' = sizeMask b \<and> cap b' = cap b"
proof -
  have sh: "block_shape b" and l: "length (v # vs) < cap b" and so: "slots_ok b (v # vs)"
    and sd: "shadows_ok b (Suc (length vs))" using r by (auto simp: block_rep_def)
  have f: "unat (front b) < cap b" using sh by (simp add: block_shape_def)
  have f': "unat (advance b (front b)) = (unat (front b) + 1) mod cap b" by (rule unat_advance[OF sh f])
  have s0: "slots b ! unat (front b) = Some v"
    using so l f unfolding slots_ok_def by (auto dest!: spec[of _ 0])
  let ?b' = "b\<lparr>slots := (slots b)[unat (front b) := None], front := advance b (front b)\<rparr>"
  have "slots_ok ?b' vs" by (rule slots_ok_pop[OF so f l f'])
  moreover have "shadows_ok ?b' (length vs)"
    using shadows_ok_pop[OF sd _ ne sh f', of "(slots b)[unat (front b) := None]"] l by simp
  moreover have "block_shape ?b'" using sh advance_less[OF sh f] by (simp add: block_shape_def)
  moreover have "unat (tail b) = (unat (advance b (front b)) + length vs) mod cap b"
    using r by (simp add: block_rep_def f' mod_simps)
  ultimately have "block_rep ?b' vs" using l by (simp add: block_rep_def)
  then show ?thesis using f s0 by (simp add: move_out_def)
qed

text \<open>\<^verbatim>\<open>size_approx\<close> computes the length of a block with a masked subtraction.\<close>

lemma block_used:
  assumes r: "block_rep b vs"
  shows "unat ((tail b - front b) AND sizeMask b) = length vs"
proof -
  obtain e where e: "e < 64" "cap b = 2 ^ e" "sizeMask b = mask e"
    using r by (auto simp: block_rep_def block_shape_def)
  have l: "length vs < 2 ^ e" and f: "unat (front b) < 2 ^ e" and t: "unat (tail b) = (unat (front b) + length vs) mod 2 ^ e"
    using r e by (auto simp: block_rep_def block_shape_def)
  have n: "unat (of_nat (length vs) :: size_t) = length vs"
    using l pow2_less_64[OF e(1)] by (simp add: unsigned_of_nat take_bit_nat_eq_self)
  have "(2::nat) ^ e \<le> 2 ^ 63" using e(1) by (intro power_increasing) auto
  then have "unat (front b + of_nat (length vs)) = unat (front b) + length vs"
    using l f n by (subst unat_add_no_wrap) auto
  then have "tail b = (front b + of_nat (length vs)) AND mask e"
    by (simp add: word_unat_eq_iff unat_and_mask t)
  then have "(tail b - front b) AND mask e = of_nat (length vs) AND mask e"
    by (simp add: mask_eqs)
  then show ?thesis using l n e by (simp add: unat_and_mask)
qed

subsection \<open>A freshly constructed block\<close>

lemma Block_ctor_rep:
  assumes "0 < e" "e < 64"
  shows "block_rep (Block_ctor (2 ^ e) raw dat) []" "cap (Block_ctor (2 ^ e) raw dat) = 2 ^ e"
proof -
  have u: "unat (2 ^ e :: size_t) = 2 ^ e" by (rule unat_pow2_64[OF assms(2)])
  show "cap (Block_ctor (2 ^ e) raw dat) = 2 ^ e" by (simp add: Block_ctor_def u)
  show "block_rep (Block_ctor (2 ^ e) raw dat) []"
    using assms u unfolding block_rep_def
  proof (intro conjI)
    show "block_shape (Block_ctor (2 ^ e) raw dat)"
      using assms u by (auto simp: block_shape_def Block_ctor_def mask_eq_exp_minus_1)
    show "shadows_ok (Block_ctor (2 ^ e) raw dat) (length [])"
      using u by (simp add: shadows_ok_def Block_ctor_def) (metis mod_0 zero_less_numeral zero_less_power)
  qed (auto simp: slots_ok_def Block_ctor_def)
qed

end
