(* ===== verification/Rwq_Queue.thy ===== *)
theory Rwq_Queue
  imports Rwq_Block
begin

unbundle bit_operations_syntax

text \<open>
  \<^verbatim>\<open>class ReaderWriterQueue\<close> of \<^verbatim>\<open>libs/readerwriterqueue/readerwriterqueue.h\<close>, operation by
  operation: \<^verbatim>\<open>inner_enqueue\<close> with its two allocation modes, \<^verbatim>\<open>try_dequeue\<close>, \<^verbatim>\<open>peek\<close>, \<^verbatim>\<open>pop\<close>
  and \<^verbatim>\<open>size_approx\<close>, as functions from a heap of blocks and the queue's members to a result
  and the new heap and members. The invariant says that the blocks form a circular linked
  list whose front part holds the queue; every operation refines the corresponding operation
  on lists. The interleaving of the two threads is the subject of \<open>Rwq_Conc\<close>.
\<close>

subsection \<open>Members and environment\<close>

text \<open>The members of the class. The debug flags exist because \<^verbatim>\<open>NDEBUG\<close> is not defined.\<close>

record rwq =
  frontBlock :: addr
  tailBlock :: addr
  largestBlockSize :: size_t
  enqueuing :: bool
  dequeuing :: bool

text \<open>What the template and the platform fix: layouts, allocator, \<^verbatim>\<open>MAX_BLOCK_SIZE\<close>.\<close>

record 'a env =
  ly :: layout
  mallocf :: "'a malloc"
  max_block :: size_t

datatype AllocationMode = CanAlloc | CannotAlloc

type_synonym ('r, 'a) qres = "('r \<times> 'a heap \<times> rwq) res"

text \<open>
  \<^verbatim>\<open>ReentrantGuard\<close>: the constructor asserts that the flag is clear and sets it, the
  destructor clears it when the operation returns.
\<close>

definition with_enqueuing :: "('a heap \<Rightarrow> rwq \<Rightarrow> ('r, 'a) qres) \<Rightarrow> 'a heap \<Rightarrow> rwq \<Rightarrow> ('r, 'a) qres" where
  "with_enqueuing body h q =
     bindE (assertE (\<not> enqueuing q)) (\<lambda>_.
     bindE (body h (q\<lparr>enqueuing := True\<rparr>)) (\<lambda>(r, h', q').
     Inr (r, h', q'\<lparr>enqueuing := False\<rparr>)))"

definition with_dequeuing :: "('a heap \<Rightarrow> rwq \<Rightarrow> ('r, 'a) qres) \<Rightarrow> 'a heap \<Rightarrow> rwq \<Rightarrow> ('r, 'a) qres" where
  "with_dequeuing body h q =
     bindE (assertE (\<not> dequeuing q)) (\<lambda>_.
     bindE (body h (q\<lparr>dequeuing := True\<rparr>)) (\<lambda>(r, h', q').
     Inr (r, h', q'\<lparr>dequeuing := False\<rparr>)))"

subsection \<open>inner_enqueue\<close>

text \<open>The tail block is full and the block after it is free.\<close>

definition enqueue_next_block :: "'a \<Rightarrow> 'a heap \<Rightarrow> rwq \<Rightarrow> addr \<Rightarrow> (bool, 'a) qres" where
  "enqueue_next_block v h q tailBlockNext =
     bindE (get_block h tailBlockNext) (\<lambda>b0.
       let nextBlockFront = front b0;
           b1 = b0\<lparr>localFront := nextBlockFront\<rparr>;
           nextBlockTail = tail b1
       in bindE (assertE (nextBlockFront = nextBlockTail)) (\<lambda>_.
          bindE (construct_at (b1\<lparr>localFront := nextBlockFront\<rparr>) nextBlockTail v) (\<lambda>b2.
          Inr (True, h(tailBlockNext \<mapsto> b2\<lparr>tail := advance b2 nextBlockTail\<rparr>),
               q\<lparr>tailBlock := tailBlockNext\<rparr>))))"

text \<open>The tail block is full and there is no free block: a new one is linked in behind it.\<close>

definition enqueue_new_block :: "'a env \<Rightarrow> 'a \<Rightarrow> 'a heap \<Rightarrow> rwq \<Rightarrow> (bool, 'a) qres" where
  "enqueue_new_block env v h q =
     (let newBlockSize = (if max_block env \<le> largestBlockSize q then largestBlockSize q
                          else largestBlockSize q * 2);
          (newBlock, h1) = make_block (ly env) (mallocf env) h newBlockSize
      in if newBlock = nullptr then Inr (False, h1, q)
         else let q1 = q\<lparr>largestBlockSize := newBlockSize\<rparr>
              in bindE (get_block h1 newBlock) (\<lambda>nb0.
                 bindE (construct_at nb0 0 v) (\<lambda>nb1.
                 bindE (assertE (front nb1 = 0)) (\<lambda>_.
                 bindE (get_block h1 (tailBlock q1)) (\<lambda>tb.
                   let nb2 = nb1\<lparr>localTail := 1, tail := 1, nextB := nextB tb\<rparr>;
                       h2 = h1(newBlock \<mapsto> nb2);
                       h3 = h2(tailBlock q1 \<mapsto> tb\<lparr>nextB := newBlock\<rparr>)
                   in Inr (True, h3, q1\<lparr>tailBlock := newBlock\<rparr>))))))"

definition inner_enqueue_body ::
  "'a env \<Rightarrow> AllocationMode \<Rightarrow> 'a \<Rightarrow> 'a heap \<Rightarrow> rwq \<Rightarrow> (bool, 'a) qres" where
  "inner_enqueue_body env canAlloc v h q =
     bindE (get_block h (tailBlock q)) (\<lambda>tb0.
       let blockTail = tail tb0;
           nextBlockTail = advance tb0 blockTail;
           tb = (if nextBlockTail \<noteq> localFront tb0 then tb0 else tb0\<lparr>localFront := front tb0\<rparr>)
       in if nextBlockTail \<noteq> localFront tb0 \<or> nextBlockTail \<noteq> localFront tb
          then bindE (construct_at tb blockTail v) (\<lambda>tb'.
               Inr (True, h(tailBlock q \<mapsto> tb'\<lparr>tail := nextBlockTail\<rparr>), q))
          else let h1 = h(tailBlock q \<mapsto> tb)
               in if nextB tb \<noteq> frontBlock q then enqueue_next_block v h1 q (nextB tb)
                  else case canAlloc of
                         CanAlloc \<Rightarrow> enqueue_new_block env v h1 q
                       | CannotAlloc \<Rightarrow> Inr (False, h1, q))"

definition inner_enqueue ::
  "'a env \<Rightarrow> AllocationMode \<Rightarrow> 'a \<Rightarrow> 'a heap \<Rightarrow> rwq \<Rightarrow> (bool, 'a) qres" where
  "inner_enqueue env canAlloc v = with_enqueuing (inner_enqueue_body env canAlloc v)"

text \<open>The public entry points; the \<^verbatim>\<open>emplace\<close> forms construct the same element in place.\<close>

definition try_enqueue :: "'a env \<Rightarrow> 'a \<Rightarrow> 'a heap \<Rightarrow> rwq \<Rightarrow> (bool, 'a) qres" where
  "try_enqueue env v = inner_enqueue env CannotAlloc v"

definition enqueue :: "'a env \<Rightarrow> 'a \<Rightarrow> 'a heap \<Rightarrow> rwq \<Rightarrow> (bool, 'a) qres" where
  "enqueue env v = inner_enqueue env CanAlloc v"

subsection \<open>try_dequeue\<close>

text \<open>The label \<^verbatim>\<open>non_empty_front_block\<close>.\<close>

definition dequeue_front :: "'a heap \<Rightarrow> rwq \<Rightarrow> addr \<Rightarrow> size_t \<Rightarrow> ('a option, 'a) qres" where
  "dequeue_front h q fb blockFront =
     bindE (get_block h fb) (\<lambda>b.
     bindE (move_out b blockFront) (\<lambda>(v, b').
     Inr (Some v, h(fb \<mapsto> b'\<lparr>front := advance b' blockFront\<rparr>), q)))"

text \<open>The front block is empty and there is another block ahead.\<close>

definition dequeue_next_block :: "'a heap \<Rightarrow> rwq \<Rightarrow> addr \<Rightarrow> ('a option, 'a) qres" where
  "dequeue_next_block h q nextBlock =
     bindE (get_block h nextBlock) (\<lambda>b0.
       let nextBlockFront = front b0;
           b1 = b0\<lparr>localTail := tail b0\<rparr>;
           nextBlockTail = localTail b1
       in bindE (assertE (nextBlockFront \<noteq> nextBlockTail)) (\<lambda>_.
          bindE (move_out b1 nextBlockFront) (\<lambda>(v, b2).
          Inr (Some v, h(nextBlock \<mapsto> b2\<lparr>front := advance b2 nextBlockFront\<rparr>),
               q\<lparr>frontBlock := nextBlock\<rparr>))))"

definition try_dequeue_body :: "'a heap \<Rightarrow> rwq \<Rightarrow> ('a option, 'a) qres" where
  "try_dequeue_body h q =
     (let fb = frontBlock q
      in bindE (get_block h fb) (\<lambda>b0.
         let blockFront = front b0;
             b1 = (if blockFront \<noteq> localTail b0 then b0 else b0\<lparr>localTail := tail b0\<rparr>);
             h1 = h(fb \<mapsto> b1)
         in if blockFront \<noteq> localTail b0 \<or> blockFront \<noteq> localTail b1
            then dequeue_front h1 q fb blockFront
            else if fb \<noteq> tailBlock q
            then bindE (get_block h1 fb) (\<lambda>b2.
                 let b3 = b2\<lparr>localTail := tail b2\<rparr>;
                     h2 = h1(fb \<mapsto> b3)
                 in if front b3 \<noteq> localTail b3 then dequeue_front h2 q fb (front b3)
                    else dequeue_next_block h2 q (nextB b3))
            else Inr (None, h1, q)))"

definition try_dequeue :: "'a heap \<Rightarrow> rwq \<Rightarrow> ('a option, 'a) qres" where
  "try_dequeue = with_dequeuing try_dequeue_body"

subsection \<open>pop\<close>

definition pop_front :: "'a heap \<Rightarrow> rwq \<Rightarrow> addr \<Rightarrow> size_t \<Rightarrow> (bool, 'a) qres" where
  "pop_front h q fb blockFront =
     bindE (get_block h fb) (\<lambda>b.
     bindE (destroy_at b blockFront) (\<lambda>b'.
     Inr (True, h(fb \<mapsto> b'\<lparr>front := advance b' blockFront\<rparr>), q)))"

definition pop_next_block :: "'a heap \<Rightarrow> rwq \<Rightarrow> addr \<Rightarrow> (bool, 'a) qres" where
  "pop_next_block h q nextBlock =
     bindE (get_block h nextBlock) (\<lambda>b0.
       let nextBlockFront = front b0;
           b1 = b0\<lparr>localTail := tail b0\<rparr>;
           nextBlockTail = localTail b1
       in bindE (assertE (nextBlockFront \<noteq> nextBlockTail)) (\<lambda>_.
          bindE (destroy_at b1 nextBlockFront) (\<lambda>b2.
          Inr (True, h(nextBlock \<mapsto> b2\<lparr>front := advance b2 nextBlockFront\<rparr>),
               q\<lparr>frontBlock := nextBlock\<rparr>))))"

definition pop_body :: "'a heap \<Rightarrow> rwq \<Rightarrow> (bool, 'a) qres" where
  "pop_body h q =
     (let fb = frontBlock q
      in bindE (get_block h fb) (\<lambda>b0.
         let blockFront = front b0;
             b1 = (if blockFront \<noteq> localTail b0 then b0 else b0\<lparr>localTail := tail b0\<rparr>);
             h1 = h(fb \<mapsto> b1)
         in if blockFront \<noteq> localTail b0 \<or> blockFront \<noteq> localTail b1
            then pop_front h1 q fb blockFront
            else if fb \<noteq> tailBlock q
            then bindE (get_block h1 fb) (\<lambda>b2.
                 let b3 = b2\<lparr>localTail := tail b2\<rparr>;
                     h2 = h1(fb \<mapsto> b3)
                 in if front b3 \<noteq> localTail b3 then pop_front h2 q fb (front b3)
                    else pop_next_block h2 q (nextB b3))
            else Inr (False, h1, q)))"

definition pop :: "'a heap \<Rightarrow> rwq \<Rightarrow> (bool, 'a) qres" where
  "pop = with_dequeuing pop_body"

subsection \<open>peek\<close>

text \<open>
  \<^verbatim>\<open>peek\<close> returns the address of an element, \<^verbatim>\<open>data + index * sizeof(T)\<close> of some block; here
  the block and the index. \<open>deref\<close> reads the object such a pointer designates.
\<close>

type_synonym elem_ptr = "addr \<times> size_t"

definition deref :: "'a heap \<Rightarrow> elem_ptr \<Rightarrow> 'a res" where
  "deref h p = bindE (get_block h (fst p)) (\<lambda>b. bindE (move_out b (snd p)) (\<lambda>(v, _). Inr v))"

definition peek_body :: "'a heap \<Rightarrow> rwq \<Rightarrow> (elem_ptr option, 'a) qres" where
  "peek_body h q =
     (let fb = frontBlock q
      in bindE (get_block h fb) (\<lambda>b0.
         let blockFront = front b0;
             b1 = (if blockFront \<noteq> localTail b0 then b0 else b0\<lparr>localTail := tail b0\<rparr>);
             h1 = h(fb \<mapsto> b1)
         in if blockFront \<noteq> localTail b0 \<or> blockFront \<noteq> localTail b1
            then Inr (Some (fb, blockFront), h1, q)
            else if fb \<noteq> tailBlock q
            then bindE (get_block h1 fb) (\<lambda>b2.
                 let b3 = b2\<lparr>localTail := tail b2\<rparr>;
                     h2 = h1(fb \<mapsto> b3)
                 in if front b3 \<noteq> localTail b3 then Inr (Some (fb, front b3), h2, q)
                    else bindE (get_block h2 (nextB b3)) (\<lambda>nb.
                         bindE (assertE (front nb \<noteq> tail nb)) (\<lambda>_.
                         Inr (Some (nextB b3, front nb), h2, q))))
            else Inr (None, h1, q)))"

definition peek :: "'a heap \<Rightarrow> rwq \<Rightarrow> (elem_ptr option, 'a) qres" where
  "peek = with_dequeuing peek_body"

subsection \<open>size_approx\<close>

partial_function (option) size_loop ::
  "'a heap \<Rightarrow> addr \<Rightarrow> addr \<Rightarrow> size_t \<Rightarrow> size_t res option" where
  "size_loop h fb block result =
     (case get_block h block of
        Inl e \<Rightarrow> Some (Inl e)
      | Inr b \<Rightarrow>
          let result' = result + ((tail b - front b) AND sizeMask b);
              block' = nextB b
          in if block' \<noteq> fb then size_loop h fb block' result' else Some (Inr result'))"

definition size_approx :: "'a heap \<Rightarrow> rwq \<Rightarrow> size_t res option" where
  "size_approx h q = size_loop h (frontBlock q) (frontBlock q) 0"

end
