(* ===== verification/Rwq_Refine.thy ===== *)
theory Rwq_Refine
  imports Rwq_Queue
begin

unbundle bit_operations_syntax

text \<open>
  The invariant of \<^verbatim>\<open>ReaderWriterQueue\<close> and the refinement of its operations: the blocks form
  a circular linked list, the blocks from \<^verbatim>\<open>frontBlock\<close> to \<^verbatim>\<open>tailBlock\<close> hold the queue, the
  others are empty; every operation preserves this and acts on the concatenated contents as
  the operation on lists it stands for, without a failed assertion, a bad pointer or the use
  of a slot that holds no object.
\<close>

subsection \<open>Rings of blocks\<close>

definition node :: "'a heap \<Rightarrow> addr list \<Rightarrow> 'a list list \<Rightarrow> nat \<Rightarrow> bool" where
  "node h bs vss i \<longleftrightarrow>
     (\<exists>b. h (bs ! i) = Some b \<and> block_rep b (vss ! i) \<and> nextB b = bs ! (Suc i mod length bs))"

definition ring_rep :: "'a heap \<Rightarrow> addr list \<Rightarrow> 'a list list \<Rightarrow> bool" where
  "ring_rep h bs vss \<longleftrightarrow>
     bs \<noteq> [] \<and> distinct bs \<and> length vss = length bs \<and> (\<forall>i < length bs. node h bs vss i)"

abbreviation blk :: "'a heap \<Rightarrow> addr list \<Rightarrow> nat \<Rightarrow> 'a Block" where
  "blk h bs i \<equiv> the (h (bs ! i))"

lemma ring_rep_blk:
  assumes "ring_rep h bs vss" "i < length bs"
  shows "h (bs ! i) = Some (blk h bs i)" "block_rep (blk h bs i) (vss ! i)"
    "nextB (blk h bs i) = bs ! (Suc i mod length bs)"
  using assms by (auto simp: ring_rep_def node_def)

lemma ring_rep_length: "ring_rep h bs vss \<Longrightarrow> length vss = length bs"
  by (simp add: ring_rep_def)

lemma ring_rep_get [simp]:
  "ring_rep h bs vss \<Longrightarrow> i < length bs \<Longrightarrow> get_block h (bs ! i) = Inr (blk h bs i)"
  by (drule (1) ring_rep_blk(1)) (auto simp: get_block_def split: option.split)

lemma ring_rep_upd:
  assumes r: "ring_rep h bs vss" and i: "i < length bs"
    and b: "block_rep b' vs'" "nextB b' = nextB (blk h bs i)"
  shows "ring_rep (h(bs ! i \<mapsto> b')) bs (vss[i := vs'])"
  unfolding ring_rep_def
proof (intro conjI allI impI)
  fix j assume j: "j < length bs"
  show "node (h(bs ! i \<mapsto> b')) bs (vss[i := vs']) j"
  proof (cases "j = i")
    case True
    then show ?thesis using b ring_rep_blk(3)[OF r i] i ring_rep_length[OF r] by (simp add: node_def)
  next
    case False
    then have "bs ! j \<noteq> bs ! i" using r i j by (simp add: ring_rep_def nth_eq_iff_index_eq)
    then show ?thesis using r j False by (simp add: ring_rep_def node_def)
  qed
qed (use r in \<open>auto simp: ring_rep_def\<close>)

lemma ring_rep_upd_same:
  assumes "ring_rep h bs vss" "i < length bs" "block_rep b' (vss ! i)" "nextB b' = nextB (blk h bs i)"
  shows "ring_rep (h(bs ! i \<mapsto> b')) bs vss"
  using ring_rep_upd[OF assms] by simp

lemma ring_rep_rotate1:
  assumes r: "ring_rep h bs vss"
  shows "ring_rep h (rotate1 bs) (rotate1 vss)"
  unfolding ring_rep_def
proof (intro conjI allI impI)
  fix i assume "i < length (rotate1 bs)"
  then have i: "i < length bs" by simp
  then have si: "Suc i mod length bs < length bs" by (intro mod_less_divisor) linarith
  have "node h bs vss (Suc i mod length bs)" using r si by (simp add: ring_rep_def)
  then show "node h (rotate1 bs) (rotate1 vss) i"
    using i si ring_rep_length[OF r] by (simp add: node_def nth_rotate1 mod_simps)
qed (use r in \<open>auto simp: ring_rep_def\<close>)

lemma ring_rep_append:
  assumes r: "ring_rep h bs vss" and fresh: "h a = None" and k: "Suc k = length bs"
    and nb: "block_rep nb vs" "nextB nb = bs ! 0"
  shows "ring_rep (h(a \<mapsto> nb, bs ! k \<mapsto> (blk h bs k)\<lparr>nextB := a\<rparr>)) (bs @ [a]) (vss @ [vs])"
    (is "ring_rep ?h ?bs ?vss")
  unfolding ring_rep_def
proof (intro conjI allI impI)
  have na: "a \<noteq> bs ! i" if "i < length bs" for i using ring_rep_blk(1)[OF r that] fresh by auto
  then have nin: "a \<notin> set bs" by (metis in_set_conv_nth)
  then show "distinct ?bs" using r by (simp add: ring_rep_def)
  note len = ring_rep_length[OF r]
  fix i assume i: "i < length ?bs"
  show "node ?h ?bs ?vss i"
  proof (cases "i = length bs")
    case True
    have "?h a = Some nb" using na[of k] k by simp
    moreover have "bs \<noteq> []" using r by (simp add: ring_rep_def)
    ultimately show ?thesis using True nb len by (simp add: node_def nth_append)
  next
    case False
    then have i': "i < length bs" using i by simp
    show ?thesis
    proof (cases "i = k")
      case True
      then show ?thesis using ring_rep_blk(2)[OF r i'] k len block_rep_next i'
        by (auto simp: node_def nth_append)
    next
      case False
      then have ne: "bs ! i \<noteq> bs ! k" using r i' k by (simp add: ring_rep_def nth_eq_iff_index_eq)
      have "Suc i < length bs" using False i' k by simp
      then show ?thesis using ne na[OF i'] ring_rep_blk[OF r i'] i' len
        by (auto simp: node_def nth_append)
    qed
  qed
qed (use r in \<open>auto simp: ring_rep_def\<close>)

subsection \<open>The queue\<close>

definition part_ok :: "'a heap \<Rightarrow> addr list \<Rightarrow> 'a list list \<Rightarrow> nat \<Rightarrow> bool" where
  "part_ok h bs vss k \<longleftrightarrow> k < length bs \<and>
     (\<forall>i. 0 < i \<and> i < k \<longrightarrow> Suc (length (vss ! i)) = cap (blk h bs i)) \<and>
     (0 < k \<longrightarrow> vss ! k \<noteq> []) \<and> (\<forall>i. k < i \<and> i < length bs \<longrightarrow> vss ! i = [])"

definition block_limit :: "'a env \<Rightarrow> nat" where
  "block_limit env = max (2 * unat (max_block env)) 32"

definition size_ok :: "'a env \<Rightarrow> size_t \<Rightarrow> bool" where
  "size_ok env s \<longleftrightarrow> (\<exists>e. 0 < e \<and> e < 64 \<and> s = 2 ^ e \<and> 2 ^ e \<le> block_limit env)"

definition env_ok :: "'a env \<Rightarrow> bool" where
  "env_ok env \<longleftrightarrow> malloc_ok (ly env) (mallocf env) \<and> fits (ly env) (block_limit env) \<and>
     (\<exists>m. 0 < m \<and> m < 62 \<and> max_block env = 2 ^ m)"

definition queue_core :: "'a env \<Rightarrow> 'a heap \<Rightarrow> rwq \<Rightarrow> addr list \<Rightarrow> 'a list list \<Rightarrow> nat \<Rightarrow> bool" where
  "queue_core env h q bs vss k \<longleftrightarrow> ring_rep h bs vss \<and> heap_ok (ly env) h \<and> part_ok h bs vss k \<and>
     frontBlock q = bs ! 0 \<and> tailBlock q = bs ! k \<and> size_ok env (largestBlockSize q)"

definition queue_at :: "'a env \<Rightarrow> 'a heap \<Rightarrow> rwq \<Rightarrow> addr list \<Rightarrow> 'a list \<Rightarrow> bool" where
  "queue_at env h q bs vs \<longleftrightarrow> \<not> enqueuing q \<and> \<not> dequeuing q \<and>
     (\<exists>vss k. queue_core env h q bs vss k \<and> vs = concat vss)"

text \<open>Blocks outside the ring are left alone, blocks of the ring keep their capacity.\<close>

definition frame :: "addr list \<Rightarrow> 'a heap \<Rightarrow> 'a heap \<Rightarrow> bool" where
  "frame bs h h' \<longleftrightarrow> (\<forall>p b. h p = Some b \<longrightarrow>
     (\<exists>b'. h' p = Some b' \<and> cap b' = cap b \<and> (p \<notin> set bs \<longrightarrow> b' = b)))"

lemma frame_upd:
  "ring_rep h bs vss \<Longrightarrow> i < length bs \<Longrightarrow> cap b = cap (blk h bs i) \<Longrightarrow> frame bs h (h(bs ! i \<mapsto> b))"
  by (auto simp: frame_def)

lemma frame_refl: "frame bs h h"
  by (simp add: frame_def)

lemma frame_trans: "frame bs h h' \<Longrightarrow> frame bs h' h'' \<Longrightarrow> frame bs h h''"
  unfolding frame_def by metis

lemma concat_update_last:
  assumes "k < length vss" "\<And>i. k < i \<Longrightarrow> i < length vss \<Longrightarrow> vss ! i = []"
  shows "concat (vss[k := (vss ! k) @ xs]) = concat vss @ xs"
proof -
  have "concat (drop (Suc k) vss) = []"
    using assms(2) by (auto simp: in_set_conv_nth)
  then have "concat (vss[k := (vss ! k) @ xs]) = concat (take k vss @ vss ! k # drop (Suc k) vss) @ xs"
    using assms(1) by (simp add: upd_conv_take_nth_drop del: concat_eq_Nil_conv)
  then show ?thesis using id_take_nth_drop[OF assms(1)] by simp
qed

lemma heap_ok_upd:
  assumes "heap_ok L h" "h p = Some b" "rawThis b' = rawThis b" "sizeMask b' = sizeMask b"
  shows "heap_ok L (h(p \<mapsto> b'))"
proof -
  have a: "allocation L b' = allocation L b" using assms(3,4) by (simp add: allocation_def)
  have old: "\<exists>c0. h x = Some c0 \<and> allocation L c = allocation L c0" if "(h(p \<mapsto> b')) x = Some c" for x c
    using that assms(2) a by (auto split: if_splits)
  show ?thesis unfolding heap_ok_def
  proof (intro conjI allI impI)
    fix x c x' c' assume e: "(h(p \<mapsto> b')) x = Some c \<and> (h(p \<mapsto> b')) x' = Some c' \<and> x \<noteq> x'"
    then obtain c0 c0' where "h x = Some c0" "allocation L c = allocation L c0"
      "h x' = Some c0'" "allocation L c' = allocation L c0'" using old by meson
    then show "allocation L c \<inter> allocation L c' = {}" using assms(1) e unfolding heap_ok_def by metis
  qed (use old assms(1) in \<open>fastforce simp: heap_ok_def\<close>)+
qed

text \<open>One block of the ring is replaced by a block with the same identity.\<close>

lemma queue_core_upd:
  assumes c: "queue_core env h q bs vss k" and i: "i < length bs"
    and b': "block_rep b' vs'" "nextB b' = nextB (blk h bs i)" "rawThis b' = rawThis (blk h bs i)"
      "sizeMask b' = sizeMask (blk h bs i)" "cap b' = cap (blk h bs i)"
    and p: "part_ok h bs (vss[i := vs']) k'"
  shows "queue_core env (h(bs ! i \<mapsto> b')) (q\<lparr>tailBlock := bs ! k'\<rparr>) bs (vss[i := vs']) k'"
proof -
  have r: "ring_rep h bs vss" and hk: "heap_ok (ly env) h" using c by (auto simp: queue_core_def)
  have d: "distinct bs" using r by (simp add: ring_rep_def)
  have caps: "cap (blk (h(bs ! i \<mapsto> b')) bs j) = cap (blk h bs j)" for j
    using b'(5) by auto
  have "part_ok (h(bs ! i \<mapsto> b')) bs (vss[i := vs']) k'" using p unfolding part_ok_def caps .
  then show ?thesis
    using c ring_rep_upd[OF r i b'(1,2)] heap_ok_upd[OF hk ring_rep_blk(1)[OF r i] b'(3,4)]
    by (simp add: queue_core_def)
qed

lemma part_ok_blocks: "queue_core env h q bs vss k \<Longrightarrow> part_ok h bs vss k \<and> k < length bs \<and> length vss = length bs"
  by (auto simp: queue_core_def part_ok_def ring_rep_def)

lemma dom_upd_block: "ring_rep h bs vss \<Longrightarrow> i < length bs \<Longrightarrow> dom (h(bs ! i \<mapsto> b)) = dom h"
  by (drule (1) ring_rep_blk(1)) (simp add: insert_absorb domI)

subsection \<open>Enqueueing\<close>

text \<open>The size of the next block, and the allocator refusing a block of some size.\<close>

definition next_size :: "'a env \<Rightarrow> rwq \<Rightarrow> size_t" where
  "next_size env q = (if max_block env \<le> largestBlockSize q then largestBlockSize q else largestBlockSize q * 2)"

definition alloc_fails :: "'a env \<Rightarrow> size_t \<Rightarrow> 'a heap \<Rightarrow> bool" where
  "alloc_fails env sz h \<longleftrightarrow> mallocf env h (block_bytes (ly env) sz) = nullptr"

text \<open>The outcome of one enqueue, for either allocation mode.\<close>

definition enqueued :: "'a env \<Rightarrow> AllocationMode \<Rightarrow> 'a \<Rightarrow> 'a heap \<Rightarrow> rwq \<Rightarrow> addr list \<Rightarrow> 'a list list \<Rightarrow> nat \<Rightarrow>
    bool \<Rightarrow> 'a heap \<Rightarrow> rwq \<Rightarrow> addr list \<Rightarrow> 'a list list \<Rightarrow> nat \<Rightarrow> bool" where
  "enqueued env m v h q bs vss k ok h' q' bs' vss' k' \<longleftrightarrow> queue_core env h' q' bs' vss' k' \<and>
     concat vss' = (if ok then concat vss @ [v] else concat vss) \<and>
     frame bs h h' \<and> set bs \<subseteq> set bs' \<and> (\<forall>p \<in> set bs' - set bs. h p = None) \<and>
     enqueuing q' = enqueuing q \<and> dequeuing q' = dequeuing q \<and>
     (m = CannotAlloc \<longrightarrow> bs' = bs \<and> dom h' = dom h) \<and>
     (\<not> ok \<longrightarrow> Suc k = length bs \<and> Suc (length (vss ! k)) = cap (blk h bs k) \<and>
        (m = CanAlloc \<longrightarrow> alloc_fails env (next_size env q) h'))"

text \<open>Room in the tail block.\<close>

lemma enqueue_tail_block:
  assumes c: "queue_core env h q bs vss k" and b: "block_rep b (vss ! k)"
    "nextB b = nextB (blk h bs k)" "rawThis b = rawThis (blk h bs k)"
    "sizeMask b = sizeMask (blk h bs k)" "cap b = cap (blk h bs k)"
    and ne: "advance b (tail b) \<noteq> localFront b"
  shows "\<exists>b'. construct_at b (tail b) v = Inr b' \<and>
    queue_core env (h(bs ! k \<mapsto> b'\<lparr>tail := advance b (tail b)\<rparr>)) q bs (vss[k := vss ! k @ [v]]) k \<and>
    concat (vss[k := vss ! k @ [v]]) = concat vss @ [v] \<and> cap b' = cap (blk h bs k)"
proof -
  have p: "part_ok h bs vss k" and k: "k < length bs" "length vss = length bs" using part_ok_blocks[OF c] by auto
  obtain b' where b': "construct_at b (tail b) v = Inr b'" "block_rep (b'\<lparr>tail := advance b (tail b)\<rparr>) (vss ! k @ [v])"
    "nextB b' = nextB b" "rawThis b' = rawThis b" "sizeMask b' = sizeMask b" "cap b' = cap b"
    using block_rep_push[OF b(1) ne] by blast
  have "part_ok h bs (vss[k := vss ! k @ [v]]) k" using p k by (auto simp: part_ok_def nth_list_update)
  from queue_core_upd[OF c k(1) b'(2) _ _ _ _ this] b b'
  have "queue_core env (h(bs ! k \<mapsto> b'\<lparr>tail := advance b (tail b)\<rparr>)) (q\<lparr>tailBlock := bs ! k\<rparr>) bs (vss[k := vss ! k @ [v]]) k"
    by simp
  moreover have "q\<lparr>tailBlock := bs ! k\<rparr> = q" using c by (simp add: queue_core_def)
  moreover have "concat (vss[k := vss ! k @ [v]]) = concat vss @ [v]"
    using concat_update_last[of k vss "[v]"] p k by (simp add: part_ok_def)
  ultimately show ?thesis using b'(1,6) b(5) by auto
qed

text \<open>The block after the tail block is not the front block: it is empty and takes the element.\<close>

lemma enqueue_next_block_ok:
  assumes c: "queue_core env h q bs vss k" and full: "Suc (length (vss ! k)) = cap (blk h bs k)"
    and k: "Suc k < length bs"
  shows "\<exists>h'. enqueue_next_block v h q (bs ! Suc k) = Inr (True, h', q\<lparr>tailBlock := bs ! Suc k\<rparr>) \<and>
    enqueued env m v h q bs vss k True h' (q\<lparr>tailBlock := bs ! Suc k\<rparr>) bs (vss[Suc k := [v]]) (Suc k)"
proof -
  let ?c = "blk h bs (Suc k)" let ?b = "?c\<lparr>localFront := front ?c\<rparr>"
  have r: "ring_rep h bs vss" using c by (simp add: queue_core_def)
  have p: "part_ok h bs vss k" and len: "length vss = length bs" using part_ok_blocks[OF c] by auto
  have e: "vss ! Suc k = []" using p k by (simp add: part_ok_def)
  have b0: "block_rep ?c []" using ring_rep_blk(2)[OF r k] e by simp
  have b: "block_rep ?b []" using block_rep_sync_front[OF b0] .
  have ft: "front ?c = tail ?c" using front_eq_tail_iff[OF b0] by simp
  have "advance ?b (tail ?b) \<noteq> front ?b"
    using advance_tail_eq_front_iff[OF b] block_shape_cap[OF block_rep_shape[OF b]] by simp
  then have ne: "advance ?b (tail ?b) \<noteq> localFront ?b" by simp
  obtain b' where b': "construct_at ?b (tail ?b) v = Inr b'" "block_rep (b'\<lparr>tail := advance ?b (tail ?b)\<rparr>) [v]"
    "nextB b' = nextB ?b" "rawThis b' = rawThis ?b" "sizeMask b' = sizeMask ?b" "cap b' = cap ?b"
    using block_rep_push[OF b ne, of v] by auto
  have adv: "advance b' (tail ?c) = advance ?b (tail ?b)" using b'(5) by (simp add: advance_def)
  have p': "part_ok h bs (vss[Suc k := [v]]) (Suc k)"
    using p k full len by (auto simp: part_ok_def nth_list_update less_Suc_eq)
  have "queue_core env (h(bs ! Suc k \<mapsto> b'\<lparr>tail := advance ?b (tail ?b)\<rparr>)) (q\<lparr>tailBlock := bs ! Suc k\<rparr>)
      bs (vss[Suc k := [v]]) (Suc k)"
    using queue_core_upd[OF c k b'(2) _ _ _ _ p'] b' by simp
  moreover have "concat (vss[Suc k := vss ! Suc k @ [v]]) = concat vss @ [v]"
    using p k len by (intro concat_update_last) (auto simp: part_ok_def)
  moreover have "enqueue_next_block v h q (bs ! Suc k) =
      Inr (True, h(bs ! Suc k \<mapsto> b'\<lparr>tail := advance ?b (tail ?b)\<rparr>), q\<lparr>tailBlock := bs ! Suc k\<rparr>)"
    using r k b'(1) ft adv by (simp add: enqueue_next_block_def Let_def)
  moreover have "frame bs h (h(bs ! Suc k \<mapsto> b'\<lparr>tail := advance ?b (tail ?b)\<rparr>))"
    by (rule frame_upd[OF r k]) (simp add: b'(6))
  ultimately show ?thesis using e dom_upd_block[OF r k] by (auto simp: enqueued_def)
qed

text \<open>A new block of the next size holds the element and follows the tail block.\<close>

lemma new_block_rep:
  assumes "0 < e" "e < 64"
  shows "\<exists>nb. construct_at (Block_ctor (2 ^ e) raw dat) 0 v = Inr nb \<and> front nb = 0 \<and>
    block_rep (nb\<lparr>localTail := 1, tail := 1, nextB := p\<rparr>) [v] \<and> rawThis nb = raw \<and>
    sizeMask nb = 2 ^ e - 1 \<and> cap nb = 2 ^ e"
proof -
  let ?b = "Block_ctor (2 ^ e) raw dat :: 'a Block"
  note rep = Block_ctor_rep[OF assms, of raw dat]
  have z: "tail ?b = 0" "front ?b = 0" "localFront ?b = 0" "localTail ?b = 0" by (simp_all add: Block_ctor_def)
  have c1: "1 < cap ?b" by (rule block_shape_cap[OF block_rep_shape[OF rep(1)]])
  then have "unat (0::size_t) < cap ?b" unfolding unat_0 by linarith
  then have "unat (advance ?b 0) = (unat (0::size_t) + 1) mod cap ?b"
    by (rule unat_advance[OF block_rep_shape[OF rep(1)]])
  then have "unat (advance ?b 0) = 1" using c1 by simp
  then have adv: "advance ?b 0 = 1" by (simp add: word_unat_eq_iff)
  then have ne: "advance ?b (tail ?b) \<noteq> localFront ?b" by (simp add: z)
  from block_rep_push[OF rep(1) this, of v] obtain nb where
    nb: "construct_at ?b 0 v = Inr nb" "block_rep (nb\<lparr>tail := 1\<rparr>) [v]" "rawThis nb = rawThis ?b"
      "sizeMask nb = sizeMask ?b" "cap nb = cap ?b" using adv by (auto simp: z)
  have "block_rep (nb\<lparr>tail := 1, localTail := 1, nextB := p\<rparr>) [v]"
    using block_rep_sync_tail[OF nb(2)] block_rep_next by fastforce
  moreover have "nb\<lparr>tail := 1, localTail := 1, nextB := p\<rparr> = nb\<lparr>localTail := 1, tail := 1, nextB := p\<rparr>" by simp
  moreover have "front nb = 0" using nb(1) z by (auto simp: construct_at_def split: if_splits)
  ultimately show ?thesis using nb rep(2) by (auto simp: Block_ctor_def)
qed

lemma next_size_ok:
  assumes "env_ok env" "size_ok env s"
  shows "size_ok env (if max_block env \<le> s then s else s * 2)"
proof (cases "max_block env \<le> s")
  case False
  obtain e where e: "0 < e" "e < 64" "s = 2 ^ e" "2 ^ e \<le> block_limit env" using assms(2) by (auto simp: size_ok_def)
  obtain m where m: "m < 62" "max_block env = 2 ^ m" using assms(1) by (auto simp: env_ok_def)
  have um: "unat (max_block env) = 2 ^ m" "unat s = 2 ^ e" using m e unat_pow2_64[of m] unat_pow2_64[of e] by auto
  then have "(2::nat) ^ e < 2 ^ m" using False by (simp add: word_le_nat_alt)
  then have "e < m" by simp
  moreover have "(2::nat) ^ Suc e \<le> 2 * 2 ^ m" using \<open>2 ^ e < 2 ^ m\<close> by simp
  then have "2 ^ Suc e \<le> block_limit env" unfolding block_limit_def um(1) by linarith
  ultimately show ?thesis using False m e by (auto simp: size_ok_def intro!: exI[of _ "Suc e"])
qed (use assms in simp)

text \<open>Linking the new block in keeps the invariant.\<close>

lemma queue_core_append:
  assumes c: "queue_core env h q bs vss k" and full: "Suc (length (vss ! k)) = cap (blk h bs k)"
    and k: "Suc k = length bs" and a: "h a = None" "a \<noteq> nullptr"
    and nb: "block_rep nb [v]" "nextB nb = nextB (blk h bs k)"
    and hk: "heap_ok (ly env) (h(a \<mapsto> nb))" and so: "size_ok env s"
  shows "queue_core env (h(a \<mapsto> nb, bs ! k \<mapsto> (blk h bs k)\<lparr>nextB := a\<rparr>))
    (q\<lparr>largestBlockSize := s, tailBlock := a\<rparr>) (bs @ [a]) (vss @ [[v]]) (length bs)"
    (is "queue_core env ?h ?q ?bs ?vss _")
proof -
  have r: "ring_rep h bs vss" and p: "part_ok h bs vss k" and fq: "frontBlock q = bs ! 0"
    and len: "length vss = length bs" and kl: "k < length bs"
    using c part_ok_blocks[OF c] by (auto simp: queue_core_def)
  have na: "a \<noteq> bs ! i" if "i < length bs" for i using ring_rep_blk(1)[OF r that] a(1) by auto
  have nx: "nextB nb = bs ! 0" using nb(2) ring_rep_blk(3)[OF r kl] k by simp
  have ring': "ring_rep ?h ?bs ?vss" by (rule ring_rep_append[OF r a(1) k nb(1) nx])
  have heap': "heap_ok (ly env) ?h"
    by (rule heap_ok_upd[OF hk, of _ "blk h bs k"]) (use na[OF kl] ring_rep_blk(1)[OF r kl] in auto)
  have blks: "cap (blk ?h ?bs i) = cap (blk h bs i)" if "i < length bs" for i
    using na[OF that] that by (auto simp: nth_append)
  have "part_ok ?h ?bs ?vss (length bs)"
    unfolding part_ok_def
  proof (intro conjI allI impI)
    fix i assume i: "0 < i \<and> i < length bs"
    show "Suc (length (?vss ! i)) = cap (blk ?h ?bs i)"
      unfolding blks[OF conjunct2[OF i]]
      using i p full k len by (cases "i = k") (auto simp: nth_append part_ok_def)
  qed (use len in \<open>auto simp: nth_append\<close>)
  then show ?thesis using ring' heap' so fq kl by (auto simp: queue_core_def nth_append)
qed

lemma enqueue_new_block_ok:
  assumes env: "env_ok env" and c: "queue_core env h q bs vss k" and full: "Suc (length (vss ! k)) = cap (blk h bs k)"
    and k: "Suc k = length bs"
  shows "\<exists>ok h' q' bs' vss' k'. enqueue_new_block env v h q = Inr (ok, h', q') \<and>
    enqueued env CanAlloc v h q bs vss k ok h' q' bs' vss' k'"
proof -
  define s where "s = (if max_block env \<le> largestBlockSize q then largestBlockSize q else largestBlockSize q * 2)"
  have r: "ring_rep h bs vss" and hk: "heap_ok (ly env) h" and tq: "tailBlock q = bs ! k" and kl: "k < length bs"
    using c part_ok_blocks[OF c] by (auto simp: queue_core_def)
  have so: "size_ok env s" using next_size_ok[OF env] c by (simp add: queue_core_def s_def)
  then obtain e where e: "0 < e" "e < 64" "s = 2 ^ e" "2 ^ e \<le> block_limit env" by (auto simp: size_ok_def)
  have fit: "fits (ly env) (unat s)" using env e unat_pow2_64[of e] fits_mono by (auto simp: env_ok_def)
  obtain a h1 where mb: "make_block (ly env) (mallocf env) h s = (a, h1)" by fastforce
  have "malloc_ok (ly env) (mallocf env)" using env by (simp add: env_ok_def)
  from make_block_cases[OF fit this hk mb] show ?thesis
  proof
    assume f: "a = nullptr \<and> h1 = h \<and> mallocf env h (block_bytes (ly env) s) = nullptr"
    then have "enqueue_new_block env v h q = Inr (False, h, q)"
      using mb by (simp add: enqueue_new_block_def Let_def s_def)
    moreover have "enqueued env CanAlloc v h q bs vss k False h q bs vss k"
      using c f full k by (auto simp: enqueued_def frame_refl alloc_fails_def next_size_def s_def)
    ultimately show ?thesis by blast
  next
    assume "\<exists>raw dat. a \<noteq> nullptr \<and> h a = None \<and> h1 = h(a \<mapsto> Block_ctor s raw dat) \<and> heap_ok (ly env) h1"
    then obtain raw dat where a: "a \<noteq> nullptr" "h a = None" "h1 = h(a \<mapsto> Block_ctor (2 ^ e) raw dat)" "heap_ok (ly env) h1"
      using e(3) by blast
    obtain nb where nb: "construct_at (Block_ctor (2 ^ e) raw dat) 0 v = Inr nb" "front nb = 0"
      "block_rep (nb\<lparr>localTail := 1, tail := 1, nextB := nextB (blk h bs k)\<rparr>) [v]" "rawThis nb = raw"
      "sizeMask nb = 2 ^ e - 1" "cap nb = 2 ^ e"
      using new_block_rep[OF e(1,2), of raw dat v] by metis
    let ?nb = "nb\<lparr>localTail := 1, tail := 1, nextB := nextB (blk h bs k)\<rparr>"
    let ?h = "h(a \<mapsto> ?nb, bs ! k \<mapsto> (blk h bs k)\<lparr>nextB := a\<rparr>)" and ?q = "q\<lparr>largestBlockSize := s, tailBlock := a\<rparr>"
    have na: "a \<noteq> bs ! k" using ring_rep_blk(1)[OF r kl] a(2) by auto
    have g: "get_block h1 (bs ! k) = Inr (blk h bs k)" "get_block h1 a = Inr (Block_ctor (2 ^ e) raw dat)"
      using na ring_rep_get[OF r kl] a(3) by (simp_all add: get_block_def)
    have run: "enqueue_new_block env v h q = Inr (True, ?h, ?q)"
      using mb a g nb(1,2) tq unfolding enqueue_new_block_def s_def by (simp add: Let_def)
    have hk': "heap_ok (ly env) (h(a \<mapsto> ?nb))"
      using heap_ok_upd[OF a(4), of a "Block_ctor (2 ^ e) raw dat" ?nb] a(3) nb by (simp add: Block_ctor_def)
    have "queue_core env ?h ?q (bs @ [a]) (vss @ [[v]]) (length bs)"
      by (rule queue_core_append[OF c full k a(2,1) nb(3) _ hk' so]) simp
    moreover have "frame bs h ?h"
      using a(2) nth_mem[OF kl] ring_rep_blk(1)[OF r kl] by (auto simp: frame_def)
    ultimately have "enqueued env CanAlloc v h q bs vss k True ?h ?q (bs @ [a]) (vss @ [[v]]) (length bs)"
      using a(2) by (auto simp: enqueued_def)
    then show ?thesis using run by blast
  qed
qed

text \<open>Refreshing a shadow copy changes nothing the invariant sees.\<close>

lemma queue_core_refresh:
  assumes c: "queue_core env h q bs vss k" and i: "i < length bs"
    and b': "block_rep b' (vss ! i)" "nextB b' = nextB (blk h bs i)" "rawThis b' = rawThis (blk h bs i)"
      "sizeMask b' = sizeMask (blk h bs i)" "cap b' = cap (blk h bs i)"
  shows "queue_core env (h(bs ! i \<mapsto> b')) q bs vss k"
proof -
  have p: "part_ok h bs (vss[i := vss ! i]) k" using part_ok_blocks[OF c] by simp
  have "q\<lparr>tailBlock := bs ! k\<rparr> = q" using c by (simp add: queue_core_def)
  then show ?thesis using queue_core_upd[OF c i b' p] by simp
qed

lemma next_is_front:
  assumes r: "ring_rep h bs vss" and k: "k < length bs"
  shows "nextB (blk h bs k) = bs ! 0 \<longleftrightarrow> Suc k = length bs"
proof (cases "Suc k = length bs")
  case True
  then show ?thesis using ring_rep_blk(3)[OF r k] by simp
next
  case False
  then have "Suc k < length bs" using k by simp
  then show ?thesis using ring_rep_blk(3)[OF r k] r by (auto simp: ring_rep_def nth_eq_iff_index_eq)
qed

lemma enqueued_tail_block:
  assumes c: "queue_core env h q bs vss k" and k: "k < length bs"
    and b': "queue_core env (h(bs ! k \<mapsto> b')) q bs vss' k" "concat vss' = concat vss @ [v]" "cap b' = cap (blk h bs k)"
  shows "enqueued env m v h q bs vss k True (h(bs ! k \<mapsto> b')) q bs vss' k"
proof -
  have r: "ring_rep h bs vss" using c by (simp add: queue_core_def)
  have "frame bs h (h(bs ! k \<mapsto> b'))" by (rule frame_upd[OF r k b'(3)])
  then show ?thesis using b' dom_upd_block[OF r k] by (simp add: enqueued_def)
qed

lemma enqueue_full_block:
  assumes env: "env_ok env" and c: "queue_core env h q bs vss k"
    and full: "Suc (length (vss ! k)) = cap (blk h bs k)" and p: "p = nextB (blk h bs k)"
  shows "\<exists>ok h' q' bs' vss' k'.
    (if p \<noteq> bs ! 0 then enqueue_next_block v h q p
     else case m of CanAlloc \<Rightarrow> enqueue_new_block env v h q | CannotAlloc \<Rightarrow> Inr (False, h, q)) = Inr (ok, h', q') \<and>
    enqueued env m v h q bs vss k ok h' q' bs' vss' k'"
proof -
  have r: "ring_rep h bs vss" and k: "k < length bs" using c part_ok_blocks[OF c] by (auto simp: queue_core_def)
  show ?thesis
  proof (cases "Suc k = length bs")
    case False
    then have k': "Suc k < length bs" using k by simp
    then have nx: "nextB (blk h bs k) = bs ! Suc k" "nextB (blk h bs k) \<noteq> bs ! 0"
      using ring_rep_blk(3)[OF r k] next_is_front[OF r k] False by auto
    from enqueue_next_block_ok[OF c full k', of v m] obtain h' where
      "enqueue_next_block v h q (bs ! Suc k) = Inr (True, h', q\<lparr>tailBlock := bs ! Suc k\<rparr>)" and
      e: "enqueued env m v h q bs vss k True h' (q\<lparr>tailBlock := bs ! Suc k\<rparr>) bs (vss[Suc k := [v]]) (Suc k)"
      by blast
    then have "(if p \<noteq> bs ! 0 then enqueue_next_block v h q p
       else case m of CanAlloc \<Rightarrow> enqueue_new_block env v h q | CannotAlloc \<Rightarrow> Inr (False, h, q)) =
       Inr (True, h', q\<lparr>tailBlock := bs ! Suc k\<rparr>)" using nx p by simp
    then show ?thesis using e by blast
  next
    case True
    then have nx: "nextB (blk h bs k) = bs ! 0" using next_is_front[OF r k] by simp
    show ?thesis
    proof (cases m)
      case CannotAlloc
      have "enqueued env m v h q bs vss k False h q bs vss k"
        using c frame_refl full True CannotAlloc by (simp add: enqueued_def frame_refl)
      then show ?thesis using nx p CannotAlloc by auto
    next
      case CanAlloc
      with enqueue_new_block_ok[OF env c full True, of v] nx p show ?thesis by auto
    qed
  qed
qed

lemma enqueued_refresh:
  assumes e: "enqueued env m v (h(bs ! k \<mapsto> b)) q bs vss k ok h' q' bs' vss' k'"
    and c: "queue_core env h q bs vss k" and b: "cap b = cap (blk h bs k)"
  shows "enqueued env m v h q bs vss k ok h' q' bs' vss' k'"
proof -
  have r: "ring_rep h bs vss" and k: "k < length bs" using c part_ok_blocks[OF c] by (auto simp: queue_core_def)
  have f: "frame bs h (h(bs ! k \<mapsto> b))" by (rule frame_upd[OF r k b])
  have d: "dom (h(bs ! k \<mapsto> b)) = dom h" by (rule dom_upd_block[OF r k])
  have n: "h p = None" if "(h(bs ! k \<mapsto> b)) p = None" for p using that by (auto split: if_splits)
  show ?thesis using e b frame_trans[OF f] d n unfolding enqueued_def by auto
qed

lemma inner_enqueue_body_ok:
  assumes env: "env_ok env" and c: "queue_core env h q bs vss k"
  shows "\<exists>ok h' q' bs' vss' k'. inner_enqueue_body env m v h q = Inr (ok, h', q') \<and>
    enqueued env m v h q bs vss k ok h' q' bs' vss' k'"
proof -
  let ?tb = "blk h bs k"
  let ?tr = "if advance ?tb (tail ?tb) \<noteq> localFront ?tb then ?tb else ?tb\<lparr>localFront := front ?tb\<rparr>"
  have r: "ring_rep h bs vss" and tq: "tailBlock q = bs ! k" and fq: "frontBlock q = bs ! 0"
    using c by (auto simp: queue_core_def)
  have k: "k < length bs" using part_ok_blocks[OF c] by simp
  have rep: "block_rep ?tb (vss ! k)" by (rule ring_rep_blk(2)[OF r k])
  have tr: "block_rep ?tr (vss ! k)" "nextB ?tr = nextB ?tb" "rawThis ?tr = rawThis ?tb"
    "sizeMask ?tr = sizeMask ?tb" "cap ?tr = cap ?tb" "tail ?tr = tail ?tb"
    using rep block_rep_sync_front[OF rep] by auto
  have adv: "advance ?tr i = advance ?tb i" for i using tr(4) by (simp add: advance_def)
  show ?thesis
  proof (cases "advance ?tb (tail ?tb) \<noteq> localFront ?tr")
    case True
    then have "advance ?tr (tail ?tr) \<noteq> localFront ?tr" by (simp only: adv tr(6) not_False_eq_True)
    from enqueue_tail_block[OF c tr(1-5) this, of v] obtain b' where
      b': "construct_at ?tr (tail ?tb) v = Inr b'"
        "queue_core env (h(bs ! k \<mapsto> b'\<lparr>tail := advance ?tb (tail ?tb)\<rparr>)) q bs (vss[k := vss ! k @ [v]]) k"
        "concat (vss[k := vss ! k @ [v]]) = concat vss @ [v]" "cap (b'\<lparr>tail := advance ?tb (tail ?tb)\<rparr>) = cap ?tb"
      unfolding adv tr(6) by auto
    have "inner_enqueue_body env m v h q = Inr (True, h(bs ! k \<mapsto> b'\<lparr>tail := advance ?tb (tail ?tb)\<rparr>), q)"
      using True b'(1) r k tq unfolding inner_enqueue_body_def by (auto simp: Let_def)
    then show ?thesis using enqueued_tail_block[OF c k b'(2,3,4)] by blast
  next
    case False
    then have eq: "advance ?tb (tail ?tb) = localFront ?tb" and trd: "?tr = ?tb\<lparr>localFront := front ?tb\<rparr>"
      by (auto split: if_splits)
    then have "advance ?tb (tail ?tb) = front ?tb" using False by auto
    then have full: "Suc (length (vss ! k)) = cap ?tb" using advance_tail_eq_front_iff[OF rep] by simp
    let ?h1 = "h(bs ! k \<mapsto> ?tb\<lparr>localFront := front ?tb\<rparr>)"
    have c1: "queue_core env ?h1 q bs vss k" using queue_core_refresh[OF c k tr(1-5)] unfolding trd .
    have "Suc (length (vss ! k)) = cap (blk ?h1 bs k)" "nextB ?tb = nextB (blk ?h1 bs k)" using full by simp_all
    from enqueue_full_block[OF env c1 this, of v m] obtain ok h' q' bs' vss' k' where
      run: "(if nextB ?tb \<noteq> bs ! 0 then enqueue_next_block v ?h1 q (nextB ?tb)
        else case m of CanAlloc \<Rightarrow> enqueue_new_block env v ?h1 q | CannotAlloc \<Rightarrow> Inr (False, ?h1, q)) = Inr (ok, h', q')"
      and e: "enqueued env m v ?h1 q bs vss k ok h' q' bs' vss' k'" by blast
    have "inner_enqueue_body env m v h q = Inr (ok, h', q')"
      using eq False r k tq fq run unfolding inner_enqueue_body_def by (auto simp: Let_def split: if_splits)
    moreover have "enqueued env m v h q bs vss k ok h' q' bs' vss' k'"
      by (rule enqueued_refresh[OF e c]) simp
    ultimately show ?thesis by blast
  qed
qed

lemma queue_core_flags:
  "queue_core env h (q\<lparr>enqueuing := x\<rparr>) bs vss k = queue_core env h q bs vss k"
  "queue_core env h (q\<lparr>dequeuing := x\<rparr>) bs vss k = queue_core env h q bs vss k"
  by (simp_all add: queue_core_def)

subsection \<open>Dequeueing\<close>

lemma concat_update_first:
  "vss \<noteq> [] \<Longrightarrow> vss ! 0 = v # vs \<Longrightarrow> concat vss = v # concat (vss[0 := vs])"
  by (cases vss) auto

lemma concat_rotate1_empty: "vss \<noteq> [] \<Longrightarrow> vss ! 0 = [] \<Longrightarrow> concat (rotate1 vss) = concat vss"
  by (cases vss) auto

lemma nth_rotate1_Suc: "Suc i < length xs \<Longrightarrow> rotate1 xs ! i = xs ! Suc i"
  by (cases xs) (auto simp: nth_append)

lemma nth_rotate1_last: "Suc i = length xs \<Longrightarrow> rotate1 xs ! i = xs ! 0"
  by (cases xs) (auto simp: nth_append)

text \<open>The front block has an element.\<close>

lemma dequeue_front_ok:
  assumes c: "queue_core env h q bs vss k" and ne: "front (blk h bs 0) \<noteq> localTail (blk h bs 0)"
  shows "\<exists>v h' vss'. dequeue_front h q (bs ! 0) (front (blk h bs 0)) = Inr (Some v, h', q) \<and>
    queue_core env h' q bs vss' k \<and> concat vss = v # concat vss' \<and> frame bs h h' \<and> dom h' = dom h"
proof -
  let ?b = "blk h bs 0"
  have r: "ring_rep h bs vss" and p: "part_ok h bs vss k" and len: "length vss = length bs"
    using c part_ok_blocks[OF c] by (auto simp: queue_core_def)
  have z: "0 < length bs" using r by (simp add: ring_rep_def)
  have rep: "block_rep ?b (vss ! 0)" by (rule ring_rep_blk(2)[OF r z])
  have "vss ! 0 \<noteq> []" by (rule front_neq_localTail[OF rep ne])
  then obtain v vs where vs: "vss ! 0 = v # vs" by (cases "vss ! 0") auto
  from block_rep_pop[OF rep[unfolded vs] ne] obtain b' where
    b': "move_out ?b (front ?b) = Inr (v, b')" "block_rep (b'\<lparr>front := advance ?b (front ?b)\<rparr>) vs"
      "nextB b' = nextB ?b" "rawThis b' = rawThis ?b" "sizeMask b' = sizeMask ?b" "cap b' = cap ?b" by blast
  let ?h = "h(bs ! 0 \<mapsto> b'\<lparr>front := advance ?b (front ?b)\<rparr>)"
  have adv: "advance b' i = advance ?b i" for i using b'(5) by (simp add: advance_def)
  have p': "part_ok h bs (vss[0 := vs]) k" using p len z by (auto simp: part_ok_def nth_list_update)
  have "q\<lparr>tailBlock := bs ! k\<rparr> = q" using c by (simp add: queue_core_def)
  then have "queue_core env ?h q bs (vss[0 := vs]) k"
    using queue_core_upd[OF c z b'(2) _ _ _ _ p'] b' by simp
  moreover have "dequeue_front h q (bs ! 0) (front ?b) = Inr (Some v, ?h, q)"
    using r z b'(1) by (simp add: dequeue_front_def adv)
  moreover have "concat vss = v # concat (vss[0 := vs])"
    using vs z len by (intro concat_update_first) auto
  moreover have "frame bs h ?h" by (rule frame_upd[OF r z]) (simp add: b'(6))
  ultimately show ?thesis using dom_upd_block[OF r z] by blast
qed

text \<open>The consumer moves on to the next block: the ring is read from there.\<close>

lemma part_ok_rotate1:
  assumes p: "part_ok h bs vss k" and k: "0 < k" and len: "length vss = length bs" and e: "vss ! 0 = []"
  shows "part_ok h (rotate1 bs) (rotate1 vss) (k - 1)"
proof -
  have nth: "rotate1 bs ! i = bs ! Suc i" "rotate1 vss ! i = vss ! Suc i" if "Suc i < length bs" for i
    using that len by (simp_all add: nth_rotate1_Suc)
  have last: "rotate1 vss ! i = []" if "Suc i = length bs" for i
    using that len e by (simp add: nth_rotate1_last)
  have kl: "k < length bs" using p by (simp add: part_ok_def)
  show ?thesis
    unfolding part_ok_def
  proof (intro conjI allI impI)
    fix i assume i: "0 < i \<and> i < k - 1"
    then have "Suc i < length bs" "Suc i < k" using kl by auto
    then show "Suc (length (rotate1 vss ! i)) = cap (blk h (rotate1 bs) i)"
      using p nth[of i] by (simp add: part_ok_def)
  next
    fix i assume i: "k - 1 < i \<and> i < length (rotate1 bs)"
    then show "rotate1 vss ! i = []"
      using p k nth[of i] last[of i] by (cases "Suc i = length bs") (auto simp: part_ok_def)
  qed (use p k kl nth[of "k - 1"] in \<open>auto simp: part_ok_def\<close>)
qed

lemma queue_core_advance:
  assumes c: "queue_core env h q bs vss k" and k: "0 < k" and e: "vss ! 0 = []"
  shows "queue_core env h (q\<lparr>frontBlock := bs ! 1\<rparr>) (rotate1 bs) (rotate1 vss) (k - 1)"
    "concat (rotate1 vss) = concat vss" "rotate1 vss ! 0 \<noteq> []" "1 < length bs"
proof -
  have r: "ring_rep h bs vss" and p: "part_ok h bs vss k" and len: "length vss = length bs" and kl: "k < length bs"
    using c part_ok_blocks[OF c] by (auto simp: queue_core_def)
  show n: "1 < length bs" using k kl by simp
  have nth: "rotate1 bs ! 0 = bs ! 1" "rotate1 bs ! (k - 1) = bs ! k" "rotate1 vss ! 0 = vss ! 1"
    using nth_rotate1_Suc[of 0 bs] nth_rotate1_Suc[of "k - 1" bs] nth_rotate1_Suc[of 0 vss] n kl k len
    by (auto simp del: One_nat_def simp add: One_nat_def[symmetric])
  then show "queue_core env h (q\<lparr>frontBlock := bs ! 1\<rparr>) (rotate1 bs) (rotate1 vss) (k - 1)"
    using c ring_rep_rotate1[OF r] part_ok_rotate1[OF p k len e] by (simp add: queue_core_def)
  show "concat (rotate1 vss) = concat vss" using concat_rotate1_empty[of vss] e len n by fastforce
  show "rotate1 vss ! 0 \<noteq> []"
  proof (cases "k = 1")
    case False
    then have "Suc (length (vss ! 1)) = cap (blk h bs 1)" using p k by (simp add: part_ok_def)
    then show ?thesis using block_shape_cap[OF block_rep_shape[OF ring_rep_blk(2)[OF r n]]] nth(3) by auto
  qed (use p nth in \<open>auto simp: part_ok_def\<close>)
qed

lemma frame_rotate1: "frame (rotate1 bs) h h' = frame bs h h'"
  by (simp add: frame_def)

lemma dequeue_next_eq:
  assumes "get_block h p = Inr b" and "front b \<noteq> tail b"
  shows "dequeue_next_block h q p =
    dequeue_front (h(p \<mapsto> b\<lparr>localTail := tail b\<rparr>)) (q\<lparr>frontBlock := p\<rparr>) p (front b)"
  using assms by (simp add: dequeue_next_block_def dequeue_front_def Let_def get_block_def split_def)

lemma dequeue_next_block_ok:
  assumes c: "queue_core env h q bs vss k" and k: "0 < k" and e: "vss ! 0 = []"
  shows "\<exists>v h' vss'. dequeue_next_block h q (bs ! 1) = Inr (Some v, h', q\<lparr>frontBlock := bs ! 1\<rparr>) \<and>
    queue_core env h' (q\<lparr>frontBlock := bs ! 1\<rparr>) (rotate1 bs) vss' (k - 1) \<and> concat vss = v # concat vss' \<and>
    frame bs h h' \<and> dom h' = dom h"
proof -
  let ?q = "q\<lparr>frontBlock := bs ! 1\<rparr>" and ?bs = "rotate1 bs" and ?b = "blk h bs 1"
  let ?h = "h(bs ! 1 \<mapsto> ?b\<lparr>localTail := tail ?b\<rparr>)"
  note adv = queue_core_advance[OF c k e]
  have r: "ring_rep h bs vss" using c by (simp add: queue_core_def)
  have r': "ring_rep h ?bs (rotate1 vss)" using adv(1) by (simp add: queue_core_def)
  have b1: "?bs ! 0 = bs ! 1" using adv(4) nth_rotate1_Suc[of 0 bs] by simp
  have z: "0 < length ?bs" using adv(4) unfolding length_rotate1 by linarith
  have rep: "block_rep ?b (rotate1 vss ! 0)" using ring_rep_blk(2)[OF r' z] b1 by simp
  have ne: "front ?b \<noteq> tail ?b" using front_eq_tail_iff[OF rep] adv(3) by simp
  have c1: "queue_core env ?h ?q ?bs (rotate1 vss) (k - 1)"
    using queue_core_refresh[OF adv(1) z, of "?b\<lparr>localTail := tail ?b\<rparr>"] block_rep_sync_tail[OF rep] b1 by simp
  have "front (blk ?h ?bs 0) \<noteq> localTail (blk ?h ?bs 0)" and fb: "front (blk ?h ?bs 0) = front ?b" using ne b1 by simp_all
  from dequeue_front_ok[OF c1 this(1)] obtain v h' vss' where
    d: "dequeue_front ?h ?q (bs ! 1) (front ?b) = Inr (Some v, h', ?q)" "queue_core env h' ?q ?bs vss' (k - 1)"
      "concat vss = v # concat vss'" "frame bs ?h h'" "dom h' = dom ?h"
    unfolding fb frame_rotate1 adv(2) unfolding b1 by blast
  have "frame bs h ?h" by (rule frame_upd[OF r adv(4)]) simp
  then have "frame bs h h'" using d(4) by (rule frame_trans)
  moreover have "dom h' = dom h" using d(5) dom_upd_block[OF r adv(4)] by simp
  moreover have "dequeue_next_block h q (bs ! 1) = Inr (Some v, h', ?q)"
    using dequeue_next_eq[OF ring_rep_get[OF r adv(4)] ne] d(1) by simp
  ultimately show ?thesis using d(2,3) by blast
qed

text \<open>The outcome of one dequeue.\<close>

definition dequeued :: "'a env \<Rightarrow> 'a heap \<Rightarrow> addr list \<Rightarrow> 'a list \<Rightarrow> 'a option \<Rightarrow> 'a heap \<Rightarrow> rwq \<Rightarrow> rwq \<Rightarrow> bool" where
  "dequeued env h bs vs res h' q q' \<longleftrightarrow>
     (\<exists>bs' vss' k'. queue_core env h' q' bs' vss' k' \<and> set bs' = set bs \<and> concat vss' = tl vs) \<and>
     res = (case vs of [] \<Rightarrow> None | v # _ \<Rightarrow> Some v) \<and> frame bs h h' \<and> dom h' = dom h \<and>
     enqueuing q' = enqueuing q \<and> dequeuing q' = dequeuing q"

lemma dequeuedI:
  assumes "queue_core env h' q' bs' vss' k'" "set bs' = set bs" "concat vss = v # concat vss'"
    "frame bs h h'" "dom h' = dom h" "enqueuing q' = enqueuing q" "dequeuing q' = dequeuing q"
  shows "dequeued env h bs (concat vss) (Some v) h' q q'"
  using assms unfolding dequeued_def by fastforce

text \<open>The four situations \<^verbatim>\<open>try_dequeue\<close>, \<^verbatim>\<open>pop\<close> and \<^verbatim>\<open>peek\<close> distinguish.\<close>

lemma front_cases:
  assumes c: "queue_core env h q bs vss k" and b: "b = blk h bs 0"
  obtains
    (fast) "front b \<noteq> localTail b"
  | (stale) "front b = localTail b" "front b \<noteq> tail b"
  | (drained) "front b = localTail b" "front b = tail b" "bs ! 0 = tailBlock q" "concat vss = []"
  | (ahead) "front b = localTail b" "front b = tail b" "bs ! 0 \<noteq> tailBlock q" "nextB b = bs ! 1"
      "0 < k" "vss ! 0 = []"
proof -
  have r: "ring_rep h bs vss" and tq: "tailBlock q = bs ! k" and p: "part_ok h bs vss k"
    and kl: "k < length bs" and len: "length vss = length bs"
    using c part_ok_blocks[OF c] by (auto simp: queue_core_def)
  have z: "0 < length bs" using kl by linarith
  have rep: "block_rep b (vss ! 0)" unfolding b by (rule ring_rep_blk(2)[OF r z])
  show thesis
  proof (cases "front b \<noteq> localTail b \<or> front b \<noteq> tail b")
    case True
    then show ?thesis using fast stale by blast
  next
    case False
    then have e: "vss ! 0 = []" using front_eq_tail_iff[OF rep] by simp
    show ?thesis
    proof (cases "k = 0")
      case True
      have "vss ! i = []" if "i < length bs" for i using that p e True by (cases i) (auto simp: part_ok_def)
      then have "concat vss = []" using len by (auto simp: in_set_conv_nth)
      then show ?thesis using drained False True tq by auto
    next
      case k: False
      then have "bs ! 0 \<noteq> bs ! k" using kl r z by (auto simp: ring_rep_def nth_eq_iff_index_eq)
      moreover have "nextB b = bs ! 1" using ring_rep_blk(3)[OF r z] k kl b by simp
      ultimately show ?thesis using ahead False k e tq by auto
    qed
  qed
qed

text \<open>The front block with its shadow tail refreshed.\<close>

lemma front_refresh:
  assumes c: "queue_core env h q bs vss k" and b: "b = blk h bs 0"
  shows "queue_core env (h(bs ! 0 \<mapsto> b\<lparr>localTail := tail b\<rparr>)) q bs vss k" "get_block h (bs ! 0) = Inr b"
    "h(bs ! 0 \<mapsto> b) = h" "frame bs h (h(bs ! 0 \<mapsto> b\<lparr>localTail := tail b\<rparr>))"
    "dom (h(bs ! 0 \<mapsto> b\<lparr>localTail := tail b\<rparr>)) = dom h"
proof -
  have r: "ring_rep h bs vss" and z: "0 < length bs" using c by (auto simp: queue_core_def ring_rep_def)
  have rep: "block_rep b (vss ! 0)" unfolding b by (rule ring_rep_blk(2)[OF r z])
  show "queue_core env (h(bs ! 0 \<mapsto> b\<lparr>localTail := tail b\<rparr>)) q bs vss k"
    by (rule queue_core_refresh[OF c z]) (simp_all add: block_rep_sync_tail[OF rep] b[symmetric])
  show "get_block h (bs ! 0) = Inr b" unfolding b by (rule ring_rep_get[OF r z])
  show "h(bs ! 0 \<mapsto> b) = h" using ring_rep_blk(1)[OF r z] b by (auto simp: fun_eq_iff)
  show "frame bs h (h(bs ! 0 \<mapsto> b\<lparr>localTail := tail b\<rparr>))" by (rule frame_upd[OF r z]) (simp add: b)
  show "dom (h(bs ! 0 \<mapsto> b\<lparr>localTail := tail b\<rparr>)) = dom h" by (rule dom_upd_block[OF r z])
qed

lemma dequeued_from_refresh:
  assumes "dequeued env h1 bs vs res h' q q'" "frame bs h h1" "dom h1 = dom h"
  shows "dequeued env h bs vs res h' q q'"
  using assms frame_trans unfolding dequeued_def by metis

lemma try_dequeue_body_ok:
  assumes c: "queue_core env h q bs vss k"
  shows "\<exists>res h' q'. try_dequeue_body h q = Inr (res, h', q') \<and> dequeued env h bs (concat vss) res h' q q'"
proof -
  define b where "b = blk h bs 0"
  let ?h1 = "h(bs ! 0 \<mapsto> b\<lparr>localTail := tail b\<rparr>)"
  have fq: "frontBlock q = bs ! 0" using c by (simp add: queue_core_def)
  note fr = front_refresh[OF c b_def]
  have from_front: "\<exists>res h' q'. dequeue_front g q (bs ! 0) (front (blk g bs 0)) = Inr (res, h', q') \<and>
      dequeued env h bs (concat vss) res h' q q'"
    if g: "queue_core env g q bs vss k" "front (blk g bs 0) \<noteq> localTail (blk g bs 0)" "frame bs h g" "dom g = dom h" for g
    using dequeue_front_ok[OF g(1,2)] dequeuedI dequeued_from_refresh[OF _ g(3,4)] by metis
  from c b_def show ?thesis
  proof (cases rule: front_cases)
    case fast
    then have "try_dequeue_body h q = dequeue_front h q (bs ! 0) (front b)"
      using fr(2,3) fq by (simp add: try_dequeue_body_def Let_def)
    then show ?thesis using from_front[OF c _ frame_refl refl] fast by (simp add: b_def)
  next
    case stale
    then have "try_dequeue_body h q = dequeue_front ?h1 q (bs ! 0) (front b)"
      using fr(2) fq by (simp add: try_dequeue_body_def Let_def)
    then show ?thesis using from_front[OF fr(1) _ fr(4,5)] stale by simp
  next
    case drained
    then have "try_dequeue_body h q = Inr (None, ?h1, q)"
      using fr(2) fq by (simp add: try_dequeue_body_def Let_def)
    moreover have "dequeued env h bs (concat vss) None ?h1 q q"
      unfolding dequeued_def drained(4) using fr drained(4) by auto
    ultimately show ?thesis by blast
  next
    case ahead
    then have run: "try_dequeue_body h q = dequeue_next_block ?h1 q (bs ! 1)"
      using fr(2) fq by (simp add: try_dequeue_body_def Let_def)
    obtain v h' vss' where n: "dequeue_next_block ?h1 q (bs ! 1) = Inr (Some v, h', q\<lparr>frontBlock := bs ! 1\<rparr>)"
      "queue_core env h' (q\<lparr>frontBlock := bs ! 1\<rparr>) (rotate1 bs) vss' (k - 1)"
      "concat vss = v # concat vss'" "frame bs ?h1 h'" "dom h' = dom ?h1"
      using dequeue_next_block_ok[OF fr(1) ahead(5,6)] by blast
    have "dequeued env ?h1 bs (concat vss) (Some v) h' q (q\<lparr>frontBlock := bs ! 1\<rparr>)"
      by (rule dequeuedI[OF n(2) _ n(3-5)]) simp_all
    then show ?thesis using run n(1) dequeued_from_refresh[OF _ fr(4,5)] by metis
  qed
qed

subsection \<open>Guaranteed room\<close>

text \<open>
  What a ring guarantees to a producer that may not allocate: the front block may be half
  read, so only the other blocks count, unless there is only one block.
\<close>

definition reserve :: "'a heap \<Rightarrow> addr list \<Rightarrow> nat \<Rightarrow> bool" where
  "reserve h bs n \<longleftrightarrow> (\<forall>p \<in> set bs. n \<le> (\<Sum>r \<in> set bs - {p}. cap (the (h r)) - 1) \<or>
     set bs = {p} \<and> n \<le> cap (the (h p)) - 1)"

lemma reserve_frame:
  assumes r: "reserve h bs n" and f: "frame bs h h'" and live: "set bs \<subseteq> dom h" and s: "set bs' = set bs"
  shows "reserve h' bs' n"
proof -
  have "cap (the (h' p)) = cap (the (h p))" if "p \<in> set bs" for p
    using that live f by (fastforce simp: frame_def)
  then show ?thesis using r unfolding reserve_def s by simp
qed

lemma ring_rep_dom: "ring_rep h bs vss \<Longrightarrow> set bs \<subseteq> dom h"
proof
  fix p assume r: "ring_rep h bs vss" and "p \<in> set bs"
  then obtain i where "i < length bs" "p = bs ! i" by (metis in_set_conv_nth)
  then show "p \<in> dom h" using ring_rep_blk(1)[OF r] by blast
qed

lemma full_ring:
  assumes c: "queue_core env h q bs vss k" and k: "Suc k = length bs"
    and full: "Suc (length (vss ! k)) = cap (blk h bs k)" and res: "reserve h bs n"
  shows "n \<le> length (concat vss)"
proof -
  have r: "ring_rep h bs vss" and p: "part_ok h bs vss k" and len: "length vss = length bs"
    using c part_ok_blocks[OF c] by (auto simp: queue_core_def)
  obtain a as where bs: "bs = a # as" using k by (cases bs) auto
  obtain w ws where vss: "vss = w # ws" using k len by (cases vss) auto
  have d: "distinct (a # as)" using r bs by (simp add: ring_rep_def)
  let ?f = "\<lambda>x. cap (the (h x)) - 1"
  show ?thesis
  proof (cases as)
    case Nil
    then show ?thesis using res bs full k vss by (auto simp: reserve_def)
  next
    case (Cons a' as')
    have "set bs - {a} = set as" "set bs \<noteq> {a}" using d bs Cons by auto
    then have "n \<le> (\<Sum>x \<in> set as. ?f x)" using res bs by (auto simp: reserve_def)
    also have "\<dots> = sum_list (map ?f as)" using d by (simp add: sum_list_distinct_conv_sum_set)
    also have "\<dots> \<le> sum_list (map length ws)"
    proof (rule sum_list_mono2, safe)
      fix i assume "i < length (map ?f as)"
      then have i: "Suc i < length bs" using bs by simp
      have "?f (bs ! Suc i) = length (vss ! Suc i)"
        using p full i k by (cases "Suc i = k") (auto simp: part_ok_def dest!: spec[of _ "Suc i"])
      then show "map ?f as ! i \<le> map length ws ! i" using i bs vss len by simp
    qed (use len bs vss in simp)
    also have "\<dots> \<le> length (concat vss)" using vss by (simp add: length_concat)
    finally show ?thesis .
  qed
qed

subsection \<open>The operations refine list operations\<close>

lemma inner_enqueue_ok:
  assumes env: "env_ok env" and q: "queue_at env h q bs vs"
  shows "\<exists>ok h' q' bs'. inner_enqueue env m v h q = Inr (ok, h', q') \<and>
    queue_at env h' q' bs' (if ok then vs @ [v] else vs) \<and> frame bs h h' \<and> set bs \<subseteq> set bs' \<and>
    (\<forall>p \<in> set bs' - set bs. h p = None) \<and> (m = CannotAlloc \<longrightarrow> bs' = bs \<and> dom h' = dom h) \<and>
    (\<not> ok \<longrightarrow> (\<forall>n. reserve h bs n \<longrightarrow> n \<le> length vs) \<and> (m = CanAlloc \<longrightarrow> alloc_fails env (next_size env q) h'))"
proof -
  obtain vss k where c: "queue_core env h q bs vss k" and vs: "vs = concat vss"
    and fl: "\<not> enqueuing q" "\<not> dequeuing q" using q by (auto simp: queue_at_def)
  have "queue_core env h (q\<lparr>enqueuing := True\<rparr>) bs vss k" using c by (simp add: queue_core_flags)
  from inner_enqueue_body_ok[OF env this, of m v] obtain ok h' q' bs' vss' k' where
    run: "inner_enqueue_body env m v h (q\<lparr>enqueuing := True\<rparr>) = Inr (ok, h', q')"
    and e: "enqueued env m v h (q\<lparr>enqueuing := True\<rparr>) bs vss k ok h' q' bs' vss' k'" by blast
  have "inner_enqueue env m v h q = Inr (ok, h', q'\<lparr>enqueuing := False\<rparr>)"
    using run fl by (simp add: inner_enqueue_def with_enqueuing_def)
  moreover have "queue_at env h' (q'\<lparr>enqueuing := False\<rparr>) bs' (if ok then vs @ [v] else vs)"
    using e fl vs by (auto simp: queue_at_def enqueued_def queue_core_flags)
  moreover have "next_size env (q\<lparr>enqueuing := True\<rparr>) = next_size env q" by (simp add: next_size_def)
  moreover have "\<not> ok \<longrightarrow> (\<forall>n. reserve h bs n \<longrightarrow> n \<le> length vs)"
    using e full_ring[OF c] unfolding vs enqueued_def by blast
  ultimately show ?thesis
    using e by (intro exI[of _ ok] exI[of _ h'] exI[of _ "q'\<lparr>enqueuing := False\<rparr>"] exI[of _ bs'])
      (simp add: enqueued_def)
qed

lemma try_dequeue_ok:
  assumes q: "queue_at env h q bs vs"
  shows "\<exists>h' q' bs'. try_dequeue h q = Inr (case vs of [] \<Rightarrow> None | v # _ \<Rightarrow> Some v, h', q') \<and>
    queue_at env h' q' bs' (tl vs) \<and> frame bs h h' \<and> set bs' = set bs \<and> dom h' = dom h"
proof -
  obtain vss k where c: "queue_core env h q bs vss k" and vs: "vs = concat vss"
    and fl: "\<not> enqueuing q" "\<not> dequeuing q" using q by (auto simp: queue_at_def)
  have "queue_core env h (q\<lparr>dequeuing := True\<rparr>) bs vss k" using c by (simp add: queue_core_flags)
  from try_dequeue_body_ok[OF this] obtain res h' q' where
    run: "try_dequeue_body h (q\<lparr>dequeuing := True\<rparr>) = Inr (res, h', q')"
    and d: "dequeued env h bs vs res h' (q\<lparr>dequeuing := True\<rparr>) q'" unfolding vs by blast
  then have "try_dequeue h q = Inr (res, h', q'\<lparr>dequeuing := False\<rparr>)"
    using fl by (simp add: try_dequeue_def with_dequeuing_def)
  moreover obtain bs' vss' k' where "queue_core env h' q' bs' vss' k'" "set bs' = set bs" "concat vss' = tl vs"
    using d by (auto simp: dequeued_def)
  then have "queue_at env h' (q'\<lparr>dequeuing := False\<rparr>) bs' (tl vs) \<and> set bs' = set bs"
    using d fl by (auto simp: queue_at_def dequeued_def queue_core_flags intro: exI[of _ vss'])
  ultimately show ?thesis using d unfolding dequeued_def by blast
qed

text \<open>\<^verbatim>\<open>pop\<close> runs exactly as \<^verbatim>\<open>try_dequeue\<close> and forgets the element.\<close>

definition forget :: "('a option, 'a) qres \<Rightarrow> (bool, 'a) qres" where
  "forget m = bindE m (\<lambda>(r, h, q). Inr (r \<noteq> None, h, q))"

lemma bindE_assoc: "bindE (bindE m f) g = bindE m (\<lambda>x. bindE (f x) g)"
  by (cases m) simp_all

lemma bindE_cong: "(\<And>x. m = Inr x \<Longrightarrow> f x = g x) \<Longrightarrow> bindE m f = bindE m g"
  by (cases m) simp_all

lemma pop_front_forget: "pop_front h q p i = forget (dequeue_front h q p i)"
  by (simp add: pop_front_def dequeue_front_def forget_def bindE_assoc destroy_at_def split_def)

lemma pop_next_forget: "pop_next_block h q p = forget (dequeue_next_block h q p)"
  by (simp add: pop_next_block_def dequeue_next_block_def forget_def bindE_assoc destroy_at_def split_def Let_def)

lemma forget_Inr: "forget (Inr (r, h, q)) = Inr (r \<noteq> None, h, q)"
  by (simp add: forget_def)

lemma pop_body_forget: "pop_body h q = forget (try_dequeue_body h q)"
proof -
  have f: "forget (bindE m g) = bindE m (\<lambda>x. forget (g x))" for m :: "'b res" and g
    by (simp add: forget_def bindE_assoc)
  show ?thesis
    by (simp add: pop_body_def try_dequeue_body_def Let_def f pop_front_forget pop_next_forget forget_Inr if_distrib[of forget] cong: if_cong)
qed

lemma pop_forget: "pop h q = forget (try_dequeue h q)"
  by (simp add: pop_def try_dequeue_def with_dequeuing_def pop_body_forget forget_def bindE_assoc split_def)

lemma pop_ok:
  assumes q: "queue_at env h q bs vs"
  shows "\<exists>h' q' bs'. pop h q = Inr (vs \<noteq> [], h', q') \<and> queue_at env h' q' bs' (tl vs) \<and> frame bs h h' \<and>
    set bs' = set bs \<and> dom h' = dom h"
proof -
  obtain h' q' bs' where
    d: "try_dequeue h q = Inr (case vs of [] \<Rightarrow> None | v # _ \<Rightarrow> Some v, h', q')"
      "queue_at env h' q' bs' (tl vs) \<and> frame bs h h' \<and> set bs' = set bs \<and> dom h' = dom h"
    using try_dequeue_ok[OF q] by blast
  have "pop h q = Inr (vs \<noteq> [], h', q')" using d(1) by (simp add: pop_forget forget_Inr split: list.splits)
  then show ?thesis using d(2) by blast
qed

subsection \<open>peek\<close>

lemma deref_front:
  assumes "block_rep b (v # vs)" "h p = Some b"
  shows "deref h (p, front b) = Inr v"
proof -
  have "unat (front b) < cap b" using assms by (simp add: block_rep_def block_shape_def)
  moreover have "slots b ! (unat (front b) mod cap b) = Some v"
    using assms by (auto simp: block_rep_def slots_ok_def dest!: spec[of _ 0])
  ultimately show ?thesis using assms(2) by (simp add: deref_def get_block_def move_out_def)
qed

lemma peek_body_ok:
  assumes c: "queue_core env h q bs vss k"
  shows "\<exists>res h'. peek_body h q = Inr (res, h', q) \<and> queue_core env h' q bs vss k \<and> frame bs h h' \<and> dom h' = dom h \<and>
    (case concat vss of [] \<Rightarrow> res = None | v # _ \<Rightarrow> (\<exists>p. res = Some p \<and> deref h' p = Inr v))"
proof -
  define b where "b = blk h bs 0"
  let ?h1 = "h(bs ! 0 \<mapsto> b\<lparr>localTail := tail b\<rparr>)"
  have r: "ring_rep h bs vss" and fq: "frontBlock q = bs ! 0" and len: "length vss = length bs" and z: "0 < length bs"
    using c part_ok_blocks[OF c] by (auto simp: queue_core_def ring_rep_def)
  have rep: "block_rep b (vss ! 0)" unfolding b_def by (rule ring_rep_blk(2)[OF r z])
  note fr = front_refresh[OF c b_def]
  have front_elem: "\<exists>v vs. concat vss = v # vs \<and> deref g (bs ! 0, front b) = Inr v"
    if ft: "front b \<noteq> tail b" and g: "g = h \<or> g = ?h1" for g
  proof -
    obtain v vs where v: "vss ! 0 = v # vs" using front_eq_tail_iff[OF rep] ft by (cases "vss ! 0") auto
    have "concat vss = v # concat (vss[0 := vs])" using v z len by (intro concat_update_first) auto
    moreover have "deref g (bs ! 0, front b) = Inr v"
      using g deref_front[of b v vs h] deref_front[of "b\<lparr>localTail := tail b\<rparr>" v vs ?h1] rep v fr(2)
        block_rep_sync_tail[OF rep] by (auto simp: get_block_def split: option.splits)
    ultimately show ?thesis by blast
  qed
  from c b_def show ?thesis
  proof (cases rule: front_cases)
    case fast
    then have "front b \<noteq> tail b" using front_neq_localTail[OF rep] front_eq_tail_iff[OF rep] by blast
    then obtain v vs where "concat vss = v # vs" "deref h (bs ! 0, front b) = Inr v" using front_elem[of h] by blast
    moreover have "peek_body h q = Inr (Some (bs ! 0, front b), h, q)"
      using fast fr(2,3) fq by (simp add: peek_body_def Let_def)
    ultimately show ?thesis using c frame_refl by auto
  next
    case stale
    then obtain v vs where "concat vss = v # vs" "deref ?h1 (bs ! 0, front b) = Inr v" using front_elem[of ?h1] by blast
    moreover have "peek_body h q = Inr (Some (bs ! 0, front b), ?h1, q)"
      using stale fr(2) fq by (simp add: peek_body_def Let_def)
    ultimately show ?thesis using fr(1,4,5) by auto
  next
    case drained
    then have "peek_body h q = Inr (None, ?h1, q)" using fr(2) fq by (simp add: peek_body_def Let_def)
    then show ?thesis using fr(1,4,5) unfolding drained(4) by auto
  next
    case ahead
    let ?c = "blk ?h1 bs 1"
    note adv = queue_core_advance[OF fr(1) ahead(5,6)]
    have r1: "ring_rep ?h1 bs vss" using fr(1) by (simp add: queue_core_def)
    have rep1: "block_rep ?c (vss ! 1)" by (rule ring_rep_blk(2)[OF r1 adv(4)])
    have e1: "rotate1 vss ! 0 = vss ! 1"
    proof -
      have "1 < length vss" using adv(4) len by linarith
      then show ?thesis by (cases vss) (auto simp: nth_append)
    qed
    obtain v vs where v1: "vss ! 1 = v # vs" using adv(3) e1 by (cases "vss ! 1") auto
    then have v: "vss ! 1 = v # vs" "rotate1 vss ! 0 = v # vs" using e1 by simp_all
    have "front ?c \<noteq> tail ?c" using front_eq_tail_iff[OF rep1] v by simp
    moreover have d: "bs ! 1 \<noteq> bs ! 0" using r adv(4) by (auto simp: ring_rep_def nth_eq_iff_index_eq)
    ultimately have "peek_body h q = Inr (Some (bs ! 1, front ?c), ?h1, q)"
      using ahead(1-4) fr(2) fq ring_rep_get[OF r1 adv(4)] by (simp add: peek_body_def Let_def)
    moreover have "deref ?h1 (bs ! 1, front ?c) = Inr v"
      by (rule deref_front[OF rep1[unfolded v(1)]]) (rule ring_rep_blk(1)[OF r1 adv(4)])
    moreover have "concat vss = v # concat ((rotate1 vss)[0 := vs])"
      unfolding adv(2)[symmetric] using v(2) z len by (intro concat_update_first) auto
    ultimately show ?thesis using fr(1,4,5) by auto
  qed
qed

lemma peek_ok:
  assumes q: "queue_at env h q bs vs"
  shows "\<exists>res h'. peek h q = Inr (res, h', q) \<and> queue_at env h' q bs vs \<and> frame bs h h' \<and> dom h' = dom h \<and>
    (case vs of [] \<Rightarrow> res = None | v # _ \<Rightarrow> (\<exists>p. res = Some p \<and> deref h' p = Inr v))"
proof -
  obtain vss k where c: "queue_core env h q bs vss k" and vs: "vs = concat vss"
    and fl: "\<not> enqueuing q" "\<not> dequeuing q" using q by (auto simp: queue_at_def)
  have "queue_core env h (q\<lparr>dequeuing := True\<rparr>) bs vss k" using c by (simp add: queue_core_flags)
  from peek_body_ok[OF this] obtain res h' where
    "peek_body h (q\<lparr>dequeuing := True\<rparr>) = Inr (res, h', q\<lparr>dequeuing := True\<rparr>)"
    and p: "queue_core env h' q bs vss k" "frame bs h h'" "dom h' = dom h"
      "case vs of [] \<Rightarrow> res = None | v # _ \<Rightarrow> (\<exists>p. res = Some p \<and> deref h' p = Inr v)"
    unfolding vs queue_core_flags by blast
  then have "peek h q = Inr (res, h', q)" using fl by (simp add: peek_def with_dequeuing_def)
  moreover have "queue_at env h' q bs vs" using p(1) fl vs by (auto simp: queue_at_def)
  ultimately show ?thesis using p by blast
qed

subsection \<open>size_approx\<close>

lemma size_loop_ring:
  assumes r: "ring_rep h bs vss" and i: "i < length bs"
  shows "size_loop h (bs ! 0) (bs ! i) acc = Some (Inr (acc + of_nat (length (concat (drop i vss)))))"
  using i
proof (induction "length bs - i" arbitrary: i acc)
  case (Suc n)
  let ?b = "blk h bs i"
  have len: "length vss = length bs" by (rule ring_rep_length[OF r])
  have u: "(tail ?b - front ?b) AND sizeMask ?b = of_nat (length (vss ! i))"
    using arg_cong[OF block_used[OF ring_rep_blk(2)[OF r Suc.prems]], of "of_nat :: nat \<Rightarrow> size_t"] by simp
  have d: "drop i vss = vss ! i # drop (Suc i) vss" using Suc.prems len by (simp add: Cons_nth_drop_Suc)
  show ?case
  proof (cases "Suc i = length bs")
    case True
    then have "nextB ?b = bs ! 0" using next_is_front[OF r Suc.prems] by simp
    then show ?thesis using r Suc.prems u d True len by (subst size_loop.simps) (simp add: Let_def)
  next
    case False
    then have i': "Suc i < length bs" using Suc.prems by simp
    then have "nextB ?b = bs ! Suc i" "bs ! Suc i \<noteq> bs ! 0"
      using ring_rep_blk(3)[OF r Suc.prems] next_is_front[OF r Suc.prems] False by auto
    then show ?thesis
      using r Suc.prems u d Suc.hyps(1)[of "Suc i"] Suc.hyps(2) i'
      by (subst size_loop.simps) (simp add: Let_def add.assoc)
  qed
qed simp

lemma size_approx_ok:
  assumes "queue_at env h q bs vs"
  shows "size_approx h q = Some (Inr (of_nat (length vs)))"
proof -
  obtain vss k where c: "queue_core env h q bs vss k" and vs: "vs = concat vss" using assms by (auto simp: queue_at_def)
  then have "ring_rep h bs vss" "frontBlock q = bs ! 0" "0 < length bs" by (auto simp: queue_core_def ring_rep_def)
  then show ?thesis using size_loop_ring[of h bs vss 0 0] vs by (simp add: size_approx_def)
qed

end
