(* ===== verification/Rwq_Life.thy ===== *)
theory Rwq_Life
  imports Rwq_Refine
begin

unbundle bit_operations_syntax

text \<open>
  Construction, move and destruction of a \<^verbatim>\<open>ReaderWriterQueue\<close>. The lemmas say that the
  constructor establishes the invariant with an empty queue and room for \<^verbatim>\<open>maxSize\<close> elements,
  that the two move operations transfer and exchange the contents, and that the destructor
  returns, destroys every remaining element once, in order, and frees exactly the blocks of
  the queue.
\<close>

subsection \<open>Constructor\<close>

text \<open>
  The loop over \<^verbatim>\<open>initialBlockCount\<close>; \<open>n\<close> is the number of rounds left. A thrown
  \<^verbatim>\<open>std::bad_alloc\<close> is the result \<open>None\<close>, with the heap at that moment.
\<close>

primrec ctor_loop ::
  "'a env \<Rightarrow> size_t \<Rightarrow> nat \<Rightarrow> addr \<Rightarrow> addr \<Rightarrow> 'a heap \<Rightarrow> (addr option \<times> 'a heap) res" where
  "ctor_loop env sz 0 firstBlock lastBlock h = Inr (Some firstBlock, h)"
| "ctor_loop env sz (Suc n) firstBlock lastBlock h =
     (let (block, h1) = make_block (ly env) (mallocf env) h sz
      in if block = nullptr then Inr (None, h1)
         else bindE (if firstBlock = nullptr then Inr (block, h1)
                     else bindE (get_block h1 lastBlock) (\<lambda>l.
                          Inr (firstBlock, h1(lastBlock \<mapsto> l\<lparr>nextB := block\<rparr>)))) (\<lambda>(first', h2).
              bindE (get_block h2 block) (\<lambda>b.
              ctor_loop env sz n first' block (h2(block \<mapsto> b\<lparr>nextB := first'\<rparr>)))))"

definition initialBlockCount :: "'a env \<Rightarrow> size_t \<Rightarrow> size_t" where
  "initialBlockCount env maxSize = (maxSize + max_block env * 2 - 3) div (max_block env - 1)"

definition ctor_single :: "'a env \<Rightarrow> size_t \<Rightarrow> 'a heap \<Rightarrow> (addr option \<times> 'a heap) res" where
  "ctor_single env sz h =
     (let (firstBlock, h1) = make_block (ly env) (mallocf env) h sz
      in if firstBlock = nullptr then Inr (None, h1)
         else bindE (get_block h1 firstBlock) (\<lambda>b.
              Inr (Some firstBlock, h1(firstBlock \<mapsto> b\<lparr>nextB := firstBlock\<rparr>))))"

definition ReaderWriterQueue_ctor :: "'a env \<Rightarrow> size_t \<Rightarrow> 'a heap \<Rightarrow> (rwq option \<times> 'a heap) res" where
  "ReaderWriterQueue_ctor env maxSize h =
     bindE (assertE (0 < maxSize)) (\<lambda>_.
     bindE (assertE (max_block env = ceilToPow2 (max_block env))) (\<lambda>_.
     bindE (assertE (2 \<le> max_block env)) (\<lambda>_.
       let sz = ceilToPow2 (maxSize + 1);
           multi = (max_block env * 2 < sz);
           largest = (if multi then max_block env else sz)
       in bindE (if multi
                 then ctor_loop env largest (unat (initialBlockCount env maxSize)) nullptr nullptr h
                 else ctor_single env largest h) (\<lambda>(r, h').
          Inr (map_option (\<lambda>firstBlock. \<lparr>frontBlock = firstBlock, tailBlock = firstBlock,
                 largestBlockSize = largest, enqueuing = False, dequeuing = False\<rparr>) r, h')))))"

subsection \<open>Moves\<close>

text \<open>The result is the new queue (\<open>None\<close> when \<^verbatim>\<open>bad_alloc\<close> is thrown), the heap, and \<^verbatim>\<open>other\<close>.\<close>

definition move_ctor :: "'a env \<Rightarrow> rwq \<Rightarrow> 'a heap \<Rightarrow> (rwq option \<times> 'a heap \<times> rwq) res" where
  "move_ctor env other h =
     (let this = \<lparr>frontBlock = frontBlock other, tailBlock = tailBlock other,
                  largestBlockSize = largestBlockSize other, enqueuing = False, dequeuing = False\<rparr>;
          other1 = other\<lparr>largestBlockSize := 32\<rparr>;
          (b, h1) = make_block (ly env) (mallocf env) h (largestBlockSize other1)
      in if b = nullptr then Inr (None, h1, other1)
         else bindE (get_block h1 b) (\<lambda>blk.
              Inr (Some this, h1(b \<mapsto> blk\<lparr>nextB := b\<rparr>),
                   other1\<lparr>frontBlock := b, tailBlock := b\<rparr>)))"

definition move_assign :: "rwq \<Rightarrow> rwq \<Rightarrow> rwq \<times> rwq" where
  "move_assign this other =
     (let b = frontBlock this;
          this1 = this\<lparr>frontBlock := frontBlock other\<rparr>;
          other1 = other\<lparr>frontBlock := b\<rparr>;
          b' = tailBlock this1;
          this2 = this1\<lparr>tailBlock := tailBlock other1\<rparr>;
          other2 = other1\<lparr>tailBlock := b'\<rparr>
      in (this2\<lparr>largestBlockSize := largestBlockSize other2\<rparr>,
          other2\<lparr>largestBlockSize := largestBlockSize this2\<rparr>))"

subsection \<open>Destructor\<close>

text \<open>
  The inner loop destroys the objects from \<^verbatim>\<open>front\<close> to \<^verbatim>\<open>tail\<close>; the log lists them in order.
  \<^verbatim>\<open>std::free\<close> releases whatever was placed in the allocation that starts at the pointer.
\<close>

partial_function (option) destroy_loop ::
  "'a Block \<Rightarrow> size_t \<Rightarrow> size_t \<Rightarrow> 'a list \<Rightarrow> ('a list \<times> 'a Block) res option" where
  "destroy_loop b i blockTail log =
     (if i = blockTail then Some (Inr (log, b))
      else case move_out b i of
             Inl e \<Rightarrow> Some (Inl e)
           | Inr (v, b') \<Rightarrow> destroy_loop b' (advance b' i) blockTail (log @ [v]))"

definition free_raw :: "'a heap \<Rightarrow> addr \<Rightarrow> 'a heap" where
  "free_raw h raw = (\<lambda>p. case h p of None \<Rightarrow> None | Some b \<Rightarrow> if rawThis b = raw then None else Some b)"

partial_function (option) dtor_loop ::
  "addr \<Rightarrow> addr \<Rightarrow> 'a list \<Rightarrow> 'a heap \<Rightarrow> ('a list \<times> 'a heap) res option" where
  "dtor_loop fb block log h =
     (case get_block h block of
        Inl e \<Rightarrow> Some (Inl e)
      | Inr b \<Rightarrow>
          let nextBlock = nextB b
          in Option.bind (destroy_loop b (front b) (tail b) log) (\<lambda>r.
             case r of
               Inl e \<Rightarrow> Some (Inl e)
             | Inr (log', b') \<Rightarrow>
                 let rawBlock = rawThis b';
                     h' = free_raw (h(block \<mapsto> b')) rawBlock
                 in if nextBlock \<noteq> fb then dtor_loop fb nextBlock log' h' else Some (Inr (log', h'))))"

definition ReaderWriterQueue_dtor :: "rwq \<Rightarrow> 'a heap \<Rightarrow> ('a list \<times> 'a heap) res option" where
  "ReaderWriterQueue_dtor q h = dtor_loop (frontBlock q) (frontBlock q) [] h"


subsection \<open>The destructor frees everything once\<close>

lemma move_out_shape:
  assumes "move_out b i = Inr (v, b')"
  shows "b' = b\<lparr>slots := (slots b)[unat i := None]\<rparr>" "unat i < cap b" "slots b ! unat i = Some v"
  using assms by (auto simp: move_out_def split: if_splits option.splits)

lemma destroy_loop_run:
  assumes "block_shape b" "unat i < cap b" "length vs < cap b"
    "unat t = (unat i + length vs) mod cap b"
    "\<forall>j < length vs. slots b ! ((unat i + j) mod cap b) = Some (vs ! j)"
  shows "\<exists>b'. destroy_loop b i t log = Some (Inr (log @ vs, b')) \<and> rawThis b' = rawThis b"
  using assms
proof (induction vs arbitrary: b i log)
  case Nil
  then have "i = t" by (simp add: word_unat_eq_iff)
  then show ?case by (simp add: destroy_loop.simps)
next
  case (Cons v vs)
  let ?b = "b\<lparr>slots := (slots b)[unat i := None]\<rparr>"
  have ne: "i \<noteq> t"
    using Cons.prems mod_shift_self_iff[of "length (v # vs)" "cap b" "unat i"] by (auto simp: word_unat_eq_iff)
  have "slots b ! unat i = Some v" using Cons.prems(2,5) by (auto dest: spec[of _ 0])
  then have mo: "move_out b i = Inr (v, ?b)" using Cons.prems(2) by (simp add: move_out_def)
  have sh: "block_shape ?b" using Cons.prems(1) by (simp add: block_shape_def)
  have adv: "advance ?b i = advance b i" by (simp add: advance_def)
  have ui: "unat (advance b i) = (unat i + 1) mod cap b" by (rule unat_advance[OF Cons.prems(1,2)])
  have ix: "(unat (advance b i) + j) mod cap b = (unat i + Suc j) mod cap b" for j
    unfolding ui by (simp add: mod_simps)
  have "\<exists>b'. destroy_loop ?b (advance b i) t (log @ [v]) = Some (Inr ((log @ [v]) @ vs, b')) \<and> rawThis b' = rawThis ?b"
  proof (rule Cons.IH[OF sh])
    show "unat (advance b i) < cap ?b" using advance_less[OF Cons.prems(1,2)] by simp
    show "length vs < cap ?b" using Cons.prems(3) by simp
    show "unat t = (unat (advance b i) + length vs) mod cap ?b" using Cons.prems(4) ix by simp
    show "\<forall>j < length vs. slots ?b ! ((unat (advance b i) + j) mod cap ?b) = Some (vs ! j)"
    proof (intro allI impI)
      fix j assume j: "j < length vs"
      have "(unat i + Suc j) mod cap b \<noteq> unat i"
        using mod_shift_self_iff[of "Suc j" "cap b" "unat i"] j Cons.prems(2,3) by simp
      then show "slots ?b ! ((unat (advance b i) + j) mod cap ?b) = Some (vs ! j)"
        using Cons.prems(5) j ix by (auto dest: spec[of _ "Suc j"])
    qed
  qed
  then show ?case using ne mo adv by (subst destroy_loop.simps) simp
qed

lemma destroy_loop_block:
  assumes "block_rep b vs"
  shows "\<exists>b'. destroy_loop b (front b) (tail b) log = Some (Inr (log @ vs, b')) \<and> rawThis b' = rawThis b"
  using assms by (intro destroy_loop_run) (auto simp: block_rep_def block_shape_def[of b] slots_ok_def)

lemma free_block:
  assumes hk: "heap_ok L h" and b: "h p = Some b" "rawThis b' = rawThis b"
  shows "free_raw (h(p \<mapsto> b')) (rawThis b') = h(p := None)"
  using heap_ok_rawThis[OF hk _ b(1)] b(2) by (fastforce simp: free_raw_def fun_eq_iff split: option.split)

lemma heap_ok_restrict: "heap_ok L h \<Longrightarrow> heap_ok L (h |` A)"
  unfolding heap_ok_def by (auto simp: restrict_map_def split: if_splits)

lemma dtor_loop_ring:
  assumes r: "ring_rep h bs vss" and hk: "heap_ok L h" and i: "i < length bs"
  shows "dtor_loop (bs ! 0) (bs ! i) log (h |` (- set (take i bs))) =
    Some (Inr (log @ concat (drop i vss), h |` (- set bs)))"
  using i
proof (induction "length bs - i" arbitrary: i log)
  case (Suc n)
  let ?b = "blk h bs i" and ?h = "h |` (- set (take i bs))"
  have len: "length vss = length bs" and dist: "distinct bs" using r by (auto simp: ring_rep_def)
  have nin: "bs ! i \<notin> set (take i bs)"
    using Suc.prems dist by (auto simp: in_set_conv_nth nth_eq_iff_index_eq)
  then have g: "?h (bs ! i) = Some ?b" using ring_rep_blk(1)[OF r Suc.prems] by simp
  obtain b' where d: "destroy_loop ?b (front ?b) (tail ?b) log = Some (Inr (log @ vss ! i, b'))" "rawThis b' = rawThis ?b"
    using destroy_loop_block[OF ring_rep_blk(2)[OF r Suc.prems]] by blast
  have f: "free_raw (?h(bs ! i \<mapsto> b')) (rawThis b') = h |` (- set (take (Suc i) bs))"
    unfolding free_block[OF heap_ok_restrict[OF hk] g d(2)]
    using Suc.prems by (auto simp: fun_eq_iff restrict_map_def take_Suc_conv_app_nth)
  have dr: "drop i vss = vss ! i # drop (Suc i) vss" using Suc.prems len by (simp add: Cons_nth_drop_Suc)
  have gb: "get_block ?h (bs ! i) = Inr ?b" using g by (simp add: get_block_def)
  show ?case
  proof (cases "Suc i = length bs")
    case True
    then have "nextB ?b = bs ! 0" using next_is_front[OF r Suc.prems] by simp
    then show ?thesis using gb d(1) f dr True len by (subst dtor_loop.simps) (simp add: Let_def)
  next
    case False
    then have i': "Suc i < length bs" using Suc.prems by simp
    then have "nextB ?b = bs ! Suc i" "bs ! Suc i \<noteq> bs ! 0"
      using ring_rep_blk(3)[OF r Suc.prems] next_is_front[OF r Suc.prems] False by auto
    then show ?thesis
      using gb d(1) f dr Suc.hyps(1)[of "Suc i"] Suc.hyps(2) i'
      by (subst dtor_loop.simps) (simp add: Let_def)
  qed
qed simp

lemma dtor_ok:
  assumes "queue_at env h q bs vs"
  shows "ReaderWriterQueue_dtor q h = Some (Inr (vs, h |` (- set bs)))"
proof -
  obtain vss k where c: "queue_core env h q bs vss k" and vs: "vs = concat vss" using assms by (auto simp: queue_at_def)
  then have "ring_rep h bs vss" "heap_ok (ly env) h" "frontBlock q = bs ! 0" "0 < length bs"
    by (auto simp: queue_core_def ring_rep_def)
  moreover have "h |` UNIV = h" by (simp add: restrict_map_def)
  ultimately show ?thesis
    using dtor_loop_ring[of h bs vss "ly env" 0 "[]"] vs by (simp add: ReaderWriterQueue_dtor_def)
qed

subsection \<open>The constructor establishes the invariant\<close>

text \<open>\<open>fresh_ring\<close>: a ring of empty blocks of one size, allocated since the heap \<open>h0\<close>.\<close>

definition fresh_ring :: "'a env \<Rightarrow> size_t \<Rightarrow> 'a heap \<Rightarrow> 'a heap \<Rightarrow> addr list \<Rightarrow> bool" where
  "fresh_ring env sz h0 h bs \<longleftrightarrow> ring_rep h bs (replicate (length bs) []) \<and> heap_ok (ly env) h \<and>
     (\<forall>p \<in> set bs. p \<noteq> nullptr \<and> h0 p = None \<and> cap (the (h p)) = unat sz) \<and> (\<forall>p. p \<notin> set bs \<longrightarrow> h p = h0 p)"

lemma make_block_sized:
  assumes env: "env_ok env" and hk: "heap_ok (ly env) h" and s: "size_ok env sz"
    and mb: "make_block (ly env) (mallocf env) h sz = (a, h1)"
  obtains (fail) "a = nullptr" "h1 = h" "mallocf env h (block_bytes (ly env) sz) = nullptr"
  | (ok) b where "a \<noteq> nullptr" "h a = None" "h1 = h(a \<mapsto> b)" "heap_ok (ly env) h1" "block_rep b []" "cap b = unat sz"
proof -
  obtain e where e: "0 < e" "e < 64" "sz = 2 ^ e" "2 ^ e \<le> block_limit env" using s by (auto simp: size_ok_def)
  have fit: "fits (ly env) (unat sz)" using env e unat_pow2_64[of e] fits_mono by (auto simp: env_ok_def)
  have "malloc_ok (ly env) (mallocf env)" using env by (simp add: env_ok_def)
  from make_block_cases[OF fit this hk mb] show thesis
    using fail ok Block_ctor_rep[OF e(1,2)] e(3) unat_pow2_64[OF e(2)] by metis
qed

lemma heap_ok_next:
  assumes "heap_ok L (h(a \<mapsto> b))"
  shows "heap_ok L (h(a \<mapsto> b\<lparr>nextB := p\<rparr>))"
  using heap_ok_upd[OF assms, of a b "b\<lparr>nextB := p\<rparr>"] by simp

lemma fresh_single:
  assumes "a \<noteq> nullptr" "h a = None" "h1 = h(a \<mapsto> b)" "heap_ok (ly env) h1" "block_rep b []" "cap b = unat sz"
  shows "fresh_ring env sz h (h(a \<mapsto> b\<lparr>nextB := a\<rparr>)) [a]"
  using assms heap_ok_next[of "ly env" h a b a] by (simp add: fresh_ring_def ring_rep_def node_def block_rep_next)

lemma fresh_append:
  assumes f: "fresh_ring env sz h0 h bs" and k: "Suc k = length bs"
    and a: "a \<noteq> nullptr" "h a = None" "heap_ok (ly env) (h(a \<mapsto> b))" "block_rep b []" "cap b = unat sz"
  shows "fresh_ring env sz h0 (h(a \<mapsto> b\<lparr>nextB := bs ! 0\<rparr>, bs ! k \<mapsto> (blk h bs k)\<lparr>nextB := a\<rparr>)) (bs @ [a])"
    (is "fresh_ring _ _ _ ?h _")
proof -
  have r: "ring_rep h bs (replicate (length bs) [])" using f by (simp add: fresh_ring_def)
  have kl: "k < length bs" using k by simp
  have bk: "h (bs ! k) = Some (blk h bs k)" by (rule ring_rep_blk(1)[OF r kl])
  have na: "bs ! k \<noteq> a" using bk a(2) by auto
  have nin: "a \<notin> set bs" using a(2) ring_rep_dom[OF r] by blast
  have "ring_rep ?h (bs @ [a]) (replicate (length bs) [] @ [[]])"
    using ring_rep_append[OF r a(2) k, of "b\<lparr>nextB := bs ! 0\<rparr>"] a(4) by (simp add: block_rep_next)
  then have "ring_rep ?h (bs @ [a]) (replicate (length (bs @ [a])) [])" by (simp add: replicate_append_same)
  moreover have "heap_ok (ly env) ?h"
    by (rule heap_ok_upd[OF heap_ok_next[OF a(3)], where b = "blk h bs k"]) (use bk na in auto)
  moreover have "p \<noteq> nullptr \<and> h0 p = None \<and> cap (the (?h p)) = unat sz" if "p \<in> set (bs @ [a])" for p
    using that f a nin nth_mem[OF kl] unfolding fresh_ring_def by (cases "p = a") auto
  moreover have "?h p = h0 p" if "p \<notin> set (bs @ [a])" for p
    using that f nth_mem[OF kl] by (auto simp: fresh_ring_def)
  ultimately show ?thesis unfolding fresh_ring_def by blast
qed

lemma ctor_loop_ok:
  assumes env: "env_ok env" and s: "size_ok env sz" and f: "fresh_ring env sz h0 h bs" and k: "Suc k = length bs"
  shows "\<exists>r h' bs'. ctor_loop env sz n (bs ! 0) (bs ! k) h = Inr (r, h') \<and> fresh_ring env sz h0 h' bs' \<and>
    (case r of None \<Rightarrow> length bs \<le> length bs' \<and> alloc_fails env sz h'
     | Some p \<Rightarrow> p = bs' ! 0 \<and> length bs' = length bs + n)"
  using f k
proof (induction n arbitrary: h bs k)
  case 0
  then show ?case by (intro exI[of _ "Some (bs ! 0)"] exI[of _ h] exI[of _ bs]) simp
next
  case (Suc n)
  note f = Suc.prems(1) and k = Suc.prems(2)
  have hk: "heap_ok (ly env) h" and r: "ring_rep h bs (replicate (length bs) [])" using f by (auto simp: fresh_ring_def)
  have kl: "k < length bs" and z: "0 < length bs" using k by linarith+
  have b0: "bs ! 0 \<noteq> nullptr" using f nth_mem[OF z] by (auto simp: fresh_ring_def)
  obtain a h1 where mb: "make_block (ly env) (mallocf env) h sz = (a, h1)" by fastforce
  from env hk s mb show ?case
  proof (cases rule: make_block_sized)
    case fail
    then show ?thesis using mb f by (intro exI[of _ None] exI[of _ h] exI[of _ bs]) (auto simp: alloc_fails_def)
  next
    case (ok b)
    let ?h = "h(a \<mapsto> b\<lparr>nextB := bs ! 0\<rparr>, bs ! k \<mapsto> (blk h bs k)\<lparr>nextB := a\<rparr>)"
    have na: "bs ! k \<noteq> a" using ring_rep_blk(1)[OF r kl] ok(2) by auto
    have f': "fresh_ring env sz h0 ?h (bs @ [a])"
      using fresh_append[OF f k ok(1,2) _ ok(5,6)] ok(3,4) by simp
    have "h1(bs ! k \<mapsto> (blk h bs k)\<lparr>nextB := a\<rparr>, a \<mapsto> b\<lparr>nextB := bs ! 0\<rparr>) = ?h"
      using na ok(3) by (auto simp: fun_eq_iff)
    moreover have "get_block h1 (bs ! k) = Inr (blk h bs k)" "get_block (h1(bs ! k \<mapsto> (blk h bs k)\<lparr>nextB := a\<rparr>)) a = Inr b"
      using ring_rep_get[OF r kl] na ok(3) by (auto simp: get_block_def)
    ultimately have step: "ctor_loop env sz (Suc n) (bs ! 0) (bs ! k) h = ctor_loop env sz n (bs ! 0) a ?h"
      using mb ok(1) b0 by simp
    have k': "Suc (length bs) = length (bs @ [a])" by simp
    have ends: "(bs @ [a]) ! 0 = bs ! 0" "(bs @ [a]) ! length bs = a" using z by (auto simp: nth_append)
    from Suc.IH[OF f' k'] obtain r h' bs' where ih: "ctor_loop env sz n (bs ! 0) a ?h = Inr (r, h')"
      "fresh_ring env sz h0 h' bs'"
      "case r of None \<Rightarrow> length (bs @ [a]) \<le> length bs' \<and> alloc_fails env sz h'
        | Some p \<Rightarrow> p = bs' ! 0 \<and> length bs' = length (bs @ [a]) + n" unfolding ends by blast
    show ?thesis unfolding step using ih by (intro exI[of _ r] exI[of _ h'] exI[of _ bs']) (cases r, simp_all)
  qed
qed

lemma fresh_ring_queue:
  assumes f: "fresh_ring env sz h0 h bs" and s: "size_ok env (largestBlockSize q)"
    and q: "frontBlock q = bs ! 0" "tailBlock q = bs ! 0" "\<not> enqueuing q" "\<not> dequeuing q"
  shows "queue_at env h q bs []"
proof -
  have "ring_rep h bs (replicate (length bs) [])" "heap_ok (ly env) h" using f by (auto simp: fresh_ring_def)
  moreover from this have "part_ok h bs (replicate (length bs) []) 0" by (auto simp: part_ok_def ring_rep_def)
  ultimately have "queue_core env h q bs (replicate (length bs) []) 0" using s q by (simp add: queue_core_def)
  moreover have "concat (replicate (length bs) []) = []" by simp
  ultimately show ?thesis using q unfolding queue_at_def by metis
qed

lemma fresh_ring_reserve:
  assumes f: "fresh_ring env sz h0 h bs"
    and n: "n \<le> (length bs - 1) * (unat sz - 1) \<or> length bs = 1 \<and> n \<le> unat sz - 1"
  shows "reserve h bs n"
  unfolding reserve_def
proof
  fix p assume p: "p \<in> set bs"
  have d: "distinct bs" and c: "\<And>r. r \<in> set bs \<Longrightarrow> cap (the (h r)) = unat sz"
    using f by (auto simp: fresh_ring_def ring_rep_def)
  have "(\<Sum>r \<in> set bs - {p}. cap (the (h r)) - 1) = (\<Sum>r \<in> set bs - {p}. unat sz - 1)"
    by (rule sum.cong) (auto simp: c)
  also have "\<dots> = (length bs - 1) * (unat sz - 1)" using d p by (simp add: distinct_card)
  finally have "(\<Sum>r \<in> set bs - {p}. cap (the (h r)) - 1) = (length bs - 1) * (unat sz - 1)" .
  moreover have "set bs = {p}" if "length bs = 1" using that p by (cases bs) auto
  ultimately show "n \<le> (\<Sum>r \<in> set bs - {p}. cap (the (h r)) - 1) \<or> set bs = {p} \<and> n \<le> cap (the (h p)) - 1"
    using n c[OF p] by auto
qed

lemma ceilToPow2_pow2:
  assumes "m \<le> 63"
  shows "ceilToPow2 (2 ^ m) = 2 ^ m"
proof -
  have u: "unat (2 ^ m :: size_t) = 2 ^ m" using assms by (intro unat_pow2_64) simp
  have "(2::nat) ^ m \<le> 2 ^ 63" using assms by (intro power_increasing) auto
  then obtain e where "ceilToPow2 (2 ^ m) = 2 ^ e" "(2::nat) ^ m \<le> 2 ^ e" "e \<le> m"
    using ceilToPow2_least[of "2 ^ m"] unfolding u by auto
  then show ?thesis by simp
qed

text \<open>The constructor's formula for the number of blocks.\<close>

lemma initialBlockCount_enough:
  assumes m: "max_block env = 2 ^ m" "0 < m" "m < 62" and x: "0 < unat maxSize" "unat maxSize < 2 ^ 63"
  shows "0 < unat (initialBlockCount env maxSize)"
    "unat maxSize \<le> (unat (initialBlockCount env maxSize) - 1) * (2 ^ m - 1)"
proof -
  let ?M = "2 ^ m :: nat"
  have M: "2 \<le> ?M" using m(2) power_increasing[of 1 m "2::nat"] by simp
  have M': "?M \<le> 2 ^ 61" using m(3) by (intro power_increasing) auto
  have um: "unat (2 ^ m :: size_t) = ?M" using m(3) by (intro unat_pow2_64) simp
  have "unat (max_block env * 2) = ?M * 2" using M' um m(1) by (subst unat_mult_no_wrap) auto
  then have "unat (maxSize + max_block env * 2) = unat maxSize + ?M * 2"
    using M' x(2) by (subst unat_add_no_wrap) auto
  moreover have "unat (maxSize + max_block env * 2 - 3) = unat (maxSize + max_block env * 2) - 3"
    using calculation M unat_sub[of 3 "maxSize + max_block env * 2"] by (simp add: word_le_nat_alt)
  moreover have "max_block env \<noteq> 0" using um m(1) by (metis power_not_zero unat_0 zero_neq_numeral)
  then have "unat (max_block env - 1) = ?M - 1" using um m(1) unat_minus_one[of "max_block env"] by simp
  moreover note this
  ultimately have c: "unat (initialBlockCount env maxSize) = (unat maxSize + ?M * 2 - 3) div (?M - 1)"
    by (simp add: initialBlockCount_def unat_div_distrib)
  obtain d where d: "?M = Suc (Suc d)" using M by (metis add_2_eq_Suc le_Suc_ex)
  have c': "unat (initialBlockCount env maxSize) = Suc ((unat maxSize + d) div Suc d)"
  proof -
    have "unat maxSize + ?M * 2 - 3 = Suc d + (unat maxSize + d)" "?M - 1 = Suc d" using d by simp_all
    then have "unat (initialBlockCount env maxSize) = (Suc d + (unat maxSize + d)) div Suc d" using c by metis
    also have "\<dots> = (unat maxSize + d) div Suc d + 1" by (rule div_add_self1) simp
    finally show ?thesis by simp
  qed
  show "0 < unat (initialBlockCount env maxSize)" unfolding c' by simp
  have "unat maxSize \<le> (unat maxSize + d) div Suc d * Suc d"
    using div_mult_mod_eq[of "unat maxSize + d" "Suc d"] mod_less_divisor[of "Suc d" "unat maxSize + d"] by linarith
  then show "unat maxSize \<le> (unat (initialBlockCount env maxSize) - 1) * (?M - 1)" unfolding c' d by simp
qed

lemma ctor_single_ok:
  assumes env: "env_ok env" and s: "size_ok env sz" and hk: "heap_ok (ly env) h"
  shows "\<exists>r h'. ctor_single env sz h = Inr (r, h') \<and>
    (case r of None \<Rightarrow> h' = h \<and> alloc_fails env sz h' | Some p \<Rightarrow> fresh_ring env sz h h' [p])"
proof -
  obtain a h1 where mb: "make_block (ly env) (mallocf env) h sz = (a, h1)" by fastforce
  from env hk s mb show ?thesis
  proof (cases rule: make_block_sized)
    case fail
    then show ?thesis using mb
      by (intro exI[of _ None] exI[of _ h]) (auto simp: ctor_single_def alloc_fails_def)
  next
    case (ok b)
    then show ?thesis using mb fresh_single[OF ok]
      by (intro exI[of _ "Some a"] exI[of _ "h(a \<mapsto> b\<lparr>nextB := a\<rparr>)"]) (simp add: ctor_single_def)
  qed
qed

lemma ctor_multi_ok:
  assumes env: "env_ok env" and s: "size_ok env sz" and hk: "heap_ok (ly env) h" and n: "0 < n"
  shows "\<exists>r h' bs. ctor_loop env sz n nullptr nullptr h = Inr (r, h') \<and>
    (case r of None \<Rightarrow> alloc_fails env sz h' \<and> (h' = h \<or> fresh_ring env sz h h' bs)
     | Some p \<Rightarrow> fresh_ring env sz h h' bs \<and> p = bs ! 0 \<and> length bs = n)"
proof -
  obtain n' where n': "n = Suc n'" using n by (cases n) auto
  obtain a h1 where mb: "make_block (ly env) (mallocf env) h sz = (a, h1)" by fastforce
  from env hk s mb show ?thesis
  proof (cases rule: make_block_sized)
    case fail
    then show ?thesis using mb n'
      by (intro exI[of _ None] exI[of _ h] exI[of _ "[]"]) (auto simp: alloc_fails_def)
  next
    case (ok b)
    let ?h = "h(a \<mapsto> b\<lparr>nextB := a\<rparr>)"
    have f: "fresh_ring env sz h ?h [a]" by (rule fresh_single[OF ok])
    have step: "ctor_loop env sz n nullptr nullptr h = ctor_loop env sz n' ([a] ! 0) ([a] ! 0) ?h"
      using mb ok n' by simp
    have k: "Suc 0 = length [a]" by simp
    from ctor_loop_ok[OF env s f k] obtain r h' bs' where
      "ctor_loop env sz n' ([a] ! 0) ([a] ! 0) ?h = Inr (r, h')" "fresh_ring env sz h h' bs'"
      "case r of None \<Rightarrow> length [a] \<le> length bs' \<and> alloc_fails env sz h'
        | Some p \<Rightarrow> p = bs' ! 0 \<and> length bs' = length [a] + n'" by blast
    then show ?thesis unfolding step
      by (intro exI[of _ r] exI[of _ h'] exI[of _ bs']) (cases r, simp_all add: n' alloc_fails_def)
  qed
qed

lemma size_ok_pow2: "0 < e \<Longrightarrow> e < 64 \<Longrightarrow> 2 ^ e \<le> block_limit env \<Longrightarrow> size_ok env (2 ^ e)"
  by (auto simp: size_ok_def)

text \<open>What a queue needs in order to be constructed, and what the constructor delivers.\<close>

definition constructed :: "'a env \<Rightarrow> size_t \<Rightarrow> 'a heap \<Rightarrow> rwq option \<Rightarrow> 'a heap \<Rightarrow> bool" where
  "constructed env maxSize h r h' \<longleftrightarrow>
     (case r of None \<Rightarrow> \<exists>sz. size_ok env sz \<and> alloc_fails env sz h'
      | Some q \<Rightarrow> \<exists>bs. queue_at env h' q bs [] \<and> reserve h' bs (unat maxSize) \<and>
          (\<forall>p \<in> set bs. h p = None) \<and> (\<forall>p. p \<notin> set bs \<longrightarrow> h' p = h p))"

lemma constructedI:
  assumes "fresh_ring env sz h h' bs" "size_ok env sz"
    "unat maxSize \<le> (length bs - 1) * (unat sz - 1) \<or> length bs = 1 \<and> unat maxSize \<le> unat sz - 1"
  shows "constructed env maxSize h (Some \<lparr>frontBlock = bs ! 0, tailBlock = bs ! 0, largestBlockSize = sz,
    enqueuing = False, dequeuing = False\<rparr>) h'"
  using assms fresh_ring_queue[OF assms(1), of "\<lparr>frontBlock = bs ! 0, tailBlock = bs ! 0, largestBlockSize = sz,
    enqueuing = False, dequeuing = False\<rparr>"] fresh_ring_reserve[OF assms(1,3)]
  by (auto simp: constructed_def fresh_ring_def)

lemma ctor_ok:
  assumes env: "env_ok env" and hk: "heap_ok (ly env) h" and x: "0 < unat maxSize" "unat maxSize < 2 ^ 63"
  shows "\<exists>r h'. ReaderWriterQueue_ctor env maxSize h = Inr (r, h') \<and> constructed env maxSize h r h'"
proof -
  obtain m where m: "0 < m" "m < 62" "max_block env = 2 ^ m" using env by (auto simp: env_ok_def)
  have um: "unat (max_block env) = 2 ^ m" using m unat_pow2_64[of m] by simp
  have M: "2 \<le> (2::nat) ^ m" "(2::nat) ^ m \<le> 2 ^ 61"
    using m power_increasing[of 1 m "2::nat"] power_increasing[of m 61 "2::nat"] by auto
  have x1: "unat (maxSize + 1) = unat maxSize + 1" using x by (subst unat_add_no_wrap) auto
  then obtain e where e: "ceilToPow2 (maxSize + 1) = 2 ^ e" "e \<le> 63" "unat maxSize + 1 \<le> 2 ^ e"
    using ceilToPow2_least[of "maxSize + 1"] x by auto
  have ue: "unat (2 ^ e :: size_t) = 2 ^ e" using e(2) by (intro unat_pow2_64) simp
  have e0: "0 < e" using e(3) x(1) by (cases e) auto
  have u2: "unat (max_block env * 2) = 2 * 2 ^ m" using um M by (subst unat_mult_no_wrap) auto
  have asserts: "0 < maxSize" "max_block env = ceilToPow2 (max_block env)" "2 \<le> max_block env"
    using x(1) ceilToPow2_pow2[of m] m M um by (auto simp: word_less_nat_alt word_le_nat_alt)
  let ?q = "\<lambda>s p. \<lparr>frontBlock = p, tailBlock = p, largestBlockSize = s, enqueuing = False, dequeuing = False\<rparr>"
  show ?thesis
  proof (cases "max_block env * 2 < ceilToPow2 (maxSize + 1)")
    case True
    have s: "size_ok env (max_block env)" unfolding m(3) using m M um by (intro size_ok_pow2) (auto simp: block_limit_def)
    note n = initialBlockCount_enough[OF m(3,1,2) x]
    from ctor_multi_ok[OF env s hk n(1)] obtain r h' bs where
      run: "ctor_loop env (max_block env) (unat (initialBlockCount env maxSize)) nullptr nullptr h = Inr (r, h')"
      and "case r of None \<Rightarrow> alloc_fails env (max_block env) h' \<and> (h' = h \<or> fresh_ring env (max_block env) h h' bs)
        | Some p \<Rightarrow> fresh_ring env (max_block env) h h' bs \<and> p = bs ! 0 \<and> length bs = unat (initialBlockCount env maxSize)"
      by blast
    then have "constructed env maxSize h (map_option (?q (max_block env)) r) h'"
      using constructedI[OF _ s] n(2) um s by (auto simp: constructed_def[of _ _ _ None] split: option.splits)
    then show ?thesis using run asserts True by (simp add: ReaderWriterQueue_ctor_def Let_def)
  next
    case False
    then have "2 ^ e \<le> 2 * (2::nat) ^ m" using u2 ue e(1) by (simp add: word_less_nat_alt)
    then have s: "size_ok env (2 ^ e)" using e e0 um by (intro size_ok_pow2) (auto simp: block_limit_def)
    from ctor_single_ok[OF env s hk] obtain r h' where run: "ctor_single env (2 ^ e) h = Inr (r, h')"
      and "case r of None \<Rightarrow> h' = h \<and> alloc_fails env (2 ^ e) h' | Some p \<Rightarrow> fresh_ring env (2 ^ e) h h' [p]" by blast
    moreover have "unat maxSize \<le> unat (2 ^ e :: size_t) - 1" using e(3) ue by linarith
    from constructedI[OF _ s _, of h h' "[_]" maxSize] this
    have "constructed env maxSize h (Some (?q (2 ^ e) p)) h'" if "fresh_ring env (2 ^ e) h h' [p]" for p
      using that by simp
    ultimately have "constructed env maxSize h (map_option (?q (2 ^ e)) r) h'"
      using s by (auto simp: constructed_def[of _ _ _ None] split: option.splits)
    then show ?thesis using run asserts False e(1) by (simp add: ReaderWriterQueue_ctor_def Let_def)
  qed
qed

subsection \<open>Moves transfer the contents\<close>

lemma queue_at_transfer:
  assumes q: "queue_at env h q bs vs" and hk: "heap_ok (ly env) h'" and eq: "\<And>p. p \<in> set bs \<Longrightarrow> h' p = h p"
  shows "queue_at env h' q bs vs"
proof -
  obtain vss k where c: "queue_core env h q bs vss k" and vs: "vs = concat vss"
    and fl: "\<not> enqueuing q" "\<not> dequeuing q" using q by (auto simp: queue_at_def)
  have "h' (bs ! i) = h (bs ! i)" if "i < length bs" for i using eq nth_mem[OF that] .
  then have "ring_rep h' bs vss" "part_ok h' bs vss k"
    using c by (auto simp: queue_core_def ring_rep_def node_def part_ok_def)
  then show ?thesis using c vs fl hk by (auto simp: queue_at_def queue_core_def)
qed

lemma queue_at_heap_ok: "queue_at env h q bs vs \<Longrightarrow> heap_ok (ly env) h"
  by (auto simp: queue_at_def queue_core_def)

lemma queue_at_dom: "queue_at env h q bs vs \<Longrightarrow> set bs \<subseteq> dom h"
  using ring_rep_dom by (fastforce simp: queue_at_def queue_core_def)

text \<open>An operation on one queue leaves a queue with other blocks alone.\<close>

lemma queue_at_other:
  assumes q: "queue_at env h q bs vs" and f: "frame cs h h'" and d: "set bs \<inter> set cs = {}"
    and hk: "heap_ok (ly env) h'"
  shows "queue_at env h' q bs vs"
proof (rule queue_at_transfer[OF q hk])
  fix p assume p: "p \<in> set bs"
  then obtain b where b: "h p = Some b" using queue_at_dom[OF q] by blast
  have "p \<notin> set cs" using p d by blast
  then show "h' p = h p" using f b unfolding frame_def by auto
qed

lemma queue_at_cong:
  assumes "queue_at env h q bs vs" "frontBlock q' = frontBlock q" "tailBlock q' = tailBlock q"
    "size_ok env (largestBlockSize q')" "\<not> enqueuing q'" "\<not> dequeuing q'"
  shows "queue_at env h q' bs vs"
proof -
  obtain vss k where "queue_core env h q bs vss k" "vs = concat vss" using assms(1) by (auto simp: queue_at_def)
  then have "queue_core env h q' bs vss k" using assms by (simp add: queue_core_def)
  then show ?thesis using assms \<open>vs = concat vss\<close> unfolding queue_at_def by blast
qed

lemma queue_at_members:
  "queue_at env h q bs vs \<Longrightarrow> size_ok env (largestBlockSize q) \<and> \<not> enqueuing q \<and> \<not> dequeuing q"
  by (auto simp: queue_at_def queue_core_def)

lemma size_ok_32: "env_ok env \<Longrightarrow> size_ok env 32"
  using size_ok_pow2[of 5 env] by (simp add: block_limit_def)

lemma move_ctor_ok:
  assumes env: "env_ok env" and q: "queue_at env h other bs vs"
  shows "\<exists>r h' other'. move_ctor env other h = Inr (r, h', other') \<and>
    (case r of None \<Rightarrow> alloc_fails env 32 h' \<and> h' = h \<and> queue_at env h' other' bs vs
     | Some this \<Rightarrow> queue_at env h' this bs vs \<and> (\<exists>b. h b = None \<and> queue_at env h' other' [b] [] \<and> (\<forall>p. p \<noteq> b \<longrightarrow> h' p = h p)))"
proof -
  let ?new = "\<lparr>frontBlock = frontBlock other, tailBlock = tailBlock other,
    largestBlockSize = largestBlockSize other, enqueuing = False, dequeuing = False\<rparr>"
  obtain b h1 where mb: "make_block (ly env) (mallocf env) h 32 = (b, h1)" by fastforce
  from env queue_at_heap_ok[OF q] size_ok_32[OF env] mb show ?thesis
  proof (cases rule: make_block_sized)
    case fail
    moreover have "queue_at env h (other\<lparr>largestBlockSize := 32\<rparr>) bs vs"
      by (rule queue_at_cong[OF q]) (use size_ok_32[OF env] queue_at_members[OF q] in simp_all)
    ultimately show ?thesis using mb
      by (intro exI[of _ None] exI[of _ h] exI[of _ "other\<lparr>largestBlockSize := 32\<rparr>"])
        (auto simp: move_ctor_def Let_def alloc_fails_def)
  next
    case (ok blk)
    let ?h = "h(b \<mapsto> blk\<lparr>nextB := b\<rparr>)"
    let ?o = "other\<lparr>largestBlockSize := 32, frontBlock := b, tailBlock := b\<rparr>"
    have f: "fresh_ring env 32 h ?h [b]" by (rule fresh_single[OF ok])
    have fl: "\<not> enqueuing other" "\<not> dequeuing other" using queue_at_members[OF q] by auto
    have "queue_at env ?h ?o [b] []" by (rule fresh_ring_queue[OF f]) (use fl size_ok_32[OF env] in simp_all)
    moreover have "queue_at env h ?new bs vs" by (rule queue_at_cong[OF q]) (use queue_at_members[OF q] in simp_all)
    then have "queue_at env ?h ?new bs vs"
    proof (rule queue_at_transfer)
      show "heap_ok (ly env) ?h" using f by (simp add: fresh_ring_def)
      show "?h p = h p" if "p \<in> set bs" for p using that queue_at_dom[OF q] ok(2) by auto
    qed
    moreover have "move_ctor env other h = Inr (Some ?new, ?h, ?o)"
      using mb ok by (simp add: move_ctor_def Let_def)
    ultimately show ?thesis using ok(2) by (intro exI[of _ "Some ?new"] exI[of _ ?h] exI[of _ ?o]) auto
  qed
qed

lemma move_assign_ok:
  assumes "queue_at env h this bs vs" "queue_at env h other cs ws" "move_assign this other = (this', other')"
  shows "queue_at env h this' cs ws" "queue_at env h other' bs vs"
proof -
  have m: "this' = this\<lparr>frontBlock := frontBlock other, tailBlock := tailBlock other, largestBlockSize := largestBlockSize other\<rparr>"
    "other' = other\<lparr>frontBlock := frontBlock this, tailBlock := tailBlock this, largestBlockSize := largestBlockSize this\<rparr>"
    using assms(3) by (auto simp: move_assign_def Let_def)
  note f = queue_at_members[OF assms(1)] queue_at_members[OF assms(2)]
  show "queue_at env h this' cs ws" by (rule queue_at_cong[OF assms(2)]) (use m f in simp_all)
  show "queue_at env h other' bs vs" by (rule queue_at_cong[OF assms(1)]) (use m f in simp_all)
qed

end
