(* ===== verification/Fifo_Spec.thy ===== *)
theory Fifo_Spec
  imports App_Prelude
begin

text \<open>
  What the clients of a single-producer single-consumer queue rely on, as a locale: an
  operation that appends an element or refuses it, an operation that removes the oldest
  element or reports that there is none. Inside the locale: any interleaving of whole
  operations delivers the accepted elements in order.
\<close>

subsection \<open>Programs over a queue\<close>

datatype 'a queue_op = Enq 'a | Deq

text \<open>
  \<open>drive\<close> runs a sequence of operations, as the two threads' calls may be interleaved; it
  collects the elements that were accepted and the elements that were delivered.
\<close>

fun drive :: "('a \<Rightarrow> 's \<Rightarrow> 'e + (bool \<times> 's)) \<Rightarrow> ('s \<Rightarrow> 'e + ('a option \<times> 's)) \<Rightarrow> 'a queue_op list \<Rightarrow> 's \<Rightarrow>
    'e + ('a list \<times> 'a list \<times> 's)" where
  "drive enq deq [] s = Inr ([], [], s)"
| "drive enq deq (Enq v # ops) s =
     bindE (enq v s) (\<lambda>(ok, s1).
     bindE (drive enq deq ops s1) (\<lambda>(acc, got, s2).
     Inr (if ok then v # acc else acc, got, s2)))"
| "drive enq deq (Deq # ops) s =
     bindE (deq s) (\<lambda>(r, s1).
     bindE (drive enq deq ops s1) (\<lambda>(acc, got, s2).
     Inr (acc, case r of None \<Rightarrow> got | Some v \<Rightarrow> v # got, s2)))"

definition first :: "'a list \<Rightarrow> 'a option" where
  "first vs = (case vs of [] \<Rightarrow> None | v # _ \<Rightarrow> Some v)"

lemma first_simps [simp]: "first [] = None" "first (v # vs) = Some v"
  by (simp_all add: first_def)

subsection \<open>The contract\<close>

locale fifo_queue =
  fixes rep :: "'s \<Rightarrow> 'a list \<Rightarrow> bool"
    and enq :: "'a \<Rightarrow> 's \<Rightarrow> 'e + (bool \<times> 's)"
    and deq :: "'s \<Rightarrow> 'e + ('a option \<times> 's)"
  assumes enq_law: "rep s vs \<Longrightarrow> \<exists>ok s'. enq v s = Inr (ok, s') \<and> rep s' (if ok then vs @ [v] else vs)"
    and deq_law: "rep s vs \<Longrightarrow> \<exists>s'. deq s = Inr (first vs, s') \<and> rep s' (tl vs)"
begin

lemma drive_fifo:
  "rep s vs \<Longrightarrow> \<exists>acc got s' vs'. drive enq deq ops s = Inr (acc, got, s') \<and> rep s' vs' \<and> vs @ acc = got @ vs'"
proof (induction ops arbitrary: s vs)
  case Nil
  then show ?case by auto
next
  case (Cons a ops)
  show ?case
  proof (cases a)
    case (Enq v)
    obtain ok s1 where e: "enq v s = Inr (ok, s1)" "rep s1 (if ok then vs @ [v] else vs)"
      using enq_law[OF Cons.prems] by blast
    from Cons.IH[OF e(2)] obtain acc got s2 vs' where
      "drive enq deq ops s1 = Inr (acc, got, s2)" "rep s2 vs'" "(if ok then vs @ [v] else vs) @ acc = got @ vs'" by blast
    then show ?thesis using e Enq by (cases ok) auto
  next
    case Deq
    obtain s1 where e: "deq s = Inr (first vs, s1)" "rep s1 (tl vs)" using deq_law[OF Cons.prems] by blast
    from Cons.IH[OF e(2)] obtain acc got s2 vs' where
      "drive enq deq ops s1 = Inr (acc, got, s2)" "rep s2 vs'" "tl vs @ acc = got @ vs'" by blast
    then show ?thesis using e Deq by (cases vs) auto
  qed
qed

end

end
