(* ===== verification/Rwq_Api.thy ===== *)
theory Rwq_Api
  imports Rwq_Life Fifo_Spec
begin

unbundle bit_operations_syntax

text \<open>
  \<^verbatim>\<open>ReaderWriterQueue\<close> as its clients see it: a state that holds the environment, the heap and
  the members, the interpretation of the queue contract on the model, and the theorems on
  the constructor, the operations and the destructor.
\<close>

subsection \<open>The queue as an instance of the contract\<close>

type_synonym 'a rwq_state = "'a env \<times> 'a heap \<times> rwq"

definition rwq_rep :: "'a rwq_state \<Rightarrow> 'a list \<Rightarrow> bool" where
  "rwq_rep s vs \<longleftrightarrow> (case s of (env, h, q) \<Rightarrow> env_ok env \<and> (\<exists>bs. queue_at env h q bs vs))"

definition rwq_enqueue :: "AllocationMode \<Rightarrow> 'a \<Rightarrow> 'a rwq_state \<Rightarrow> (bool \<times> 'a rwq_state) res" where
  "rwq_enqueue m v s = (case s of (env, h, q) \<Rightarrow>
     bindE (inner_enqueue env m v h q) (\<lambda>(ok, h', q'). Inr (ok, env, h', q')))"

definition rwq_dequeue :: "'a rwq_state \<Rightarrow> ('a option \<times> 'a rwq_state) res" where
  "rwq_dequeue s = (case s of (env, h, q) \<Rightarrow>
     bindE (try_dequeue h q) (\<lambda>(r, h', q'). Inr (r, env, h', q')))"

lemma rwq_enqueue_law:
  assumes "rwq_rep s vs"
  shows "\<exists>ok s'. rwq_enqueue m v s = Inr (ok, s') \<and> rwq_rep s' (if ok then vs @ [v] else vs)"
proof -
  obtain env h q bs where s: "s = (env, h, q)" "env_ok env" "queue_at env h q bs vs"
    using assms by (cases s) (auto simp: rwq_rep_def)
  obtain ok h' q' bs' where "inner_enqueue env m v h q = Inr (ok, h', q')"
    "queue_at env h' q' bs' (if ok then vs @ [v] else vs)" using inner_enqueue_ok[OF s(2,3)] by metis
  then show ?thesis using s by (auto simp: rwq_enqueue_def rwq_rep_def)
qed

lemma rwq_dequeue_law:
  assumes "rwq_rep s vs"
  shows "\<exists>s'. rwq_dequeue s = Inr (first vs, s') \<and> rwq_rep s' (tl vs)"
proof -
  obtain env h q bs where s: "s = (env, h, q)" "env_ok env" "queue_at env h q bs vs"
    using assms by (cases s) (auto simp: rwq_rep_def)
  then show ?thesis using try_dequeue_ok[OF s(3)]
    by (fastforce simp: rwq_dequeue_def rwq_rep_def first_def)
qed

interpretation rwq: fifo_queue rwq_rep "rwq_enqueue m" rwq_dequeue
  by unfold_locales (rule rwq_enqueue_law, assumption, rule rwq_dequeue_law)

subsection \<open>A concrete environment\<close>

text \<open>
  An allocator with a few fixed places, each used when no block lies there, on the layout of
  a 64-bit build with 8-byte elements, and the queue its first allocation gives.
\<close>

definition region_free :: "layout \<Rightarrow> 'a heap \<Rightarrow> nat \<Rightarrow> nat \<Rightarrow> bool" where
  "region_free L h a n \<longleftrightarrow> (\<forall>p b. h p = Some b \<longrightarrow> {a ..< a + n} \<inter> allocation L b = {})"

definition arena_malloc :: "layout \<Rightarrow> 'a malloc" where
  "arena_malloc L h n =
     (if unat n < 1048576 \<and> region_free L h 1048576 (unat n) then 1048576
      else if unat n < 1048576 \<and> region_free L h 2097152 (unat n) then 2097152
      else if unat n < 1048576 \<and> region_free L h 3145728 (unat n) then 3145728
      else nullptr)"

definition demo_layout :: layout where
  "demo_layout = \<lparr>sizeof_Block = 192, alignof_Block = 8, sizeof_T = 8, alignof_T = 8\<rparr>"

definition arena_env :: "'a env" where
  "arena_env = \<lparr>ly = demo_layout, mallocf = arena_malloc demo_layout, max_block = 512\<rparr>"

definition arena_block :: "'a Block" where
  "arena_block = \<lparr>front = 0, localTail = 0, tail = 0, localFront = 0, nextB = 1048576, data = 1048768,
     sizeMask = 3, rawThis = 1048576, slots = replicate 4 None\<rparr>"

definition arena_heap :: "'a heap" where
  "arena_heap = [1048576 \<mapsto> arena_block]"

definition demo_rwq :: rwq where
  "demo_rwq = \<lparr>frontBlock = 1048576, tailBlock = 1048576, largestBlockSize = 4, enqueuing = False, dequeuing = False\<rparr>"

text \<open>The same for elements that are numbers.\<close>

abbreviation demo_env :: "nat env" where "demo_env \<equiv> arena_env"
abbreviation demo_block :: "nat Block" where "demo_block \<equiv> arena_block"
abbreviation demo_heap :: "nat heap" where "demo_heap \<equiv> arena_heap"

lemma arena_malloc_ok: "malloc_ok L (arena_malloc L)"
  by (auto simp: malloc_ok_def arena_malloc_def region_free_def)

lemma arena_env_ok: "env_ok arena_env"
proof -
  have "max_block arena_env = 2 ^ 9" by (simp add: arena_env_def)
  moreover have "fits (ly arena_env) (block_limit arena_env)"
    by (simp add: arena_env_def demo_layout_def fits_def block_limit_def)
  ultimately show ?thesis using arena_malloc_ok unfolding env_ok_def
    by (intro conjI exI[of _ 9]) (simp_all add: arena_env_def)
qed

lemma arena_empty_heap: "heap_ok (ly arena_env) Map.empty"
  by (simp add: heap_ok_def)

lemma arena_block_eq: "arena_block = (Block_ctor (2 ^ 2) 1048576 1048768)\<lparr>nextB := 1048576\<rparr>"
  by (simp add: arena_block_def Block_ctor_def)

lemma arena_queue: "queue_at arena_env (arena_heap :: 'a heap) demo_rwq [1048576] []"
proof -
  let ?b = "Block_ctor (2 ^ 2) 1048576 1048768 :: 'a Block"
  have "heap_ok (ly arena_env) (Map.empty(1048576 \<mapsto> ?b))"
    by (rule heap_ok_add) (auto simp: heap_ok_def allocation_def Block_ctor_def arena_env_def demo_layout_def
        block_bytes_def Let_def)
  moreover have "block_rep ?b []" "cap ?b = 4"
    using Block_ctor_rep(1)[of 2 1048576 1048768] Block_ctor_rep(2)[of 2 1048576 1048768] by simp_all
  ultimately have "fresh_ring arena_env 4 Map.empty (Map.empty(1048576 \<mapsto> ?b\<lparr>nextB := 1048576\<rparr>)) [1048576]"
    by (intro fresh_single[OF _ _ refl]) simp_all
  then have "fresh_ring arena_env 4 Map.empty (arena_heap :: 'a heap) [1048576]"
    unfolding arena_heap_def arena_block_eq .
  then show ?thesis
    by (rule fresh_ring_queue) (use size_ok_pow2[of 2 "arena_env :: 'a env"] in \<open>simp_all add: demo_rwq_def block_limit_def\<close>)
qed

lemmas demo_env_ok = arena_env_ok [where ?'a = nat]
lemmas demo_empty_heap = arena_empty_heap [where ?'a = nat]
lemmas demo_queue = arena_queue [where ?'a = nat]

subsection \<open>Room promised by the constructor\<close>

text \<open>
  The promise \<^verbatim>\<open>can hold maxSize elements without further allocations\<close>: \<open>within n k ops\<close> says that
  a program never enqueues while \<open>n\<close> elements or more are waiting, when \<open>k\<close> wait at its start.
\<close>

fun within :: "nat \<Rightarrow> nat \<Rightarrow> 'a queue_op list \<Rightarrow> bool" where
  "within n k [] = True"
| "within n k (Enq v # ops) = (k < n \<and> within n (Suc k) ops)"
| "within n k (Deq # ops) = within n (k - 1) ops"

fun enqs :: "'a queue_op list \<Rightarrow> 'a list" where
  "enqs [] = []"
| "enqs (Enq v # ops) = v # enqs ops"
| "enqs (Deq # ops) = enqs ops"

definition roomy :: "'a env \<Rightarrow> nat \<Rightarrow> addr set \<Rightarrow> 'a rwq_state \<Rightarrow> 'a list \<Rightarrow> bool" where
  "roomy env n D s vs \<longleftrightarrow> (case s of (env', h, q) \<Rightarrow> env' = env \<and>
     env_ok env \<and> dom h = D \<and> (\<exists>bs. queue_at env h q bs vs \<and> reserve h bs n))"

lemma roomy_enqueue:
  assumes r: "roomy env n D s vs" and l: "length vs < n"
  shows "\<exists>s'. rwq_enqueue CannotAlloc v s = Inr (True, s') \<and> roomy env n D s' (vs @ [v])"
proof -
  obtain h q bs where s: "s = (env, h, q)" "env_ok env" "dom h = D" "queue_at env h q bs vs" "reserve h bs n"
    using r by (cases s) (auto simp: roomy_def)
  obtain ok h' q' bs' where e: "inner_enqueue env CannotAlloc v h q = Inr (ok, h', q')"
    "queue_at env h' q' bs' (if ok then vs @ [v] else vs)" "frame bs h h'" "bs' = bs" "dom h' = dom h"
    "\<not> ok \<longrightarrow> (\<forall>n. reserve h bs n \<longrightarrow> n \<le> length vs)"
    using inner_enqueue_ok[OF s(2,4), of CannotAlloc v] by auto
  have ok using e(6) s(5) l by fastforce
  moreover have "reserve h' bs n" by (rule reserve_frame[OF s(5) e(3) queue_at_dom[OF s(4)] refl])
  ultimately show ?thesis using s e by (auto simp: rwq_enqueue_def roomy_def)
qed

lemma roomy_dequeue:
  assumes r: "roomy env n D s vs"
  shows "\<exists>s'. rwq_dequeue s = Inr (first vs, s') \<and> roomy env n D s' (tl vs)"
proof -
  obtain h q bs where s: "s = (env, h, q)" "env_ok env" "dom h = D" "queue_at env h q bs vs" "reserve h bs n"
    using r by (cases s) (auto simp: roomy_def)
  obtain h' q' bs' where e: "try_dequeue h q = Inr (first vs, h', q')" "queue_at env h' q' bs' (tl vs)"
    "frame bs h h'" "set bs' = set bs" "dom h' = dom h"
    using try_dequeue_ok[OF s(4)] unfolding first_def by blast
  have "reserve h' bs' n" by (rule reserve_frame[OF s(5) e(3) queue_at_dom[OF s(4)] e(4)])
  then show ?thesis using s e by (auto simp: rwq_dequeue_def roomy_def)
qed

lemma roomy_drive:
  assumes "roomy env n D s vs" "within n (length vs) ops"
  shows "\<exists>got s' vs'. drive (rwq_enqueue CannotAlloc) rwq_dequeue ops s = Inr (enqs ops, got, s') \<and>
    roomy env n D s' vs' \<and> vs @ enqs ops = got @ vs'"
  using assms
proof (induction ops arbitrary: s vs)
  case Nil
  then show ?case by auto
next
  case (Cons a ops)
  show ?case
  proof (cases a)
    case (Enq v)
    obtain s1 where e: "rwq_enqueue CannotAlloc v s = Inr (True, s1)" "roomy env n D s1 (vs @ [v])"
      using roomy_enqueue[OF Cons.prems(1), of v] Cons.prems(2) unfolding Enq within.simps by blast
    then show ?thesis using Cons.IH[OF e(2)] Cons.prems(2) Enq by auto
  next
    case Deq
    obtain s1 where e: "rwq_dequeue s = Inr (first vs, s1)" "roomy env n D s1 (tl vs)"
      using roomy_dequeue[OF Cons.prems(1)] by blast
    then obtain got s2 vs' where "drive (rwq_enqueue CannotAlloc) rwq_dequeue ops s1 = Inr (enqs ops, got, s2)"
      "roomy env n D s2 vs'" "tl vs @ enqs ops = got @ vs'" using Cons.IH[OF e(2)] Cons.prems(2) Deq by auto
    then show ?thesis using e Deq by (cases vs) auto
  qed
qed

lemma ceilToPow2_wraps:
  assumes "2 ^ 63 \<le> unat (x - 1)"
  shows "ceilToPow2 x = 0"
proof -
  have "bit (x - 1) 63"
  proof (rule ccontr)
    assume nb: "\<not> bit (x - 1) 63"
    obtain k where k: "bit (x - 1) k" "\<And>m. k < m \<Longrightarrow> \<not> bit (x - 1) m"
      using top_bit_exists[of "x - 1"] assms by fastforce
    have "k < 64" using bit_imp_le_length[OF k(1)] by simp
    then have "Suc k \<le> 63" using nb k(1) by (cases "k = 63") auto
    then have "(2::nat) ^ Suc k \<le> 2 ^ 63" by (rule power_increasing) simp
    then show False using top_bit_bounds[OF k] assms by simp
  qed
  moreover have "\<not> bit (x - 1) m" if "63 < m" for m using that bit_imp_le_length[of "x - 1" m] by auto
  ultimately have "ceilToPow2 x = 2 ^ Suc 63" by (rule ceilToPow2_top_bit)
  then show ?thesis by simp
qed

lemma demo_ctor: "ReaderWriterQueue_ctor demo_env 3 Map.empty = Inr (Some demo_rwq, demo_heap)"
proof -
  have c: "ceilToPow2 512 = 512" "ceilToPow2 4 = 4"
    using ceilToPow2_pow2[of 9] ceilToPow2_pow2[of 2] by simp_all
  have "make_block (ly demo_env) (mallocf demo_env) Map.empty 4 =
      (1048576, [1048576 \<mapsto> Block_ctor 4 1048576 1048768])"
    by (simp add: make_block_def arena_env_def demo_layout_def block_bytes_def arena_malloc_def region_free_def
        align_for_def Let_def)
  then show ?thesis
    by (simp add: ReaderWriterQueue_ctor_def ctor_single_def Let_def c demo_rwq_def arena_heap_def arena_block_eq)
      (simp add: arena_env_def c)
qed

subsection \<open>Theorems\<close>

text \<open>\<^verbatim>\<open>ceilToPow2\<close> returns the least power of two that is not below its argument, for every
  argument from 1 to \<open>2 ^ 63\<close>.\<close>

theorem ceilToPow2_least_power:
  assumes "1 \<le> unat x" and "unat x \<le> 2 ^ 63"
  shows "\<exists>e. ceilToPow2 x = 2 ^ e \<and> e \<le> 63 \<and> unat x \<le> 2 ^ e \<and> (\<forall>f. unat x \<le> 2 ^ f \<longrightarrow> e \<le> f)"
  by (rule ceilToPow2_least[OF assms])

theorem ceilToPow2_least_power_witness:
  "\<exists>e. ceilToPow2 600 = 2 ^ e \<and> e \<le> 63 \<and> (600::nat) \<le> 2 ^ e \<and> (\<forall>f. (600::nat) \<le> 2 ^ f \<longrightarrow> e \<le> f)"
  using ceilToPow2_least_power[of 600] by simp

text \<open>\<^verbatim>\<open>make_block\<close> places the block and its element storage, both aligned, one behind the
  other and inside the memory it asked \<^verbatim>\<open>malloc\<close> for, whatever the alignment of that memory.\<close>

theorem make_block_in_bounds:
  assumes "fits L (unat n)" and "malloc h (block_bytes L n) = raw" and "raw \<noteq> nullptr"
    and "unat raw + unat (block_bytes L n) < 2 ^ 64" and "make_block L malloc h n = (a, h')"
  shows "\<exists>b. h' = h(a \<mapsto> b) \<and> rawThis b = raw \<and>
     unat (alignof_Block L) dvd unat a \<and> unat (alignof_T L) dvd unat (data b) \<and>
     unat raw \<le> unat a \<and> unat a + unat (sizeof_Block L) \<le> unat (data b) \<and>
     unat (data b) + unat (sizeof_T L) * length (slots b) \<le> unat raw + unat (block_bytes L n)"
  by (rule make_block_layout[OF assms])

theorem make_block_in_bounds_witness:
  "\<exists>b. snd (make_block demo_layout (\<lambda>h n. 1003) (Map.empty :: nat heap) 4) = Map.empty(1008 \<mapsto> b) \<and>
     1008 + 192 \<le> unat (data b) \<and> unat (data b) + 8 * length (slots b) \<le> 1003 + 238"
proof -
  let ?r = "make_block demo_layout (\<lambda>h n. 1003) (Map.empty :: nat heap) 4"
  have r: "?r = (1008, snd ?r)" and b: "block_bytes demo_layout 4 = 238"
    by (simp_all add: make_block_def demo_layout_def block_bytes_def align_for_def Let_def)
  have "fits demo_layout (unat (4 :: size_t))" by (simp add: fits_def demo_layout_def)
  from make_block_in_bounds[OF this refl _ _ r] b show ?thesis by (auto simp: demo_layout_def)
qed

text \<open>C24: the constructor's assertions hold, and it either gives an empty queue that reserves room
  for \<^verbatim>\<open>maxSize\<close> elements in freshly allocated blocks, every other block untouched, or throws
  \<^verbatim>\<open>bad_alloc\<close> because the allocator refused a block.\<close>

theorem ctor_establishes:
  assumes "env_ok env" and "heap_ok (ly env) h" and "0 < unat maxSize" and "unat maxSize < 2 ^ 63"
  shows "\<exists>r h'. ReaderWriterQueue_ctor env maxSize h = Inr (r, h') \<and>
    (case r of None \<Rightarrow> \<exists>sz. size_ok env sz \<and> mallocf env h' (block_bytes (ly env) sz) = nullptr
     | Some q \<Rightarrow> \<exists>bs. queue_at env h' q bs [] \<and> reserve h' bs (unat maxSize) \<and>
         (\<forall>p \<in> set bs. h p = None) \<and> (\<forall>p. p \<notin> set bs \<longrightarrow> h' p = h p))"
  using ctor_ok[OF assms] unfolding constructed_def alloc_fails_def .

theorem ctor_establishes_witness:
  "\<exists>r h'. ReaderWriterQueue_ctor demo_env 2000 demo_heap = Inr (r, h') \<and>
    (case r of None \<Rightarrow> \<exists>sz. size_ok demo_env sz \<and> mallocf demo_env h' (block_bytes (ly demo_env) sz) = nullptr
     | Some q \<Rightarrow> \<exists>bs. queue_at demo_env h' q bs [] \<and> reserve h' bs (unat (2000 :: size_t)) \<and>
         (\<forall>p \<in> set bs. demo_heap p = None) \<and> (\<forall>p. p \<notin> set bs \<longrightarrow> h' p = demo_heap p))"
  by (rule ctor_establishes[OF demo_env_ok queue_at_heap_ok[OF demo_queue]]) simp_all

text \<open>A \<^verbatim>\<open>maxSize\<close> of \<open>2 ^ 63\<close> or more makes the constructor compute the block size 0: it
  allocates a single block without a slot instead of the room that was asked for.\<close>

theorem ctor_huge_size:
  assumes "2 ^ 63 \<le> unat maxSize" and "max_block env = 2 ^ m" and "0 < m" and "m < 62"
  shows "ReaderWriterQueue_ctor env maxSize h =
    bindE (ctor_single env 0 h) (\<lambda>(r, h'). Inr (map_option (\<lambda>p. \<lparr>frontBlock = p, tailBlock = p,
      largestBlockSize = 0, enqueuing = False, dequeuing = False\<rparr>) r, h'))"
proof -
  have "unat (2 ^ m :: size_t) = 2 ^ m" using assms(4) by (intro unat_pow2_64) simp
  moreover have "(2::nat) \<le> 2 ^ m" using assms(3) power_increasing[of 1 m "2::nat"] by simp
  ultimately have "2 \<le> max_block env" using assms(2) by (simp add: word_le_nat_alt)
  moreover have "0 < maxSize" using assms(1) by (simp add: word_less_nat_alt)
  moreover have "max_block env = ceilToPow2 (max_block env)" using ceilToPow2_pow2[of m] assms by simp
  moreover have "ceilToPow2 (maxSize + 1) = 0" using assms(1) by (intro ceilToPow2_wraps) simp
  ultimately show ?thesis by (simp add: ReaderWriterQueue_ctor_def Let_def)
qed

theorem ctor_huge_size_witness:
  "ReaderWriterQueue_ctor demo_env 9223372036854775808 Map.empty =
    bindE (ctor_single demo_env 0 Map.empty) (\<lambda>(r, h'). Inr (map_option (\<lambda>p. \<lparr>frontBlock = p, tailBlock = p,
      largestBlockSize = 0, enqueuing = False, dequeuing = False\<rparr>) r, h'))"
  by (rule ctor_huge_size[of _ _ 9]) (simp_all add: arena_env_def)

text \<open>C1: \<^verbatim>\<open>enqueue\<close> and \<^verbatim>\<open>try_enqueue\<close> refine append: on a queue that holds \<open>vs\<close>, no assertion
  fails and no slot is misused, the element is appended or the queue is unchanged, blocks of
  other queues are untouched, and an allocating enqueue refuses only when the allocator does.\<close>

theorem enqueue_refines_append:
  assumes "env_ok env" and "queue_at env h q bs vs"
  shows "\<exists>ok h' q' bs'. inner_enqueue env m v h q = Inr (ok, h', q') \<and>
    queue_at env h' q' bs' (if ok then vs @ [v] else vs) \<and> frame bs h h' \<and>
    (\<not> ok \<longrightarrow> m = CanAlloc \<longrightarrow> mallocf env h' (block_bytes (ly env) (next_size env q)) = nullptr)"
  using inner_enqueue_ok[OF assms, of m v] unfolding alloc_fails_def by blast

theorem enqueue_refines_append_witness:
  "\<exists>ok h' q' bs'. inner_enqueue demo_env CanAlloc 7 demo_heap demo_rwq = Inr (ok, h', q') \<and>
    queue_at demo_env h' q' bs' (if ok then [] @ [7] else []) \<and> frame [1048576] demo_heap h' \<and>
    (\<not> ok \<longrightarrow> CanAlloc = CanAlloc \<longrightarrow>
       mallocf demo_env h' (block_bytes (ly demo_env) (next_size demo_env demo_rwq)) = nullptr)"
  by (rule enqueue_refines_append[OF demo_env_ok demo_queue])

text \<open>\<^verbatim>\<open>try_enqueue\<close> never allocates: the set of live blocks and the ring stay the same.\<close>

theorem try_enqueue_never_allocates:
  assumes "env_ok env" and "queue_at env h q bs vs"
  shows "\<exists>ok h' q'. try_enqueue env v h q = Inr (ok, h', q') \<and> dom h' = dom h \<and>
    queue_at env h' q' bs (if ok then vs @ [v] else vs)"
proof -
  obtain ok h' q' bs' where "inner_enqueue env CannotAlloc v h q = Inr (ok, h', q')"
    "queue_at env h' q' bs' (if ok then vs @ [v] else vs)" "bs' = bs" "dom h' = dom h"
    using inner_enqueue_ok[OF assms, of CannotAlloc v] by blast
  then show ?thesis unfolding try_enqueue_def by blast
qed

theorem try_enqueue_never_allocates_witness:
  "\<exists>ok h' q'. try_enqueue demo_env 7 demo_heap demo_rwq = Inr (ok, h', q') \<and> dom h' = dom demo_heap \<and>
    queue_at demo_env h' q' [1048576] (if ok then [] @ [7] else [])"
  by (rule try_enqueue_never_allocates[OF demo_env_ok demo_queue])

text \<open>C10: the constructor's promise. After construction with \<^verbatim>\<open>maxSize\<close>, every \<^verbatim>\<open>try_enqueue\<close> of a
  program that enqueues only while fewer than \<^verbatim>\<open>maxSize\<close> elements wait is accepted, nothing is
  allocated, and the elements come out in order.\<close>

theorem maxSize_without_allocation:
  assumes "env_ok env" and "heap_ok (ly env) h" and "0 < unat maxSize" and "unat maxSize < 2 ^ 63"
    and "ReaderWriterQueue_ctor env maxSize h = Inr (Some q, h1)" and "within (unat maxSize) 0 ops"
  shows "\<exists>got h2 q2 rest. drive (rwq_enqueue CannotAlloc) rwq_dequeue ops (env, h1, q) =
      Inr (enqs ops, got, env, h2, q2) \<and> dom h2 = dom h1 \<and> enqs ops = got @ rest"
proof -
  obtain bs where "queue_at env h1 q bs []" "reserve h1 bs (unat maxSize)"
    using ctor_ok[OF assms(1-4)] assms(5) by (auto simp: constructed_def)
  then have "roomy env (unat maxSize) (dom h1) (env, h1, q) []" using assms(1) by (auto simp: roomy_def)
  from roomy_drive[OF this, of ops] assms(6) obtain got s' rest where
    "drive (rwq_enqueue CannotAlloc) rwq_dequeue ops (env, h1, q) = Inr (enqs ops, got, s')"
    "roomy env (unat maxSize) (dom h1) s' rest" "enqs ops = got @ rest" by auto
  then show ?thesis by (cases s') (auto simp: roomy_def)
qed

theorem maxSize_without_allocation_witness:
  "\<exists>got h2 q2 rest. drive (rwq_enqueue CannotAlloc) rwq_dequeue
       [Enq 1, Enq 2, Deq, Enq 3, Enq 4, Deq] (demo_env, demo_heap, demo_rwq) =
      Inr ([1, 2, 3, 4], got, demo_env, h2, q2) \<and> dom h2 = dom demo_heap \<and> [1, 2, 3, 4] = got @ rest"
  using maxSize_without_allocation[OF demo_env_ok demo_empty_heap _ _ demo_ctor, of "[Enq 1, Enq 2, Deq, Enq 3, Enq 4, Deq]"]
  by simp

text \<open>C5: \<^verbatim>\<open>try_dequeue\<close> refines removing the head: it delivers the oldest element, or reports
  failure exactly when the queue is empty; nothing is allocated or freed and blocks of other
  queues are untouched.\<close>

theorem try_dequeue_refines_head:
  assumes "queue_at env h q bs vs"
  shows "\<exists>h' q' bs'. try_dequeue h q = Inr (case vs of [] \<Rightarrow> None | v # _ \<Rightarrow> Some v, h', q') \<and>
    queue_at env h' q' bs' (tl vs) \<and> frame bs h h' \<and> dom h' = dom h"
  using try_dequeue_ok[OF assms] by blast

theorem try_dequeue_refines_head_witness:
  "\<exists>h' q' bs'. try_dequeue demo_heap demo_rwq = Inr (None, h', q') \<and> queue_at demo_env h' q' bs' []"
  using try_dequeue_refines_head[OF demo_queue] by auto

text \<open>\<^verbatim>\<open>pop\<close> runs exactly as \<^verbatim>\<open>try_dequeue\<close>, branch by branch and failure by failure, and
  forgets the element.\<close>

theorem pop_equals_try_dequeue:
  "pop h q = bindE (try_dequeue h q) (\<lambda>(r, h', q'). Inr (r \<noteq> None, h', q'))"
  using pop_forget[of h q] unfolding forget_def .

text \<open>\<^verbatim>\<open>peek\<close> leaves the contents as they are and points at the element the next
  \<^verbatim>\<open>try_dequeue\<close> delivers, or returns \<^verbatim>\<open>nullptr\<close> when the queue is empty.\<close>

theorem peek_shows_head:
  assumes "queue_at env h q bs vs"
  shows "\<exists>res h'. peek h q = Inr (res, h', q) \<and> queue_at env h' q bs vs \<and>
    (case vs of [] \<Rightarrow> res = None | v # _ \<Rightarrow> (\<exists>p. res = Some p \<and> deref h' p = Inr v))"
  using peek_ok[OF assms] by blast

theorem peek_shows_head_witness:
  "\<exists>h'. peek demo_heap demo_rwq = Inr (None, h', demo_rwq) \<and> queue_at demo_env h' demo_rwq [1048576] []"
  using peek_shows_head[OF demo_queue] by auto

text \<open>The walk of \<^verbatim>\<open>size_approx\<close> over the circular list ends, and when no operation is under
  way its result is the number of elements, modulo the word size.\<close>

theorem size_approx_exact:
  assumes "queue_at env h q bs vs"
  shows "size_approx h q = Some (Inr (of_nat (length vs)))"
  by (rule size_approx_ok[OF assms])

theorem size_approx_exact_witness: "size_approx demo_heap demo_rwq = Some (Inr 0)"
  using size_approx_exact[OF demo_queue] by simp

text \<open>C25: the destructor returns, destroys every remaining element once and in order, and frees
  exactly the blocks of the queue.\<close>

theorem dtor_frees_exactly:
  assumes "queue_at env h q bs vs"
  shows "ReaderWriterQueue_dtor q h = Some (Inr (vs, h |` (- set bs)))"
  by (rule dtor_ok[OF assms])

theorem dtor_frees_exactly_witness:
  "ReaderWriterQueue_dtor demo_rwq demo_heap = Some (Inr ([], demo_heap |` (- set [1048576])))"
  by (rule dtor_frees_exactly[OF demo_queue])

text \<open>The move constructor hands the contents over and leaves the source a usable empty queue
  in a fresh block; when that allocation fails both the source and its contents survive.\<close>

theorem move_ctor_transfers:
  assumes "env_ok env" and "queue_at env h other bs vs"
  shows "\<exists>r h' other'. move_ctor env other h = Inr (r, h', other') \<and>
    (case r of None \<Rightarrow> alloc_fails env 32 h' \<and> h' = h \<and> queue_at env h' other' bs vs
     | Some q \<Rightarrow> queue_at env h' q bs vs \<and> (\<exists>b. h b = None \<and> queue_at env h' other' [b] [] \<and> (\<forall>p. p \<noteq> b \<longrightarrow> h' p = h p)))"
  by (rule move_ctor_ok[OF assms])

theorem move_ctor_transfers_witness:
  "\<exists>r h' other'. move_ctor demo_env demo_rwq demo_heap = Inr (r, h', other') \<and>
    (case r of None \<Rightarrow> alloc_fails demo_env 32 h' \<and> h' = demo_heap \<and> queue_at demo_env h' other' [1048576] []
     | Some q \<Rightarrow> queue_at demo_env h' q [1048576] [] \<and>
         (\<exists>b. demo_heap b = None \<and> queue_at demo_env h' other' [b] [] \<and> (\<forall>p. p \<noteq> b \<longrightarrow> h' p = demo_heap p)))"
  by (rule move_ctor_transfers[OF demo_env_ok demo_queue])

text \<open>The move assignment exchanges the contents of the two queues.\<close>

theorem move_assign_swaps:
  assumes "queue_at env h a bs vs" and "queue_at env h b cs ws" and "move_assign a b = (a', b')"
  shows "queue_at env h a' cs ws \<and> queue_at env h b' bs vs"
  using move_assign_ok[OF assms] by blast

theorem move_assign_swaps_witness:
  "queue_at demo_env demo_heap demo_rwq [1048576] [] \<and> queue_at demo_env demo_heap demo_rwq [1048576] []"
  by (rule move_assign_swaps[OF demo_queue demo_queue]) (simp add: move_assign_def Let_def demo_rwq_def)

text \<open>Any interleaving of whole enqueue and dequeue calls, in either allocation mode, runs
  without a failed assertion and delivers the accepted elements in the order they went in.\<close>

theorem rwq_fifo_order:
  assumes "rwq_rep s vs"
  shows "\<exists>acc got s' vs'. drive (rwq_enqueue m) rwq_dequeue ops s = Inr (acc, got, s') \<and> rwq_rep s' vs' \<and>
    vs @ acc = got @ vs'"
  by (rule rwq.drive_fifo[OF assms])

theorem rwq_fifo_order_witness:
  "\<exists>acc got s' vs'. drive (rwq_enqueue CanAlloc) rwq_dequeue [Enq 1, Deq, Enq 2] (demo_env, demo_heap, demo_rwq) =
      Inr (acc, got, s') \<and> rwq_rep s' vs' \<and> [] @ acc = got @ vs'"
  by (rule rwq_fifo_order) (use demo_env_ok demo_queue in \<open>auto simp: rwq_rep_def\<close>)

end
