(* ===== verification/Rwq_Conc.thy ===== *)
theory Rwq_Conc
  imports Rwq_Api
begin

unbundle bit_operations_syntax

text \<open>
  A producer thread in \<^verbatim>\<open>inner_enqueue\<close> and a consumer thread in \<^verbatim>\<open>try_dequeue\<close> on one
  \<^verbatim>\<open>ReaderWriterQueue\<close>, interleaved at every access to a variable the other thread uses:
  \<^verbatim>\<open>front\<close>, \<^verbatim>\<open>tail\<close>, \<^verbatim>\<open>next\<close>, \<^verbatim>\<open>frontBlock\<close>, \<^verbatim>\<open>tailBlock\<close>, and the element slots. Memory is
  sequentially consistent. The invariant describes the memory as it is when the element
  one thread is just constructing or moving out is put back, which is a ring of blocks as in
  the sequential case.
\<close>

subsection \<open>Threads\<close>

text \<open>Where the producer is; the arguments are the local variables that are still used.\<close>

datatype 'a enq_pc =
    EIdle
  | EFront addr AllocationMode 'a
  | EPut addr size_t 'a | EPub addr size_t 'a
  | EChk addr AllocationMode 'a
  | ENext addr 'a
  | EPutN addr size_t 'a | EPubN addr size_t 'a
  | EAlloc addr 'a | ELink addr addr 'a
  | ETail addr

datatype 'a deq_pc =
    DIdle
  | DTail addr | DChk addr | DRe
  | DNext addr | DNextTail addr | DAdv addr size_t
  | DMove addr size_t | DPub addr size_t 'a

record 'a conc =
  mem :: "'a heap"
  members :: rwq
  epc :: "'a enq_pc"
  dpc :: "'a deq_pc"
  in_log :: "'a list"
  out_log :: "'a list"

definition enq_return :: "'a conc \<Rightarrow> 'a conc" where
  "enq_return st = st\<lparr>epc := EIdle, members := (members st)\<lparr>enqueuing := False\<rparr>\<rparr>"

definition deq_return :: "'a conc \<Rightarrow> 'a conc" where
  "deq_return st = st\<lparr>dpc := DIdle, members := (members st)\<lparr>dequeuing := False\<rparr>\<rparr>"

subsection \<open>Producer steps\<close>

text \<open>The call: the guard, then the producer's own variables decide where it goes.\<close>

definition enq_start :: "AllocationMode \<Rightarrow> 'a \<Rightarrow> 'a conc \<Rightarrow> 'a conc res" where
  "enq_start m v st =
     bindE (assertE (\<not> enqueuing (members st))) (\<lambda>_.
       let st1 = st\<lparr>members := (members st)\<lparr>enqueuing := True\<rparr>\<rparr>;
           tb = tailBlock (members st)
       in bindE (get_block (mem st) tb) (\<lambda>b.
          let blockFront = localFront b;
              blockTail = tail b;
              nextBlockTail = advance b blockTail
          in Inr (st1\<lparr>epc := if nextBlockTail \<noteq> blockFront then EPut tb blockTail v else EFront tb m v\<rparr>)))"

definition enq_alloc :: "'a env \<Rightarrow> addr \<Rightarrow> 'a \<Rightarrow> 'a conc \<Rightarrow> 'a conc res" where
  "enq_alloc env tb v st =
     (let q = members st;
          newBlockSize = (if max_block env \<le> largestBlockSize q then largestBlockSize q
                          else largestBlockSize q * 2);
          (newBlock, h1) = make_block (ly env) (mallocf env) (mem st) newBlockSize
      in if newBlock = nullptr then Inr (enq_return (st\<lparr>mem := h1\<rparr>))
         else bindE (get_block h1 newBlock) (\<lambda>nb0.
              bindE (construct_at nb0 0 v) (\<lambda>nb1.
              bindE (assertE (front nb1 = 0)) (\<lambda>_.
              bindE (get_block h1 tb) (\<lambda>t.
              Inr (st\<lparr>mem := h1(newBlock \<mapsto> nb1\<lparr>localTail := 1, tail := 1, nextB := nextB t\<rparr>),
                      members := q\<lparr>largestBlockSize := newBlockSize\<rparr>,
                      epc := ELink tb newBlock v\<rparr>))))))"

fun enq_step :: "'a env \<Rightarrow> 'a enq_pc \<Rightarrow> 'a conc \<Rightarrow> 'a conc res" where
  "enq_step env EIdle st = Inr st"
| "enq_step env (EFront tb m v) st =
     bindE (get_block (mem st) tb) (\<lambda>b.
     Inr (st\<lparr>mem := (mem st)(tb \<mapsto> b\<lparr>localFront := front b\<rparr>),
             epc := if advance b (tail b) \<noteq> front b then EPut tb (tail b) v else EChk tb m v\<rparr>))"
| "enq_step env (EPut tb i v) st =
     bindE (get_block (mem st) tb) (\<lambda>b.
     bindE (construct_at b i v) (\<lambda>b'.
     Inr (st\<lparr>mem := (mem st)(tb \<mapsto> b'), epc := EPub tb i v\<rparr>)))"
| "enq_step env (EPub tb i v) st =
     bindE (get_block (mem st) tb) (\<lambda>b.
     Inr (enq_return (st\<lparr>mem := (mem st)(tb \<mapsto> b\<lparr>tail := advance b i\<rparr>), in_log := in_log st @ [v]\<rparr>)))"
| "enq_step env (EChk tb m v) st =
     bindE (get_block (mem st) tb) (\<lambda>b.
     Inr (if nextB b \<noteq> frontBlock (members st) then st\<lparr>epc := ENext (nextB b) v\<rparr>
          else case m of CanAlloc \<Rightarrow> st\<lparr>epc := EAlloc tb v\<rparr> | CannotAlloc \<Rightarrow> enq_return st))"
| "enq_step env (ENext nb v) st =
     bindE (get_block (mem st) nb) (\<lambda>b.
     bindE (assertE (front b = tail b)) (\<lambda>_.
     Inr (st\<lparr>mem := (mem st)(nb \<mapsto> b\<lparr>localFront := front b\<rparr>), epc := EPutN nb (tail b) v\<rparr>)))"
| "enq_step env (EPutN nb i v) st =
     bindE (get_block (mem st) nb) (\<lambda>b.
     bindE (construct_at b i v) (\<lambda>b'.
     Inr (st\<lparr>mem := (mem st)(nb \<mapsto> b'), epc := EPubN nb i v\<rparr>)))"
| "enq_step env (EPubN nb i v) st =
     bindE (get_block (mem st) nb) (\<lambda>b.
     Inr (st\<lparr>mem := (mem st)(nb \<mapsto> b\<lparr>tail := advance b i\<rparr>), in_log := in_log st @ [v], epc := ETail nb\<rparr>))"
| "enq_step env (EAlloc tb v) st = enq_alloc env tb v st"
| "enq_step env (ELink tb nb v) st =
     bindE (get_block (mem st) tb) (\<lambda>b.
     Inr (st\<lparr>mem := (mem st)(tb \<mapsto> b\<lparr>nextB := nb\<rparr>), in_log := in_log st @ [v], epc := ETail nb\<rparr>))"
| "enq_step env (ETail nb) st = Inr (enq_return (st\<lparr>members := (members st)\<lparr>tailBlock := nb\<rparr>\<rparr>))"

subsection \<open>Consumer steps\<close>

definition deq_start :: "'a conc \<Rightarrow> 'a conc res" where
  "deq_start st =
     bindE (assertE (\<not> dequeuing (members st))) (\<lambda>_.
       let st1 = st\<lparr>members := (members st)\<lparr>dequeuing := True\<rparr>\<rparr>;
           fb = frontBlock (members st)
       in bindE (get_block (mem st) fb) (\<lambda>b.
          Inr (st1\<lparr>dpc := if front b \<noteq> localTail b then DMove fb (front b) else DTail fb\<rparr>)))"

fun deq_step :: "'a deq_pc \<Rightarrow> 'a conc \<Rightarrow> 'a conc res" where
  "deq_step DIdle st = Inr st"
| "deq_step (DTail fb) st =
     bindE (get_block (mem st) fb) (\<lambda>b.
     Inr (st\<lparr>mem := (mem st)(fb \<mapsto> b\<lparr>localTail := tail b\<rparr>),
             dpc := if front b \<noteq> tail b then DMove fb (front b) else DChk fb\<rparr>))"
| "deq_step (DChk fb) st =
     Inr (if fb \<noteq> tailBlock (members st) then st\<lparr>dpc := DRe\<rparr> else deq_return st)"
| "deq_step DRe st =
     (let fb = frontBlock (members st)
      in bindE (get_block (mem st) fb) (\<lambda>b.
         Inr (st\<lparr>mem := (mem st)(fb \<mapsto> b\<lparr>localTail := tail b\<rparr>),
                 dpc := if front b \<noteq> tail b then DMove fb (front b) else DNext fb\<rparr>)))"
| "deq_step (DNext fb) st =
     bindE (get_block (mem st) fb) (\<lambda>b. Inr (st\<lparr>dpc := DNextTail (nextB b)\<rparr>))"
| "deq_step (DNextTail nb) st =
     bindE (get_block (mem st) nb) (\<lambda>b.
     bindE (assertE (front b \<noteq> tail b)) (\<lambda>_.
     Inr (st\<lparr>mem := (mem st)(nb \<mapsto> b\<lparr>localTail := tail b\<rparr>), dpc := DAdv nb (front b)\<rparr>)))"
| "deq_step (DAdv nb i) st = Inr (st\<lparr>members := (members st)\<lparr>frontBlock := nb\<rparr>, dpc := DMove nb i\<rparr>)"
| "deq_step (DMove fb i) st =
     bindE (get_block (mem st) fb) (\<lambda>b.
     bindE (move_out b i) (\<lambda>(v, b').
     Inr (st\<lparr>mem := (mem st)(fb \<mapsto> b'), dpc := DPub fb i v\<rparr>)))"
| "deq_step (DPub fb i v) st =
     bindE (get_block (mem st) fb) (\<lambda>b.
     Inr (deq_return (st\<lparr>mem := (mem st)(fb \<mapsto> b\<lparr>front := advance b i\<rparr>), out_log := out_log st @ [v]\<rparr>)))"

subsection \<open>The system\<close>

datatype 'a conc_event = CallEnqueue AllocationMode 'a | StepEnqueue | CallDequeue | StepDequeue

fun conc_step :: "'a env \<Rightarrow> 'a conc_event \<Rightarrow> 'a conc \<Rightarrow> 'a conc res option" where
  "conc_step env (CallEnqueue m v) st = (case epc st of EIdle \<Rightarrow> Some (enq_start m v st) | _ \<Rightarrow> None)"
| "conc_step env StepEnqueue st = (case epc st of EIdle \<Rightarrow> None | pc \<Rightarrow> Some (enq_step env pc st))"
| "conc_step env CallDequeue st = (case dpc st of DIdle \<Rightarrow> Some (deq_start st) | _ \<Rightarrow> None)"
| "conc_step env StepDequeue st = (case dpc st of DIdle \<Rightarrow> None | pc \<Rightarrow> Some (deq_step pc st))"

text \<open>Both threads idle on a queue that holds \<open>vs\<close>.\<close>

definition conc_init :: "'a heap \<Rightarrow> rwq \<Rightarrow> 'a list \<Rightarrow> 'a conc" where
  "conc_init h q vs = \<lparr>mem = h, members = q, epc = EIdle, dpc = DIdle, in_log = vs, out_log = []\<rparr>"

inductive conc_reach :: "'a env \<Rightarrow> 'a conc \<Rightarrow> 'a conc \<Rightarrow> bool" for env st0 where
  conc_refl: "conc_reach env st0 st0"
| conc_next: "conc_reach env st0 st \<Longrightarrow> conc_step env e st = Some (Inr st') \<Longrightarrow> conc_reach env st0 st'"

subsection \<open>The memory with elements in transit put back\<close>

definition set_slot :: "size_t \<Rightarrow> 'a option \<Rightarrow> 'a Block \<Rightarrow> 'a Block" where
  "set_slot i x b = b\<lparr>slots := (slots b)[unat i := x]\<rparr>"

definition eslot :: "'a enq_pc \<Rightarrow> addr \<Rightarrow> 'a Block \<Rightarrow> 'a Block" where
  "eslot pc p = (case pc of
      EPub tb i v \<Rightarrow> if p = tb then set_slot i (Some v) else id
    | EPubN nb i v \<Rightarrow> if p = nb then set_slot i (Some v) else id
    | _ \<Rightarrow> id)"

definition dslot :: "'a deq_pc \<Rightarrow> addr \<Rightarrow> 'a Block \<Rightarrow> 'a Block" where
  "dslot pc p = (case pc of DPub fb i v \<Rightarrow> if p = fb then set_slot i None else id | _ \<Rightarrow> id)"

definition patch :: "'a enq_pc \<Rightarrow> 'a deq_pc \<Rightarrow> addr \<Rightarrow> 'a Block \<Rightarrow> 'a Block" where
  "patch ep dp p b = dslot dp p (eslot ep p b)"

definition patched :: "'a enq_pc \<Rightarrow> 'a deq_pc \<Rightarrow> 'a heap \<Rightarrow> 'a heap" where
  "patched ep dp G = (\<lambda>p. map_option (patch ep dp p) (G p))"

lemma set_slot_fields [simp]:
  "front (set_slot i x b) = front b" "tail (set_slot i x b) = tail b" "localFront (set_slot i x b) = localFront b"
  "localTail (set_slot i x b) = localTail b" "nextB (set_slot i x b) = nextB b" "sizeMask (set_slot i x b) = sizeMask b"
  "rawThis (set_slot i x b) = rawThis b" "data (set_slot i x b) = data b" "cap (set_slot i x b) = cap b"
  "advance (set_slot i x b) = advance b"
  by (simp_all add: set_slot_def advance_def fun_eq_iff)

lemma patch_fields [simp]:
  "front (patch ep dp p b) = front b" "tail (patch ep dp p b) = tail b" "localFront (patch ep dp p b) = localFront b"
  "localTail (patch ep dp p b) = localTail b" "nextB (patch ep dp p b) = nextB b" "sizeMask (patch ep dp p b) = sizeMask b"
  "rawThis (patch ep dp p b) = rawThis b" "data (patch ep dp p b) = data b" "cap (patch ep dp p b) = cap b"
  "advance (patch ep dp p b) = advance b"
  by (auto simp: patch_def dslot_def eslot_def split: enq_pc.splits deq_pc.splits)

text \<open>A store to anything but a slot goes through to the memory below.\<close>

lemma patch_store [simp]:
  "(patch ep dp p b)\<lparr>front := x\<rparr> = patch ep dp p (b\<lparr>front := x\<rparr>)"
  "(patch ep dp p b)\<lparr>tail := x\<rparr> = patch ep dp p (b\<lparr>tail := x\<rparr>)"
  "(patch ep dp p b)\<lparr>localFront := x\<rparr> = patch ep dp p (b\<lparr>localFront := x\<rparr>)"
  "(patch ep dp p b)\<lparr>localTail := x\<rparr> = patch ep dp p (b\<lparr>localTail := x\<rparr>)"
  "(patch ep dp p b)\<lparr>nextB := y\<rparr> = patch ep dp p (b\<lparr>nextB := y\<rparr>)"
  by (auto simp: patch_def dslot_def eslot_def set_slot_def split: enq_pc.splits deq_pc.splits)

lemma patched_upd: "(patched ep dp G)(p \<mapsto> patch ep dp p b) = patched ep dp (G(p \<mapsto> b))"
  by (auto simp: patched_def)

lemma patched_get: "G p = Some b \<Longrightarrow> get_block (patched ep dp G) p = Inr (patch ep dp p b)"
  by (simp add: patched_def get_block_def)

subsection \<open>The invariant\<close>

abbreviation full :: "'a heap \<Rightarrow> addr list \<Rightarrow> 'a list list \<Rightarrow> nat \<Rightarrow> bool" where
  "full G bs vss i \<equiv> Suc (length (vss ! i)) = cap (blk G bs i)"

text \<open>
  Block 0 is the front block and block \<open>k\<close> the tail block. The blocks behind the tail block are
  empty, except that between its two last stores the producer has an element in the next one.
\<close>

definition cpart :: "'a heap \<Rightarrow> addr list \<Rightarrow> 'a list list \<Rightarrow> nat \<Rightarrow> bool \<Rightarrow> bool" where
  "cpart G bs vss k ahead \<longleftrightarrow> k < length bs \<and> (\<forall>i. 0 < i \<and> i < k \<longrightarrow> full G bs vss i) \<and> (0 < k \<longrightarrow> vss ! k \<noteq> []) \<and>
     (ahead \<longrightarrow> Suc k < length bs \<and> length (vss ! Suc k) = 1) \<and>
     (\<forall>i. (if ahead then Suc k else k) < i \<and> i < length bs \<longrightarrow> vss ! i = [])"

definition ahead :: "'a enq_pc \<Rightarrow> bool" where
  "ahead pc = (case pc of ETail nb \<Rightarrow> True | _ \<Rightarrow> False)"

fun einv :: "'a enq_pc \<Rightarrow> 'a heap \<Rightarrow> addr list \<Rightarrow> 'a list list \<Rightarrow> nat \<Rightarrow> bool" where
  "einv EIdle G bs vss k = True"
| "einv (EFront tb m v) G bs vss k = (tb = bs ! k)"
| "einv (EPut tb i v) G bs vss k =
     (tb = bs ! k \<and> i = tail (blk G bs k) \<and> advance (blk G bs k) i \<noteq> localFront (blk G bs k))"
| "einv (EPub tb i v) G bs vss k =
     (tb = bs ! k \<and> i = tail (blk G bs k) \<and> advance (blk G bs k) i \<noteq> localFront (blk G bs k))"
| "einv (EChk tb m v) G bs vss k = (tb = bs ! k \<and> (0 < k \<longrightarrow> full G bs vss k))"
| "einv (ENext nb v) G bs vss k = (Suc k < length bs \<and> nb = bs ! Suc k \<and> (0 < k \<longrightarrow> full G bs vss k))"
| "einv (EPutN nb i v) G bs vss k =
     (Suc k < length bs \<and> nb = bs ! Suc k \<and> (0 < k \<longrightarrow> full G bs vss k) \<and>
      i = tail (blk G bs (Suc k)) \<and> localFront (blk G bs (Suc k)) = i)"
| "einv (EPubN nb i v) G bs vss k =
     (Suc k < length bs \<and> nb = bs ! Suc k \<and> (0 < k \<longrightarrow> full G bs vss k) \<and>
      i = tail (blk G bs (Suc k)) \<and> localFront (blk G bs (Suc k)) = i)"
| "einv (EAlloc tb v) G bs vss k = (tb = bs ! k \<and> (0 < k \<longrightarrow> full G bs vss k))"
| "einv (ELink tb nb v) G bs vss k =
     (tb = bs ! k \<and> (0 < k \<longrightarrow> full G bs vss k) \<and> nb \<notin> set bs \<and> G nb \<noteq> None \<and>
      block_rep (the (G nb)) [v] \<and> nextB (the (G nb)) = nextB (blk G bs k))"
| "einv (ETail nb) G bs vss k = (Suc k < length bs \<and> nb = bs ! Suc k \<and> (0 < k \<longrightarrow> full G bs vss k))"

fun dinv :: "'a deq_pc \<Rightarrow> 'a heap \<Rightarrow> addr list \<Rightarrow> 'a list list \<Rightarrow> nat \<Rightarrow> bool" where
  "dinv DIdle G bs vss k = True"
| "dinv (DTail fb) G bs vss k = (fb = bs ! 0)"
| "dinv (DChk fb) G bs vss k = (fb = bs ! 0)"
| "dinv DRe G bs vss k = (0 < k)"
| "dinv (DNext fb) G bs vss k = (fb = bs ! 0 \<and> 0 < k \<and> vss ! 0 = [])"
| "dinv (DNextTail nb) G bs vss k = (nb = bs ! 1 \<and> 0 < k \<and> vss ! 0 = [])"
| "dinv (DAdv nb i) G bs vss k =
     (nb = bs ! 1 \<and> 0 < k \<and> vss ! 0 = [] \<and> i = front (blk G bs 1) \<and> i \<noteq> localTail (blk G bs 1))"
| "dinv (DMove fb i) G bs vss k = (fb = bs ! 0 \<and> i = front (blk G bs 0) \<and> i \<noteq> localTail (blk G bs 0))"
| "dinv (DPub fb i v) G bs vss k =
     (fb = bs ! 0 \<and> i = front (blk G bs 0) \<and> i \<noteq> localTail (blk G bs 0) \<and> (\<exists>ws. vss ! 0 = v # ws))"

definition ring_at :: "'a env \<Rightarrow> 'a heap \<Rightarrow> rwq \<Rightarrow> addr list \<Rightarrow> 'a list list \<Rightarrow> nat \<Rightarrow> bool" where
  "ring_at env G q bs vss k \<longleftrightarrow> ring_rep G bs vss \<and> heap_ok (ly env) G \<and> k < length bs \<and>
     frontBlock q = bs ! 0 \<and> tailBlock q = bs ! k \<and> size_ok env (largestBlockSize q)"

definition conc_at :: "'a env \<Rightarrow> 'a conc \<Rightarrow> 'a heap \<Rightarrow> addr list \<Rightarrow> 'a list list \<Rightarrow> nat \<Rightarrow> bool" where
  "conc_at env st G bs vss k \<longleftrightarrow> ring_at env G (members st) bs vss k \<and>
     mem st = patched (epc st) (dpc st) G \<and> cpart G bs vss k (ahead (epc st)) \<and>
     einv (epc st) G bs vss k \<and> dinv (dpc st) G bs vss k \<and> in_log st = out_log st @ concat vss \<and>
     (enqueuing (members st) \<longleftrightarrow> epc st \<noteq> EIdle) \<and> (dequeuing (members st) \<longleftrightarrow> dpc st \<noteq> DIdle)"

definition conc_inv :: "'a env \<Rightarrow> 'a conc \<Rightarrow> bool" where
  "conc_inv env st \<longleftrightarrow> (\<exists>G bs vss k. conc_at env st G bs vss k)"

subsection \<open>Updates of one block\<close>

lemma blk_upd:
  assumes "ring_rep G bs vss" "i < length bs" "j < length bs"
  shows "blk (G(bs ! j \<mapsto> b)) bs i = (if i = j then b else blk G bs i)"
  using assms by (auto simp: ring_rep_def nth_eq_iff_index_eq)

text \<open>A block that keeps its identity: link, allocation and size.\<close>

definition same_block :: "'a Block \<Rightarrow> 'a Block \<Rightarrow> bool" where
  "same_block b b' \<longleftrightarrow> nextB b' = nextB b \<and> rawThis b' = rawThis b \<and> sizeMask b' = sizeMask b \<and> cap b' = cap b"

lemma ring_at_upd:
  assumes r: "ring_at env G q bs vss k" and j: "j < length bs" and b: "block_rep b vs" "same_block (blk G bs j) b"
  shows "ring_at env (G(bs ! j \<mapsto> b)) q bs (vss[j := vs]) k"
proof -
  have rr: "ring_rep G bs vss" and hk: "heap_ok (ly env) G" using r by (auto simp: ring_at_def)
  have "ring_rep (G(bs ! j \<mapsto> b)) bs (vss[j := vs])"
    using ring_rep_upd[OF rr j b(1)] b(2) by (simp add: same_block_def)
  moreover have "heap_ok (ly env) (G(bs ! j \<mapsto> b))"
    using heap_ok_upd[OF hk ring_rep_blk(1)[OF rr j]] b(2) by (simp add: same_block_def)
  ultimately show ?thesis using r by (simp add: ring_at_def)
qed

lemma ring_at_blk:
  assumes "ring_at env G q bs vss k" "j < length bs"
  shows "G (bs ! j) = Some (blk G bs j)" "block_rep (blk G bs j) (vss ! j)"
    "nextB (blk G bs j) = bs ! (Suc j mod length bs)"
  using assms ring_rep_blk[of G bs vss j] by (simp_all add: ring_at_def)

lemma ring_at_rep: "ring_at env G q bs vss k \<Longrightarrow> ring_rep G bs vss \<and> length vss = length bs \<and> k < length bs \<and> 0 < length bs"
  by (auto simp: ring_at_def ring_rep_def)

text \<open>Consumer updates leave the producer's assertion alone, and conversely.\<close>

lemma einv_upd:
  assumes e: "einv pc G bs vss k" and r: "ring_at env G q bs vss k" and j: "j < length bs"
    and b: "tail b = tail (blk G bs j)" "localFront b = localFront (blk G bs j)" "same_block (blk G bs j) b"
    and v: "j = 0 \<or> vs = vss ! j"
  shows "einv pc (G(bs ! j \<mapsto> b)) bs (vss[j := vs]) k"
proof -
  have rr: "ring_rep G bs vss" and len: "length vss = length bs" and k: "k < length bs" using ring_at_rep[OF r] by auto
  define G' where "G' = G(bs ! j \<mapsto> b)"
  have adv: "advance b = advance (blk G bs j)" using b(3) by (auto simp: same_block_def advance_def fun_eq_iff)
  have same: "tail (blk G' bs i) = tail (blk G bs i)" "localFront (blk G' bs i) = localFront (blk G bs i)"
    "advance (blk G' bs i) = advance (blk G bs i)" "nextB (blk G' bs i) = nextB (blk G bs i)"
    "cap (blk G' bs i) = cap (blk G bs i)" if "i < length bs" for i
    using blk_upd[OF rr that j, of b] b adv unfolding G'_def same_block_def by (cases "i = j"; simp)+
  have full: "0 < k \<longrightarrow> full G' bs (vss[j := vs]) k" if "0 < k \<longrightarrow> full G bs vss k"
    using that v same(5)[OF k] k len by (auto simp: nth_list_update)
  have p: "G' nb = G nb" if "nb \<notin> set bs" for nb using that nth_mem[OF j] by (auto simp: G'_def)
  have "einv pc G' bs (vss[j := vs]) k"
    using e same[OF k] same[of "Suc k"] full p by (cases pc) simp_all
  then show ?thesis unfolding G'_def .
qed

lemma dinv_upd:
  assumes d: "dinv pc G bs vss k" and r: "ring_at env G q bs vss k" and j: "j < length bs"
    and b: "front b = front (blk G bs j)" "localTail b = localTail (blk G bs j)" and v: "0 < k \<longrightarrow> j \<noteq> 0 \<or> xs = []"
  shows "dinv pc (G(bs ! j \<mapsto> b)) bs (vss[j := vss ! j @ xs]) k"
proof -
  have rr: "ring_rep G bs vss" and len: "length vss = length bs" and k: "k < length bs" and z: "0 < length bs"
    using ring_at_rep[OF r] by auto
  note b0 = blk_upd[OF rr z j, of b]
  have v0: "vss[j := vss ! j @ xs] ! 0 = (if j = 0 then vss ! 0 @ xs else vss ! 0)" using len j by auto
  have b1: "blk (G(bs ! j \<mapsto> b)) bs 1 = (if 1 = j then b else blk G bs 1)" if "0 < k"
    using that k by (intro blk_upd[OF rr _ j]) simp
  show ?thesis using d b b0 b1 v v0 by (cases pc) (auto split: if_splits)
qed

lemma cpart_upd:
  assumes c: "cpart G bs vss k a" and r: "ring_at env G q bs vss k" and j: "j < length bs"
    and b: "cap b = cap (blk G bs j)" and v: "j = 0 \<or> vs = vss ! j"
  shows "cpart (G(bs ! j \<mapsto> b)) bs (vss[j := vs]) k a"
proof -
  have rr: "ring_rep G bs vss" and len: "length vss = length bs" and k: "k < length bs" using ring_at_rep[OF r] by auto
  have caps: "cap (blk (G(bs ! j \<mapsto> b)) bs i) = cap (blk G bs i)" if "i < length bs" for i
    using b blk_upd[OF rr that j, of b] by simp
  have nth: "vss[j := vs] ! i = vss ! i" if "0 < i" "i < length bs" for i using that v len by (cases "i = j") auto
  show ?thesis using c caps nth k unfolding cpart_def by auto
qed

text \<open>Only a pending construction or removal shows in the patch.\<close>

lemma patch_deq_quiet [simp]:
  "patch ep (DTail fb) = patch ep DIdle" "patch ep (DChk fb) = patch ep DIdle"
  "patch ep DRe = patch ep DIdle" "patch ep (DNext fb) = patch ep DIdle"
  "patch ep (DNextTail fb) = patch ep DIdle" "patch ep (DAdv fb i) = patch ep DIdle"
  "patch ep (DMove fb i) = patch ep DIdle"
  by (simp_all add: patch_def dslot_def fun_eq_iff)

lemma patch_enq_quiet [simp]:
  "patch (EFront tb m v) dp = patch EIdle dp" "patch (EPut tb i v) dp = patch EIdle dp"
  "patch (EChk tb m v) dp = patch EIdle dp" "patch (ENext tb v) dp = patch EIdle dp"
  "patch (EPutN tb i v) dp = patch EIdle dp" "patch (EAlloc tb v) dp = patch EIdle dp"
  "patch (ELink tb nb v) dp = patch EIdle dp" "patch (ETail tb) dp = patch EIdle dp"
  by (simp_all add: patch_def eslot_def fun_eq_iff)

lemma patched_cong: "patch ep dp = patch ep' dp' \<Longrightarrow> patched ep dp = patched ep' dp'"
  unfolding patched_def by simp

lemma patched_deq_quiet [simp]:
  "patched ep (DTail fb) = patched ep DIdle" "patched ep (DChk fb) = patched ep DIdle"
  "patched ep DRe = patched ep DIdle" "patched ep (DNext fb) = patched ep DIdle"
  "patched ep (DNextTail fb) = patched ep DIdle" "patched ep (DAdv fb i) = patched ep DIdle"
  "patched ep (DMove fb i) = patched ep DIdle"
  by (rule patched_cong, simp)+

lemma patched_enq_quiet [simp]:
  "patched (EFront tb m v) dp = patched EIdle dp" "patched (EPut tb i v) dp = patched EIdle dp"
  "patched (EChk tb m v) dp = patched EIdle dp" "patched (ENext tb v) dp = patched EIdle dp"
  "patched (EPutN tb i v) dp = patched EIdle dp" "patched (EAlloc tb v) dp = patched EIdle dp"
  "patched (ELink tb nb v) dp = patched EIdle dp" "patched (ETail tb) dp = patched EIdle dp"
  by (rule patched_cong, simp)+

lemma patched_put:
  assumes "G p = Some b" "\<And>x. x \<noteq> p \<Longrightarrow> patch ep' dp' x = patch ep dp x"
  shows "(patched ep dp G)(p \<mapsto> patch ep' dp' p b) = patched ep' dp' G"
proof
  fix x
  show "((patched ep dp G)(p \<mapsto> patch ep' dp' p b)) x = patched ep' dp' G x"
    using assms by (cases "x = p") (simp_all add: patched_def)
qed

lemma patched_publish:
  assumes "\<And>x. x \<noteq> p \<Longrightarrow> patch ep' dp' x = patch ep dp x"
  shows "(patched ep dp G)(p \<mapsto> patch ep' dp' p b) = patched ep' dp' (G(p \<mapsto> b))"
proof
  fix x
  show "((patched ep dp G)(p \<mapsto> patch ep' dp' p b)) x = patched ep' dp' (G(p \<mapsto> b)) x"
    using assms by (cases "x = p") (simp_all add: patched_def)
qed

end
