(* ===== verification/Rwq_Conc_Steps.thy ===== *)
theory Rwq_Conc_Steps
  imports Rwq_Conc
begin

unbundle bit_operations_syntax

text \<open>
  Every atomic step of the consumer and of the producer keeps the invariant of \<open>Rwq_Conc\<close>, so
  that it holds in every reachable state; the theorems on the interleaved queue follow.
\<close>

subsection \<open>Consumer steps keep the invariant\<close>

text \<open>The consumer refreshes the shadow tail of a block.\<close>

lemma deq_shadow:
  assumes c: "conc_at env st G bs vss k" and j: "j < length bs" and b: "b = blk G bs j"
    and pc: "dpc st \<noteq> DIdle" "dp' \<noteq> DIdle" "patch (epc st) dp' = patch (epc st) (dpc st)"
    and d: "dinv dp' (G(bs ! j \<mapsto> b\<lparr>localTail := tail b\<rparr>)) bs vss k"
  shows "get_block (mem st) (bs ! j) = Inr (patch (epc st) (dpc st) (bs ! j) b)"
    "conc_at env (st\<lparr>mem := (mem st)(bs ! j \<mapsto> (patch (epc st) (dpc st) (bs ! j) b)\<lparr>localTail := tail b\<rparr>), dpc := dp'\<rparr>)
       (G(bs ! j \<mapsto> b\<lparr>localTail := tail b\<rparr>)) bs vss k"
proof -
  have r: "ring_at env G (members st) bs vss k" and m: "mem st = patched (epc st) (dpc st) G"
    using c by (auto simp: conc_at_def)
  note B = ring_at_blk[OF r j, folded b]
  show "get_block (mem st) (bs ! j) = Inr (patch (epc st) (dpc st) (bs ! j) b)" unfolding m using patched_get[of G "bs ! j" b] B(1) by simp
  let ?b = "b\<lparr>localTail := tail b\<rparr>"
  have same: "same_block (blk G bs j) ?b" by (simp add: same_block_def b)
  have "ring_at env (G(bs ! j \<mapsto> ?b)) (members st) bs vss k"
    using ring_at_upd[OF r j block_rep_sync_tail[OF B(2)] same] by simp
  moreover have "cpart (G(bs ! j \<mapsto> ?b)) bs vss k (ahead (epc st))"
    using cpart_upd[OF _ r j, of _ ?b "vss ! j"] c b by (simp add: conc_at_def)
  moreover have "einv (epc st) (G(bs ! j \<mapsto> ?b)) bs vss k"
    using einv_upd[OF _ r j _ _ same, of _ "vss ! j"] c b by (simp add: conc_at_def)
  ultimately show "conc_at env (st\<lparr>mem := (mem st)(bs ! j \<mapsto> (patch (epc st) (dpc st) (bs ! j) b)\<lparr>localTail := tail b\<rparr>), dpc := dp'\<rparr>)
      (G(bs ! j \<mapsto> ?b)) bs vss k"
    using c d pc patched_cong[OF pc(3)] by (simp add: conc_at_def m patched_upd)
qed

lemma first_nonempty:
  assumes "cpart G bs vss k a" "0 < k" "ring_at env G q bs vss k"
  shows "1 < length bs" "vss ! 1 \<noteq> []"
proof -
  show l: "1 < length bs" using assms(1,2) by (auto simp: cpart_def)
  show "vss ! 1 \<noteq> []"
  proof (cases "k = 1")
    case True
    then show ?thesis using assms(1) by (auto simp: cpart_def)
  next
    case False
    then have "full G bs vss 1" using assms(1,2) by (auto simp: cpart_def)
    moreover have "1 < cap (blk G bs 1)" using block_shape_cap[OF block_rep_shape[OF ring_at_blk(2)[OF assms(3) l]]] .
    ultimately show ?thesis by auto
  qed
qed

lemma conc_atD:
  assumes "conc_at env st G bs vss k"
  shows "ring_at env G (members st) bs vss k" "mem st = patched (epc st) (dpc st) G"
    "cpart G bs vss k (ahead (epc st))" "einv (epc st) G bs vss k" "dinv (dpc st) G bs vss k"
    "0 < length bs" "k < length bs" "length vss = length bs" "ring_rep G bs vss"
    "frontBlock (members st) = bs ! 0" "tailBlock (members st) = bs ! k"
proof -
  show r: "ring_at env G (members st) bs vss k" and "mem st = patched (epc st) (dpc st) G"
    and "cpart G bs vss k (ahead (epc st))" and "einv (epc st) G bs vss k" and "dinv (dpc st) G bs vss k"
    using assms unfolding conc_at_def by blast+
  show "0 < length bs" "k < length bs" "length vss = length bs" "ring_rep G bs vss" using ring_at_rep[OF r] by blast+
  show "frontBlock (members st) = bs ! 0" "tailBlock (members st) = bs ! k" using r unfolding ring_at_def by blast+
qed

lemma conc_invI: "conc_at env st G bs vss k \<Longrightarrow> conc_inv env st"
  unfolding conc_inv_def by blast

lemma inv_DTail:
  assumes c: "conc_at env st G bs vss k" and pc: "dpc st = DTail fb"
  shows "\<exists>st'. deq_step (dpc st) st = Inr st' \<and> conc_inv env st'"
proof -
  note z = conc_atD(6)[OF c]
  have fb: "fb = bs ! 0" using conc_atD(5)[OF c] pc by simp
  define b where "b = blk G bs 0"
  let ?dp = "if front b \<noteq> tail b then DMove fb (front b) else DChk fb"
  have d: "dinv ?dp (G(bs ! 0 \<mapsto> b\<lparr>localTail := tail b\<rparr>)) bs vss k" by (simp add: fb)
  have q: "patch (epc st) ?dp = patch (epc st) (dpc st)" by (simp add: pc)
  have ne: "dpc st \<noteq> DIdle" "?dp \<noteq> DIdle" by (simp_all add: pc)
  note s = deq_shadow[OF c z b_def ne q d]
  show ?thesis using s(1) conc_invI[OF s(2)] pc by (simp add: fb split: if_splits)
qed

lemma inv_DRe:
  assumes c: "conc_at env st G bs vss k" and pc: "dpc st = DRe"
  shows "\<exists>st'. deq_step (dpc st) st = Inr st' \<and> conc_inv env st'"
proof -
  note z = conc_atD(6)[OF c]
  have fq: "frontBlock (members st) = bs ! 0" by (rule conc_atD(10)[OF c])
  define b where "b = blk G bs 0"
  let ?dp = "if front b \<noteq> tail b then DMove (bs ! 0) (front b) else DNext (bs ! 0)"
  have rep: "block_rep b (vss ! 0)" unfolding b_def by (rule ring_at_blk(2)[OF conc_atD(1)[OF c] z])
  have d: "dinv ?dp (G(bs ! 0 \<mapsto> b\<lparr>localTail := tail b\<rparr>)) bs vss k"
    using conc_atD(5)[OF c] pc front_eq_tail_iff[OF rep] by simp
  have q: "patch (epc st) ?dp = patch (epc st) (dpc st)" by (simp add: pc)
  have ne: "dpc st \<noteq> DIdle" "?dp \<noteq> DIdle" by (simp_all add: pc)
  note s = deq_shadow[OF c z b_def ne q d]
  show ?thesis using s(1) conc_invI[OF s(2)] pc by (simp add: fq Let_def split: if_splits)
qed

lemma inv_DNextTail:
  assumes c: "conc_at env st G bs vss k" and pc: "dpc st = DNextTail nb"
  shows "\<exists>st'. deq_step (dpc st) st = Inr st' \<and> conc_inv env st'"
proof -
  have D: "nb = bs ! 1" "0 < k" "vss ! 0 = []" using conc_atD(5)[OF c] pc by auto
  note n1 = first_nonempty[OF conc_atD(3)[OF c] D(2) conc_atD(1)[OF c]]
  define b where "b = blk G bs 1"
  have rep: "block_rep b (vss ! 1)" unfolding b_def by (rule ring_at_blk(2)[OF conc_atD(1)[OF c] n1(1)])
  then have ft: "front b \<noteq> tail b" using front_eq_tail_iff n1(2) by blast
  have d: "dinv (DAdv nb (front b)) (G(bs ! 1 \<mapsto> b\<lparr>localTail := tail b\<rparr>)) bs vss k" using D ft by simp
  have q: "patch (epc st) (DAdv nb (front b)) = patch (epc st) (dpc st)" by (simp add: pc)
  have ne: "dpc st \<noteq> DIdle" "DAdv nb (front b) \<noteq> DIdle" by (simp_all add: pc)
  note s = deq_shadow[OF c n1(1) b_def ne q d]
  show ?thesis using s(1) conc_invI[OF s(2)] pc ft by (simp add: D(1))
qed

text \<open>Steps that only move the consumer on.\<close>

lemma deq_move_on:
  assumes c: "conc_at env st G bs vss k" and d: "dinv dp' G bs vss k" "patch (epc st) dp' = patch (epc st) (dpc st)"
    and ne: "dpc st \<noteq> DIdle" "dp' \<noteq> DIdle"
  shows "conc_inv env (st\<lparr>dpc := dp'\<rparr>)"
proof -
  have "conc_at env (st\<lparr>dpc := dp'\<rparr>) G bs vss k"
    using c d ne patched_cong[OF d(2)] by (simp add: conc_at_def)
  then show ?thesis by (rule conc_invI)
qed

lemma inv_deq_return:
  assumes c: "conc_at env st G bs vss k" and q: "patch (epc st) (dpc st) = patch (epc st) DIdle"
  shows "conc_at env (deq_return st) G bs vss k"
  using c patched_cong[OF q] by (simp add: conc_at_def deq_return_def ring_at_def)

lemma inv_DChk:
  assumes c: "conc_at env st G bs vss k" and pc: "dpc st = DChk fb"
  shows "\<exists>st'. deq_step (dpc st) st = Inr st' \<and> conc_inv env st'"
proof (cases "fb = tailBlock (members st)")
  case True
  then show ?thesis using conc_invI[OF inv_deq_return[OF c]] pc by simp
next
  case False
  have "0 < k" using False conc_atD(5)[OF c] conc_atD(11)[OF c] pc by (cases k) auto
  then have "conc_inv env (st\<lparr>dpc := DRe\<rparr>)" by (intro deq_move_on[OF c]) (simp_all add: pc)
  then show ?thesis using pc False by simp
qed

lemma inv_DNext:
  assumes c: "conc_at env st G bs vss k" and pc: "dpc st = DNext fb"
  shows "\<exists>st'. deq_step (dpc st) st = Inr st' \<and> conc_inv env st'"
proof -
  have D: "fb = bs ! 0" "0 < k" "vss ! 0 = []" using conc_atD(5)[OF c] pc by auto
  note B = ring_at_blk[OF conc_atD(1)[OF c] conc_atD(6)[OF c]]
  have "1 < length bs" using D(2) conc_atD(7)[OF c] by simp
  then have "nextB (blk G bs 0) = bs ! 1" using B(3) by simp
  moreover have "get_block (mem st) fb = Inr (patch (epc st) (dpc st) fb (blk G bs 0))"
    unfolding conc_atD(2)[OF c] D(1) using patched_get[of G "bs ! 0" "blk G bs 0"] B(1) by simp
  moreover have "conc_inv env (st\<lparr>dpc := DNextTail (bs ! 1)\<rparr>)"
    using D by (intro deq_move_on[OF c]) (simp_all add: pc)
  ultimately show ?thesis using pc by simp
qed

text \<open>The consumer moves on to the next block: the ring is read from there.\<close>

lemma rotate1_nth:
  assumes "length xs = n"
  shows "Suc i < n \<Longrightarrow> rotate1 xs ! i = xs ! Suc i" "Suc i = n \<Longrightarrow> rotate1 xs ! i = xs ! 0"
  using assms nth_rotate1_Suc[of i xs] nth_rotate1_last[of i xs] by auto

lemma cpart_rotate1:
  assumes c: "cpart G bs vss k a" and k: "0 < k" and e: "vss ! 0 = []" and len: "length vss = length bs"
  shows "cpart G (rotate1 bs) (rotate1 vss) (k - 1) a"
proof -
  note B = rotate1_nth[OF refl, of _ bs] and V = rotate1_nth[OF len]
  have kl: "k < length bs" using c by (simp add: cpart_def)
  have f: "full G (rotate1 bs) (rotate1 vss) i" if i: "0 < i" "i < k - 1" for i
  proof -
    have "Suc i < length bs" "full G bs vss (Suc i)" using i kl c by (auto simp: cpart_def)
    then show ?thesis using B(1) V(1) by simp
  qed
  have t: "rotate1 vss ! (k - 1) = vss ! k" using V(1)[of "k - 1"] k kl by simp
  have n: "rotate1 vss ! Suc (k - 1) = vss ! Suc k" if "Suc k < length bs" using V(1)[of k] that k by simp
  have em: "rotate1 vss ! i = []" if i: "(if a then k else k - 1) < i" "i < length bs" for i
  proof (cases "Suc i = length bs")
    case True
    then show ?thesis using V(2) e by simp
  next
    case False
    then have "Suc i < length bs" using i by simp
    moreover have "(if a then Suc k else k) < Suc i" using i(1) k by (auto split: if_splits)
    ultimately show ?thesis using V(1) c by (auto simp: cpart_def split: if_splits)
  qed
  show ?thesis using c f t n em k kl by (auto simp: cpart_def split: if_splits)
qed

lemma einv_rotate1:
  assumes e: "einv pc G bs vss k" and k: "0 < k" "k < length bs" and len: "length vss = length bs"
  shows "einv pc G (rotate1 bs) (rotate1 vss) (k - 1)"
proof -
  have t: "rotate1 bs ! (k - 1) = bs ! k" "rotate1 vss ! (k - 1) = vss ! k"
    using rotate1_nth(1)[OF refl, of "k - 1" bs] rotate1_nth(1)[OF len, of "k - 1"] k by simp_all
  have n: "rotate1 bs ! k = bs ! Suc k" if "Suc k < length bs" using rotate1_nth(1)[OF refl, of k bs] that by simp
  show ?thesis using e t n k by (cases pc) auto
qed

lemma inv_DAdv:
  assumes c: "conc_at env st G bs vss k" and pc: "dpc st = DAdv nb i"
  shows "\<exists>st'. deq_step (dpc st) st = Inr st' \<and> conc_inv env st'"
proof -
  have D: "nb = bs ! 1" "0 < k" "vss ! 0 = []" "i = front (blk G bs 1)" "i \<noteq> localTail (blk G bs 1)"
    using conc_atD(5)[OF c] pc by auto
  note kl = conc_atD(7)[OF c] and len = conc_atD(8)[OF c]
  have n: "rotate1 bs ! 0 = bs ! 1" "rotate1 bs ! (k - 1) = bs ! k"
    using rotate1_nth(1)[OF refl, of 0 bs] rotate1_nth(1)[OF refl, of "k - 1" bs] D(2) kl by simp_all
  have v: "concat (rotate1 vss) = concat vss" using concat_rotate1_empty[OF _ D(3)] conc_atD(6)[OF c] len by fastforce
  let ?st = "st\<lparr>members := (members st)\<lparr>frontBlock := nb\<rparr>, dpc := DMove nb i\<rparr>"
  have "ring_at env G (members ?st) (rotate1 bs) (rotate1 vss) (k - 1)"
    using conc_atD(1)[OF c] ring_rep_rotate1[of G bs vss] kl n by (auto simp: ring_at_def D(1))
  then have "conc_at env ?st G (rotate1 bs) (rotate1 vss) (k - 1)"
    using c cpart_rotate1[OF conc_atD(3)[OF c] D(2,3) len] einv_rotate1[OF conc_atD(4)[OF c] D(2) kl len] D n v pc
    by (simp add: conc_at_def)
  then show ?thesis using conc_invI pc by (metis deq_step.simps(7))
qed

text \<open>The slot the consumer takes is not the one the producer fills.\<close>

lemma front_slot_apart:
  assumes c: "conc_at env st G bs vss k" and ne: "vss ! 0 \<noteq> []"
  shows "eslot (epc st) (bs ! 0) = id \<or> (\<exists>j x. eslot (epc st) (bs ! 0) = set_slot j x \<and> unat j \<noteq> unat (front (blk G bs 0)))"
proof -
  have rep: "block_rep (blk G bs 0) (vss ! 0)" by (rule ring_at_blk(2)[OF conc_atD(1)[OF c] conc_atD(6)[OF c]])
  then have ft: "unat (tail (blk G bs 0)) \<noteq> unat (front (blk G bs 0))"
    using front_eq_tail_iff ne by (metis word_unat_eq_iff)
  have dist: "bs ! Suc k \<noteq> bs ! 0" if "Suc k < length bs"
    using conc_atD(9)[OF c] that by (auto simp: ring_rep_def nth_eq_iff_index_eq)
  have k0: "k = 0" if "bs ! 0 = bs ! k"
    using that conc_atD(9)[OF c] conc_atD(6,7)[OF c] by (auto simp: ring_rep_def nth_eq_iff_index_eq)
  show ?thesis using conc_atD(4)[OF c] ft dist k0
    by (cases "epc st") (auto simp: eslot_def)
qed

lemma inv_DMove:
  assumes c: "conc_at env st G bs vss k" and pc: "dpc st = DMove fb i"
  shows "\<exists>st'. deq_step (dpc st) st = Inr st' \<and> conc_inv env st'"
proof -
  let ?b = "blk G bs 0" and ?ep = "epc st"
  have D: "fb = bs ! 0" "i = front ?b" "i \<noteq> localTail ?b" using conc_atD(5)[OF c] pc by auto
  note B = ring_at_blk[OF conc_atD(1)[OF c] conc_atD(6)[OF c]]
  have "vss ! 0 \<noteq> []" using front_neq_localTail[OF B(2)] D by auto
  then obtain v ws where v: "vss ! 0 = v # ws" by (cases "vss ! 0") auto
  have il: "unat i < cap ?b" using B(2) D(2) by (simp add: block_rep_def block_shape_def)
  have "slots ?b ! unat i = Some v"
    using B(2) v D(2) il by (auto simp: block_rep_def slots_ok_def dest!: spec[of _ 0])
  then have "slots (eslot ?ep fb ?b) ! unat i = Some v"
    using front_slot_apart[OF c] v D by (auto simp: set_slot_def)
  then have mo: "move_out (patch ?ep DIdle fb ?b) i = Inr (v, patch ?ep (DPub fb i v) fb ?b)"
    using il by (auto simp: move_out_def patch_def dslot_def set_slot_def eslot_def split: enq_pc.splits)
  have g: "get_block (mem st) fb = Inr (patch ?ep DIdle fb ?b)"
    unfolding conc_atD(2)[OF c] D(1) using patched_get[of G "bs ! 0" ?b] B(1) pc by simp
  have m: "(mem st)(fb \<mapsto> patch ?ep (DPub fb i v) fb ?b) = patched ?ep (DPub fb i v) G"
    unfolding conc_atD(2)[OF c] pc D(1)
    by (rule patched_put) (rule B(1), simp add: patch_def dslot_def fun_eq_iff)
  have "conc_at env (st\<lparr>mem := (mem st)(fb \<mapsto> patch ?ep (DPub fb i v) fb ?b), dpc := DPub fb i v\<rparr>) G bs vss k"
    using c pc v m D by (simp add: conc_at_def)
  then show ?thesis using conc_invI g mo pc by simp
qed

lemma set_slot_commute:
  "unat i \<noteq> unat j \<Longrightarrow> set_slot i x (set_slot j y b) = set_slot j y (set_slot i x b)"
  by (simp add: set_slot_def list_update_swap)

lemma inv_DPub:
  assumes c: "conc_at env st G bs vss k" and pc: "dpc st = DPub fb i v"
  shows "\<exists>st'. deq_step (dpc st) st = Inr st' \<and> conc_inv env st'"
proof -
  let ?b = "blk G bs 0" and ?ep = "epc st"
  obtain ws where D: "fb = bs ! 0" "i = front ?b" "i \<noteq> localTail ?b" "vss ! 0 = v # ws" using conc_atD(5)[OF c] pc by auto
  note z = conc_atD(6)[OF c] and r = conc_atD(1)[OF c] and len = conc_atD(8)[OF c]
  note B = ring_at_blk[OF r z]
  obtain b' where mo: "move_out ?b (front ?b) = Inr (v, b')" and b': "block_rep (b'\<lparr>front := advance ?b (front ?b)\<rparr>) ws"
    "nextB b' = nextB ?b" "rawThis b' = rawThis ?b" "sizeMask b' = sizeMask ?b" "cap b' = cap ?b"
    using block_rep_pop[OF B(2)[unfolded D(4)]] D(2,3) by blast
  have b'_eq: "b' = set_slot i None ?b" using move_out_shape(1)[OF mo] D(2) by (simp add: set_slot_def)
  let ?b' = "b'\<lparr>front := advance ?b i\<rparr>" let ?G = "G(bs ! 0 \<mapsto> ?b')"
  have same: "same_block ?b ?b'" using b' by (simp add: same_block_def)
  have p: "(patch ?ep (DPub fb i v) fb ?b)\<lparr>front := advance ?b i\<rparr> = patch ?ep DIdle fb ?b'"
  proof -
    have "set_slot i None (eslot ?ep fb ?b) = eslot ?ep fb (set_slot i None ?b)"
      using front_slot_apart[OF c] D by (auto intro!: set_slot_commute)
    then show ?thesis unfolding b'_eq
      by (auto simp: patch_def dslot_def eslot_def set_slot_def split: enq_pc.splits)
  qed
  have g: "get_block (mem st) fb = Inr (patch ?ep (DPub fb i v) fb ?b)"
    unfolding conc_atD(2)[OF c] pc using patched_get[of G "bs ! 0" ?b] B(1) D(1) by simp
  have "(patched ?ep (DPub fb i v) G)(fb \<mapsto> patch ?ep DIdle fb ?b') = patched ?ep DIdle ?G"
    unfolding D(1) by (rule patched_publish) (simp add: patch_def dslot_def fun_eq_iff)
  then have m: "(mem st)(fb \<mapsto> (patch ?ep (DPub fb i v) fb ?b)\<lparr>front := advance ?b i\<rparr>) = patched ?ep DIdle ?G"
    unfolding conc_atD(2)[OF c] pc p .
  have "ring_at env ?G (members st) bs (vss[0 := ws]) k" using ring_at_upd[OF r z _ same] b'(1) D(2) by simp
  moreover have "cpart ?G bs (vss[0 := ws]) k (ahead ?ep)"
    using cpart_upd[OF conc_atD(3)[OF c] r z, of ?b' ws] b'(5) by simp
  moreover have "einv ?ep ?G bs (vss[0 := ws]) k"
    using einv_upd[OF conc_atD(4)[OF c] r z _ _ same, of ws] b'_eq by simp
  moreover have "concat vss = v # concat (vss[0 := ws])" using concat_update_first[of vss v ws] D(4) z len by fastforce
  ultimately have "conc_at env (deq_return (st\<lparr>mem := patched ?ep DIdle ?G, out_log := out_log st @ [v]\<rparr>)) ?G bs (vss[0 := ws]) k"
    using c by (simp add: conc_at_def deq_return_def ring_at_def)
  then show ?thesis using conc_invI g m pc by simp
qed

lemma inv_deq_start:
  assumes c: "conc_at env st G bs vss k" and pc: "dpc st = DIdle"
  shows "\<exists>st'. deq_start st = Inr st' \<and> conc_inv env st'"
proof -
  let ?b = "blk G bs 0"
  let ?dp = "if front ?b \<noteq> localTail ?b then DMove (bs ! 0) (front ?b) else DTail (bs ! 0)"
  let ?st = "st\<lparr>members := (members st)\<lparr>dequeuing := True\<rparr>, dpc := ?dp\<rparr>"
  note B = ring_at_blk[OF conc_atD(1)[OF c] conc_atD(6)[OF c]]
  have g: "get_block (mem st) (bs ! 0) = Inr (patch (epc st) DIdle (bs ! 0) ?b)"
    unfolding conc_atD(2)[OF c] using patched_get[of G "bs ! 0" ?b] B(1) pc by simp
  have "conc_at env ?st G bs vss k" using c pc by (simp add: conc_at_def ring_at_def)
  moreover have "deq_start st = Inr ?st"
    using c pc g conc_atD(10)[OF c] by (simp add: deq_start_def Let_def conc_at_def)
  ultimately show ?thesis using conc_invI by blast
qed

lemma inv_deq_step:
  assumes c: "conc_at env st G bs vss k" and pc: "dpc st \<noteq> DIdle"
  shows "\<exists>st'. deq_step (dpc st) st = Inr st' \<and> conc_inv env st'"
proof (cases "dpc st")
  case DIdle
  then show ?thesis using pc by simp
qed (erule inv_DTail[OF c] inv_DChk[OF c] inv_DRe[OF c] inv_DNext[OF c] inv_DNextTail[OF c] inv_DAdv[OF c]
    inv_DMove[OF c] inv_DPub[OF c])+

subsection \<open>Producer steps keep the invariant\<close>

text \<open>The producer refreshes the shadow front of a block.\<close>

lemma enq_shadow:
  assumes c: "conc_at env st G bs vss k" and j: "j < length bs" and b: "b = blk G bs j"
    and pc: "epc st \<noteq> EIdle" "ep' \<noteq> EIdle" "patch ep' (dpc st) = patch (epc st) (dpc st)" "ahead ep' = ahead (epc st)"
    and e: "einv ep' (G(bs ! j \<mapsto> b\<lparr>localFront := front b\<rparr>)) bs vss k"
  shows "get_block (mem st) (bs ! j) = Inr (patch (epc st) (dpc st) (bs ! j) b)"
    "conc_at env (st\<lparr>mem := (mem st)(bs ! j \<mapsto> (patch (epc st) (dpc st) (bs ! j) b)\<lparr>localFront := front b\<rparr>), epc := ep'\<rparr>)
       (G(bs ! j \<mapsto> b\<lparr>localFront := front b\<rparr>)) bs vss k"
proof -
  note r = conc_atD(1)[OF c] and m = conc_atD(2)[OF c]
  note B = ring_at_blk[OF r j, folded b]
  show "get_block (mem st) (bs ! j) = Inr (patch (epc st) (dpc st) (bs ! j) b)"
    unfolding m using patched_get[of G "bs ! j" b] B(1) by simp
  let ?b = "b\<lparr>localFront := front b\<rparr>"
  have same: "same_block (blk G bs j) ?b" by (simp add: same_block_def b)
  have "ring_at env (G(bs ! j \<mapsto> ?b)) (members st) bs vss k"
    using ring_at_upd[OF r j block_rep_sync_front[OF B(2)] same] by simp
  moreover have "cpart (G(bs ! j \<mapsto> ?b)) bs vss k (ahead (epc st))"
    using cpart_upd[OF conc_atD(3)[OF c] r j, of ?b "vss ! j"] b by simp
  moreover have "dinv (dpc st) (G(bs ! j \<mapsto> ?b)) bs vss k"
    using dinv_upd[OF conc_atD(5)[OF c] r j, of ?b "[]"] b by simp
  ultimately show "conc_at env (st\<lparr>mem := (mem st)(bs ! j \<mapsto> (patch (epc st) (dpc st) (bs ! j) b)\<lparr>localFront := front b\<rparr>), epc := ep'\<rparr>)
      (G(bs ! j \<mapsto> ?b)) bs vss k"
    using c e pc patched_cong[OF pc(3)] by (simp add: conc_at_def m patched_upd)
qed

lemma inv_EFront:
  assumes c: "conc_at env st G bs vss k" and pc: "epc st = EFront tb m v"
  shows "\<exists>st'. enq_step env (epc st) st = Inr st' \<and> conc_inv env st'"
proof -
  note kl = conc_atD(7)[OF c]
  have tb: "tb = bs ! k" using conc_atD(4)[OF c] pc by simp
  define b where "b = blk G bs k"
  have rep: "block_rep b (vss ! k)" unfolding b_def by (rule ring_at_blk(2)[OF conc_atD(1)[OF c] kl])
  let ?ep = "if advance b (tail b) \<noteq> front b then EPut tb (tail b) v else EChk tb m v"
  have adv: "advance (b\<lparr>localFront := x\<rparr>) = advance b" for x by (simp add: advance_def fun_eq_iff)
  have e: "einv ?ep (G(bs ! k \<mapsto> b\<lparr>localFront := front b\<rparr>)) bs vss k"
    using tb advance_tail_eq_front_iff[OF rep] by (simp add: adv)
  have q: "patch ?ep (dpc st) = patch (epc st) (dpc st)" "ahead ?ep = ahead (epc st)" by (simp_all add: pc ahead_def)
  have ne: "epc st \<noteq> EIdle" "?ep \<noteq> EIdle" by (simp_all add: pc)
  note s = enq_shadow[OF c kl b_def ne q e]
  show ?thesis using s(1) conc_invI[OF s(2)] pc by (simp add: tb split: if_splits)
qed

lemma inv_ENext:
  assumes c: "conc_at env st G bs vss k" and pc: "epc st = ENext nb v"
  shows "\<exists>st'. enq_step env (epc st) st = Inr st' \<and> conc_inv env st'"
proof -
  have E: "Suc k < length bs" "nb = bs ! Suc k" "0 < k \<longrightarrow> full G bs vss k" using conc_atD(4)[OF c] pc by auto
  define b where "b = blk G bs (Suc k)"
  have "vss ! Suc k = []" using conc_atD(3)[OF c] E(1) pc by (simp add: cpart_def ahead_def)
  then have ft: "front b = tail b"
    using front_eq_tail_iff[OF ring_at_blk(2)[OF conc_atD(1)[OF c] E(1)]] by (simp add: b_def)
  have ne: "bs ! k \<noteq> bs ! Suc k" using conc_atD(7,9)[OF c] E(1) by (auto simp: ring_rep_def nth_eq_iff_index_eq)
  have e: "einv (EPutN nb (tail b) v) (G(bs ! Suc k \<mapsto> b\<lparr>localFront := front b\<rparr>)) bs vss k" using E ft ne by simp
  have q: "patch (EPutN nb (tail b) v) (dpc st) = patch (epc st) (dpc st)" "ahead (EPutN nb (tail b) v) = ahead (epc st)"
    by (simp_all add: pc ahead_def)
  have nd: "epc st \<noteq> EIdle" "EPutN nb (tail b) v \<noteq> EIdle" by (simp_all add: pc)
  note s = enq_shadow[OF c E(1) b_def nd q e]
  show ?thesis using s(1) conc_invI[OF s(2)] pc ft by (simp add: E(2))
qed

text \<open>The slot the producer fills is not the one the consumer empties.\<close>

lemma tail_slot_apart:
  assumes c: "conc_at env st G bs vss k" and j: "j < length bs"
  shows "dslot (dpc st) (bs ! j) = id \<or>
    (\<exists>i x. dslot (dpc st) (bs ! j) = set_slot i x \<and> unat i \<noteq> unat (tail (blk G bs j)))"
proof (cases "dpc st")
  case (DPub fb i v)
  then obtain ws where D: "fb = bs ! 0" "i = front (blk G bs 0)" "vss ! 0 = v # ws" using conc_atD(5)[OF c] by auto
  show ?thesis
  proof (cases "j = 0")
    case True
    have "front (blk G bs 0) \<noteq> tail (blk G bs 0)"
      using front_eq_tail_iff[OF ring_at_blk(2)[OF conc_atD(1)[OF c] conc_atD(6)[OF c]]] D(3) by simp
    then show ?thesis using DPub D True by (auto simp: dslot_def word_unat_eq_iff)
  next
    case False
    then have "bs ! j \<noteq> bs ! 0" using conc_atD(6,9)[OF c] j by (auto simp: ring_rep_def nth_eq_iff_index_eq)
    then show ?thesis using DPub D by (simp add: dslot_def)
  qed
qed (simp_all add: dslot_def)

lemma enq_put:
  assumes c: "conc_at env st G bs vss k" and j: "j < length bs" and i: "i = tail (blk G bs j)"
    and pc: "patch (epc st) (dpc st) = patch EIdle (dpc st)" "eslot ep' (bs ! j) = set_slot i (Some v)"
      "\<And>x. x \<noteq> bs ! j \<Longrightarrow> eslot ep' x = id"
  shows "get_block (mem st) (bs ! j) = Inr (patch EIdle (dpc st) (bs ! j) (blk G bs j))"
    "construct_at (patch EIdle (dpc st) (bs ! j) (blk G bs j)) i v = Inr (patch ep' (dpc st) (bs ! j) (blk G bs j))"
    "(mem st)(bs ! j \<mapsto> patch ep' (dpc st) (bs ! j) (blk G bs j)) = patched ep' (dpc st) G"
proof -
  let ?b = "blk G bs j"
  note B = ring_at_blk[OF conc_atD(1)[OF c] j]
  have m: "mem st = patched EIdle (dpc st) G" using conc_atD(2)[OF c] patched_cong[OF pc(1)] by simp
  show "get_block (mem st) (bs ! j) = Inr (patch EIdle (dpc st) (bs ! j) ?b)"
    unfolding m using patched_get[of G "bs ! j" ?b] B(1) by simp
  have il: "unat i < cap ?b" using B(2) i by (simp add: block_rep_def block_shape_def)
  have "set_slot i (Some v) (dslot (dpc st) (bs ! j) ?b) = dslot (dpc st) (bs ! j) (set_slot i (Some v) ?b)"
    using tail_slot_apart[OF c j] i by (auto intro!: set_slot_commute)
  then show "construct_at (patch EIdle (dpc st) (bs ! j) ?b) i v = Inr (patch ep' (dpc st) (bs ! j) ?b)"
    using il pc(2) by (simp add: construct_at_def patch_def eslot_def[of EIdle] set_slot_def dslot_def split: deq_pc.splits)
  show "(mem st)(bs ! j \<mapsto> patch ep' (dpc st) (bs ! j) ?b) = patched ep' (dpc st) G"
    unfolding m by (rule patched_put) (rule B(1), simp add: patch_def eslot_def[of EIdle] pc(3) fun_eq_iff)
qed

lemma inv_EPut:
  assumes c: "conc_at env st G bs vss k" and pc: "epc st = EPut tb i v"
  shows "\<exists>st'. enq_step env (epc st) st = Inr st' \<and> conc_inv env st'"
proof -
  have E: "tb = bs ! k" "i = tail (blk G bs k)" using conc_atD(4)[OF c] pc by auto
  note p = enq_put[OF c conc_atD(7)[OF c] E(2), of "EPub tb i v"]
  have "patch (epc st) (dpc st) = patch EIdle (dpc st)" "eslot (EPub tb i v) (bs ! k) = set_slot i (Some v)"
    "\<And>x. x \<noteq> bs ! k \<Longrightarrow> eslot (EPub tb i v) x = id" using E(1) by (simp_all add: pc eslot_def)
  note p = p[OF this]
  have "einv (EPub tb i v) G bs vss k" using conc_atD(4)[OF c] pc by auto
  then have "conc_at env (st\<lparr>mem := patched (EPub tb i v) (dpc st) G, epc := EPub tb i v\<rparr>) G bs vss k"
    using c unfolding conc_at_def by (simp add: pc ahead_def)
  then show ?thesis using conc_invI p pc E(1) by simp
qed

lemma inv_EPutN:
  assumes c: "conc_at env st G bs vss k" and pc: "epc st = EPutN nb i v"
  shows "\<exists>st'. enq_step env (epc st) st = Inr st' \<and> conc_inv env st'"
proof -
  have E: "nb = bs ! Suc k" "i = tail (blk G bs (Suc k))" "Suc k < length bs" using conc_atD(4)[OF c] pc by auto
  note p = enq_put[OF c E(3,2), of "EPubN nb i v"]
  have "patch (epc st) (dpc st) = patch EIdle (dpc st)" "eslot (EPubN nb i v) (bs ! Suc k) = set_slot i (Some v)"
    "\<And>x. x \<noteq> bs ! Suc k \<Longrightarrow> eslot (EPubN nb i v) x = id" using E(1) by (simp_all add: pc eslot_def)
  note p = p[OF this]
  have "conc_at env (st\<lparr>mem := patched (EPubN nb i v) (dpc st) G, epc := EPubN nb i v\<rparr>) G bs vss k"
    using c pc by (simp add: conc_at_def ahead_def)
  then show ?thesis using conc_invI p pc E(1) by simp
qed

text \<open>Publishing the element: the store to \<^verbatim>\<open>tail\<close>.\<close>

lemma enq_publish:
  assumes c: "conc_at env st G bs vss k" and j: "j < length bs" and i: "i = tail (blk G bs j)"
    and ne: "advance (blk G bs j) i \<noteq> localFront (blk G bs j)" and kj: "0 < k \<longrightarrow> j \<noteq> 0"
    and pc: "eslot (epc st) (bs ! j) = set_slot i (Some v)" "\<And>x. x \<noteq> bs ! j \<Longrightarrow> eslot (epc st) x = id"
  shows "\<exists>b'. get_block (mem st) (bs ! j) = Inr (patch (epc st) (dpc st) (bs ! j) (blk G bs j)) \<and>
    (mem st)(bs ! j \<mapsto> (patch (epc st) (dpc st) (bs ! j) (blk G bs j))\<lparr>tail := advance (blk G bs j) i\<rparr>) =
      patched EIdle (dpc st) (G(bs ! j \<mapsto> b')) \<and>
    ring_at env (G(bs ! j \<mapsto> b')) (members st) bs (vss[j := vss ! j @ [v]]) k \<and>
    dinv (dpc st) (G(bs ! j \<mapsto> b')) bs (vss[j := vss ! j @ [v]]) k \<and> cap b' = cap (blk G bs j)"
proof -
  let ?b = "blk G bs j"
  note r = conc_atD(1)[OF c]
  note B = ring_at_blk[OF r j]
  obtain b1 where co: "construct_at ?b (tail ?b) v = Inr b1" and b1: "block_rep (b1\<lparr>tail := advance ?b (tail ?b)\<rparr>) (vss ! j @ [v])"
    "nextB b1 = nextB ?b" "rawThis b1 = rawThis ?b" "sizeMask b1 = sizeMask ?b" "cap b1 = cap ?b"
    using block_rep_push[OF B(2)] ne i by blast
  have b1_eq: "b1 = set_slot i (Some v) ?b" using co i by (auto simp: construct_at_def set_slot_def split: if_splits)
  let ?b' = "b1\<lparr>tail := advance ?b i\<rparr>"
  have "(patch (epc st) (dpc st) (bs ! j) ?b)\<lparr>tail := advance ?b i\<rparr> = patch EIdle (dpc st) (bs ! j) ?b'"
    unfolding b1_eq by (simp add: patch_def pc(1) eslot_def[of EIdle] dslot_def set_slot_def split: deq_pc.splits)
  moreover have "(patched (epc st) (dpc st) G)(bs ! j \<mapsto> patch EIdle (dpc st) (bs ! j) ?b') = patched EIdle (dpc st) (G(bs ! j \<mapsto> ?b'))"
    by (rule patched_publish) (simp add: patch_def pc(2) eslot_def[of EIdle] fun_eq_iff)
  moreover have "get_block (mem st) (bs ! j) = Inr (patch (epc st) (dpc st) (bs ! j) ?b)"
    unfolding conc_atD(2)[OF c] using patched_get[of G "bs ! j" ?b] B(1) by simp
  moreover have "ring_at env (G(bs ! j \<mapsto> ?b')) (members st) bs (vss[j := vss ! j @ [v]]) k"
    by (rule ring_at_upd[OF r j]) (use b1 i in \<open>simp_all add: same_block_def\<close>)
  moreover have "dinv (dpc st) (G(bs ! j \<mapsto> ?b')) bs (vss[j := vss ! j @ [v]]) k"
    by (rule dinv_upd[OF conc_atD(5)[OF c] r j]) (use kj b1_eq in simp_all)
  ultimately show ?thesis using b1(5) conc_atD(2)[OF c] by (intro exI[of _ ?b']) simp
qed

lemma cpart_nth:
  assumes "cpart G bs vss k a" and r: "ring_rep G bs vss" and j: "j < length bs" and b: "cap b = cap (blk G bs j)"
  shows "\<And>i. i < length bs \<Longrightarrow> cap (blk (G(bs ! j \<mapsto> b)) bs i) = cap (blk G bs i)"
    "\<And>i. i < length bs \<Longrightarrow> vss[j := vs] ! i = (if i = j then vs else vss ! i)"
  using b j ring_rep_length[OF r] blk_upd[OF r _ j, of _ b] by (auto simp: nth_list_update)

lemma inv_EPub:
  assumes c: "conc_at env st G bs vss k" and pc: "epc st = EPub tb i v"
  shows "\<exists>st'. enq_step env (epc st) st = Inr st' \<and> conc_inv env st'"
proof -
  note kl = conc_atD(7)[OF c] and cp = conc_atD(3)[OF c] and r = conc_atD(9)[OF c]
  have E: "tb = bs ! k" "i = tail (blk G bs k)" "advance (blk G bs k) i \<noteq> localFront (blk G bs k)"
    using conc_atD(4)[OF c] pc by auto
  have es: "eslot (epc st) (bs ! k) = set_slot i (Some v)" "\<And>x. x \<noteq> bs ! k \<Longrightarrow> eslot (epc st) x = id"
    using E(1) pc by (simp_all add: eslot_def)
  obtain b' where p: "get_block (mem st) (bs ! k) = Inr (patch (epc st) (dpc st) (bs ! k) (blk G bs k))"
    "(mem st)(bs ! k \<mapsto> (patch (epc st) (dpc st) (bs ! k) (blk G bs k))\<lparr>tail := advance (blk G bs k) i\<rparr>) =
      patched EIdle (dpc st) (G(bs ! k \<mapsto> b'))"
    "ring_at env (G(bs ! k \<mapsto> b')) (members st) bs (vss[k := vss ! k @ [v]]) k"
    "dinv (dpc st) (G(bs ! k \<mapsto> b')) bs (vss[k := vss ! k @ [v]]) k" "cap b' = cap (blk G bs k)"
    using enq_publish[OF c kl E(2,3) _ es] by auto
  note n = cpart_nth[OF cp r kl p(5)]
  have "cpart (G(bs ! k \<mapsto> b')) bs (vss[k := vss ! k @ [v]]) k (ahead EIdle)"
    using cp n kl pc unfolding cpart_def by (auto simp: ahead_def)
  moreover have "concat (vss[k := vss ! k @ [v]]) = concat vss @ [v]"
    using cp kl conc_atD(8)[OF c] pc by (intro concat_update_last) (auto simp: cpart_def ahead_def)
  ultimately have "conc_at env (enq_return (st\<lparr>mem := patched EIdle (dpc st) (G(bs ! k \<mapsto> b')), in_log := in_log st @ [v]\<rparr>))
      (G(bs ! k \<mapsto> b')) bs (vss[k := vss ! k @ [v]]) k"
    using c p(3,4) by (simp add: conc_at_def enq_return_def ring_at_def)
  then show ?thesis using conc_invI p(1,2) pc E(1) by simp
qed

lemma inv_EPubN:
  assumes c: "conc_at env st G bs vss k" and pc: "epc st = EPubN nb i v"
  shows "\<exists>st'. enq_step env (epc st) st = Inr st' \<and> conc_inv env st'"
proof -
  note cp = conc_atD(3)[OF c] and r = conc_atD(9)[OF c] and kl = conc_atD(7)[OF c]
  have E: "nb = bs ! Suc k" "i = tail (blk G bs (Suc k))" "localFront (blk G bs (Suc k)) = i" "Suc k < length bs"
    "0 < k \<longrightarrow> full G bs vss k" using conc_atD(4)[OF c] pc by auto
  have em: "vss ! Suc k = []" using cp pc E(4) by (simp add: cpart_def ahead_def)
  have rep: "block_rep (blk G bs (Suc k)) []" using ring_at_blk(2)[OF conc_atD(1)[OF c] E(4)] em by simp
  have "front (blk G bs (Suc k)) = tail (blk G bs (Suc k))" using front_eq_tail_iff[OF rep] by simp
  then have ne: "advance (blk G bs (Suc k)) i \<noteq> localFront (blk G bs (Suc k))"
    using advance_tail_eq_front_iff[OF rep] block_shape_cap[OF block_rep_shape[OF rep]] E(2,3) by simp
  have es: "eslot (epc st) (bs ! Suc k) = set_slot i (Some v)" "\<And>x. x \<noteq> bs ! Suc k \<Longrightarrow> eslot (epc st) x = id"
    using E(1) pc by (simp_all add: eslot_def)
  obtain b' where p: "get_block (mem st) (bs ! Suc k) = Inr (patch (epc st) (dpc st) (bs ! Suc k) (blk G bs (Suc k)))"
    "(mem st)(bs ! Suc k \<mapsto> (patch (epc st) (dpc st) (bs ! Suc k) (blk G bs (Suc k)))\<lparr>tail := advance (blk G bs (Suc k)) i\<rparr>) =
      patched EIdle (dpc st) (G(bs ! Suc k \<mapsto> b'))"
    "ring_at env (G(bs ! Suc k \<mapsto> b')) (members st) bs (vss[Suc k := vss ! Suc k @ [v]]) k"
    "dinv (dpc st) (G(bs ! Suc k \<mapsto> b')) bs (vss[Suc k := vss ! Suc k @ [v]]) k" "cap b' = cap (blk G bs (Suc k))"
    using enq_publish[OF c E(4,2) ne _ es] by auto
  note n = cpart_nth[OF cp r E(4) p(5)]
  have "cpart (G(bs ! Suc k \<mapsto> b')) bs (vss[Suc k := vss ! Suc k @ [v]]) k (ahead (ETail nb))"
    using cp n kl E(4) pc unfolding cpart_def by (auto simp: ahead_def)
  moreover have "einv (ETail nb) (G(bs ! Suc k \<mapsto> b')) bs (vss[Suc k := vss ! Suc k @ [v]]) k"
    using E n(1)[OF kl] n(2)[OF kl] by simp
  moreover have "concat (vss[Suc k := vss ! Suc k @ [v]]) = concat vss @ [v]"
    using cp E(4) conc_atD(8)[OF c] pc by (intro concat_update_last) (auto simp: cpart_def ahead_def)
  ultimately have "conc_at env (st\<lparr>mem := patched EIdle (dpc st) (G(bs ! Suc k \<mapsto> b')), in_log := in_log st @ [v], epc := ETail nb\<rparr>)
      (G(bs ! Suc k \<mapsto> b')) bs (vss[Suc k := vss ! Suc k @ [v]]) k"
    using c p(3,4) pc by (simp add: conc_at_def)
  then show ?thesis using conc_invI p(1,2) pc E(1) by simp
qed

text \<open>The last store of an enqueue that changed blocks.\<close>

lemma dinv_Suc: "dinv pc G bs vss k \<Longrightarrow> dinv pc G bs vss (Suc k)"
  by (cases pc) auto

lemma inv_ETail:
  assumes c: "conc_at env st G bs vss k" and pc: "epc st = ETail nb"
  shows "\<exists>st'. enq_step env (epc st) st = Inr st' \<and> conc_inv env st'"
proof -
  have E: "Suc k < length bs" "nb = bs ! Suc k" "0 < k \<longrightarrow> full G bs vss k" using conc_atD(4)[OF c] pc by auto
  let ?st = "enq_return (st\<lparr>members := (members st)\<lparr>tailBlock := nb\<rparr>\<rparr>)"
  have "cpart G bs vss (Suc k) False"
    using conc_atD(3)[OF c] E pc by (auto simp: cpart_def ahead_def less_Suc_eq)
  moreover have "ring_at env G (members ?st) bs vss (Suc k)"
    using conc_atD(1)[OF c] E by (simp add: ring_at_def enq_return_def)
  ultimately have "conc_at env ?st G bs vss (Suc k)"
    using c dinv_Suc[OF conc_atD(5)[OF c]] pc by (simp add: conc_at_def enq_return_def ahead_def)
  then show ?thesis using conc_invI pc by simp
qed

lemma enq_get:
  assumes c: "conc_at env st G bs vss k" and tb: "tb = bs ! k"
  shows "get_block (mem st) tb = Inr (patch (epc st) (dpc st) tb (blk G bs k))"
  unfolding conc_atD(2)[OF c] tb
  using patched_get[of G "bs ! k" "blk G bs k"] ring_at_blk(1)[OF conc_atD(1)[OF c] conc_atD(7)[OF c]] by simp

lemma enq_move_on:
  assumes c: "conc_at env st G bs vss k" and e: "einv ep' G bs vss k" "patch ep' (dpc st) = patch (epc st) (dpc st)"
    "ahead ep' = ahead (epc st)" and ne: "epc st \<noteq> EIdle" "ep' \<noteq> EIdle"
  shows "conc_inv env (st\<lparr>epc := ep'\<rparr>)"
proof -
  have "conc_at env (st\<lparr>epc := ep'\<rparr>) G bs vss k"
    using c e ne patched_cong[OF e(2)] by (simp add: conc_at_def)
  then show ?thesis by (rule conc_invI)
qed

lemma inv_enq_return:
  assumes c: "conc_at env st G bs vss k" and q: "patch (epc st) (dpc st) = patch EIdle (dpc st)" "\<not> ahead (epc st)"
  shows "conc_inv env (enq_return st)"
proof (rule conc_invI)
  show "conc_at env (enq_return st) G bs vss k"
    using c patched_cong[OF q(1)] q(2) by (simp add: conc_at_def enq_return_def ring_at_def ahead_def[of EIdle])
qed

lemma inv_EChk:
  assumes c: "conc_at env st G bs vss k" and pc: "epc st = EChk tb m v"
  shows "\<exists>st'. enq_step env (epc st) st = Inr st' \<and> conc_inv env st'"
proof -
  note kl = conc_atD(7)[OF c] and fq = conc_atD(10)[OF c]
  have E: "tb = bs ! k" "0 < k \<longrightarrow> full G bs vss k" using conc_atD(4)[OF c] pc by auto
  note g = enq_get[OF c E(1)] and nx = next_is_front[OF conc_atD(9)[OF c] kl]
  show ?thesis
  proof (cases "Suc k = length bs")
    case False
    then have l: "Suc k < length bs" using kl by simp
    have "nextB (blk G bs k) = bs ! Suc k" using ring_at_blk(3)[OF conc_atD(1)[OF c] kl] l by simp
    moreover have "conc_inv env (st\<lparr>epc := ENext (bs ! Suc k) v\<rparr>)"
      by (rule enq_move_on[OF c]) (use E l pc in \<open>simp_all add: ahead_def\<close>)
    ultimately show ?thesis using g nx False fq pc by simp
  next
    case True
    then have n: "nextB (blk G bs k) = frontBlock (members st)" using nx fq by simp
    show ?thesis
    proof (cases m)
      case CanAlloc
      have "conc_inv env (st\<lparr>epc := EAlloc tb v\<rparr>)"
        by (rule enq_move_on[OF c]) (use E pc in \<open>simp_all add: ahead_def\<close>)
      then show ?thesis using g n CanAlloc pc by simp
    next
      case CannotAlloc
      have "conc_inv env (enq_return st)" by (rule inv_enq_return[OF c]) (use pc in \<open>simp_all add: ahead_def\<close>)
      then show ?thesis using g n CannotAlloc pc by simp
    qed
  qed
qed

lemma inv_enq_start:
  assumes c: "conc_at env st G bs vss k" and pc: "epc st = EIdle"
  shows "\<exists>st'. enq_start m v st = Inr st' \<and> conc_inv env st'"
proof -
  let ?b = "blk G bs k" let ?tb = "bs ! k"
  let ?ep = "if advance ?b (tail ?b) \<noteq> localFront ?b then EPut ?tb (tail ?b) v else EFront ?tb m v"
  let ?st = "st\<lparr>members := (members st)\<lparr>enqueuing := True\<rparr>, epc := ?ep\<rparr>"
  note g = enq_get[OF c refl]
  have "conc_at env ?st G bs vss k" using c pc by (simp add: conc_at_def ring_at_def ahead_def)
  moreover have "enq_start m v st = Inr ?st"
    using c pc g conc_atD(11)[OF c] by (simp add: enq_start_def Let_def conc_at_def)
  ultimately show ?thesis using conc_invI by blast
qed

text \<open>Allocation of a block: private to the producer until it is linked in.\<close>

lemma heap_ok_cong:
  assumes h: "heap_ok L h" and eq: "\<And>p. map_option (allocation L) (h' p) = map_option (allocation L) (h p)"
  shows "heap_ok L h'"
proof -
  have old: "\<exists>b. h p = Some b \<and> allocation L b = allocation L c" if "h' p = Some c" for p c
    using eq[of p] that by (cases "h p") auto
  show ?thesis unfolding heap_ok_def
  proof (intro conjI allI impI)
    fix p c p' c' assume e: "h' p = Some c \<and> h' p' = Some c' \<and> p \<noteq> p'"
    then obtain b b' where "h p = Some b" "allocation L b = allocation L c" "h p' = Some b'" "allocation L b' = allocation L c'"
      using old by blast
    then show "allocation L c \<inter> allocation L c' = {}" using h e unfolding heap_ok_def by metis
  next
    fix p c assume "h' p = Some c"
    then obtain b where "h p = Some b" "allocation L b = allocation L c" using old by blast
    then show "unat p \<in> allocation L c" "p \<noteq> nullptr" using heap_ok_block[OF h] by metis+
  qed
qed

lemma heap_ok_patched: "heap_ok L (patched ep dp G) \<longleftrightarrow> heap_ok L G"
proof -
  have "map_option (allocation L) (patched ep dp G p) = map_option (allocation L) (G p)" for p
    by (cases "G p") (simp_all add: patched_def allocation_def)
  then show ?thesis using heap_ok_cong[of L G "patched ep dp G"] heap_ok_cong[of L "patched ep dp G" G] by metis
qed

lemma conc_fresh_block:
  assumes c: "conc_at env st G bs vss k" and a: "G a = None" and hk: "heap_ok (ly env) (G(a \<mapsto> nb))"
  shows "ring_at env (G(a \<mapsto> nb)) (members st) bs vss k" "cpart (G(a \<mapsto> nb)) bs vss k (ahead (epc st))"
    "dinv (dpc st) (G(a \<mapsto> nb)) bs vss k" "a \<notin> set bs"
    "patched EIdle (dpc st) (G(a \<mapsto> nb)) = (patched EIdle (dpc st) G)(a \<mapsto> nb)"
proof -
  note r = conc_atD(9)[OF c] and kl = conc_atD(7)[OF c] and z = conc_atD(6)[OF c]
  show nin: "a \<notin> set bs" using ring_rep_dom[OF r] a by blast
  have b: "(G(a \<mapsto> nb)) (bs ! i) = G (bs ! i)" if "i < length bs" for i using nin nth_mem[OF that] by auto
  have "ring_rep (G(a \<mapsto> nb)) bs vss" using r b by (simp add: ring_rep_def node_def)
  then show "ring_at env (G(a \<mapsto> nb)) (members st) bs vss k" using conc_atD(1)[OF c] hk by (simp add: ring_at_def)
  show "cpart (G(a \<mapsto> nb)) bs vss k (ahead (epc st))"
    using conc_atD(3)[OF c] b kl unfolding cpart_def by auto
  have "1 < length bs" if "0 < k" using that kl by simp
  then show "dinv (dpc st) (G(a \<mapsto> nb)) bs vss k"
    using conc_atD(5)[OF c] b[OF z] b[of 1] by (cases "dpc st") auto
  have "patch EIdle (dpc st) a nb = nb"
    using conc_atD(5)[OF c] nin nth_mem[OF z] by (cases "dpc st") (auto simp: patch_def eslot_def dslot_def)
  then show "patched EIdle (dpc st) (G(a \<mapsto> nb)) = (patched EIdle (dpc st) G)(a \<mapsto> nb)"
    using patched_upd[of EIdle "dpc st" G a nb] by simp
qed

lemma inv_EAlloc:
  assumes env: "env_ok env" and c: "conc_at env st G bs vss k" and pc: "epc st = EAlloc tb v"
  shows "\<exists>st'. enq_step env (epc st) st = Inr st' \<and> conc_inv env st'"
proof -
  let ?q = "members st" and ?h = "mem st"
  define s where "s = (if max_block env \<le> largestBlockSize ?q then largestBlockSize ?q else largestBlockSize ?q * 2)"
  have E: "tb = bs ! k" "0 < k \<longrightarrow> full G bs vss k" using conc_atD(4)[OF c] pc by auto
  have m: "?h = patched EIdle (dpc st) G" using conc_atD(2)[OF c] pc by simp
  have hk: "heap_ok (ly env) ?h" using conc_atD(1)[OF c] unfolding m heap_ok_patched by (simp add: ring_at_def)
  have so: "size_ok env s" using next_size_ok[OF env] conc_atD(1)[OF c] by (simp add: ring_at_def s_def)
  then obtain e where e: "0 < e" "e < 64" "s = 2 ^ e" "2 ^ e \<le> block_limit env" by (auto simp: size_ok_def)
  have fit: "fits (ly env) (unat s)" using env e unat_pow2_64[of e] fits_mono by (auto simp: env_ok_def)
  obtain a h1 where mb: "make_block (ly env) (mallocf env) ?h s = (a, h1)" by fastforce
  have mo: "malloc_ok (ly env) (mallocf env)" using env by (simp add: env_ok_def)
  from make_block_cases[OF fit mo hk mb] show ?thesis
  proof
    assume f: "a = nullptr \<and> h1 = ?h \<and> mallocf env ?h (block_bytes (ly env) s) = nullptr"
    have "conc_inv env (enq_return st)" by (rule inv_enq_return[OF c]) (use pc in \<open>simp_all add: ahead_def\<close>)
    moreover have "enq_return (st\<lparr>mem := ?h\<rparr>) = enq_return st" by simp
    ultimately show ?thesis using f mb pc by (simp add: enq_alloc_def Let_def s_def[symmetric])
  next
    assume "\<exists>raw dat. a \<noteq> nullptr \<and> ?h a = None \<and> h1 = ?h(a \<mapsto> Block_ctor s raw dat) \<and> heap_ok (ly env) h1"
    then obtain raw dat where a: "a \<noteq> nullptr" "?h a = None" "h1 = ?h(a \<mapsto> Block_ctor (2 ^ e) raw dat)" "heap_ok (ly env) h1"
      using e(3) by blast
    let ?t = "patch (epc st) (dpc st) tb (blk G bs k)"
    obtain nb where nb: "construct_at (Block_ctor (2 ^ e) raw dat) 0 v = Inr nb" "front nb = 0"
      "block_rep (nb\<lparr>localTail := 1, tail := 1, nextB := nextB (blk G bs k)\<rparr>) [v]" "rawThis nb = raw"
      "sizeMask nb = 2 ^ e - 1" "cap nb = 2 ^ e"
      using new_block_rep[OF e(1,2), of raw dat v] by metis
    let ?nb = "nb\<lparr>localTail := 1, tail := 1, nextB := nextB (blk G bs k)\<rparr>"
    have Ga: "G a = None" using a(2) unfolding m by (simp add: patched_def)
    have "heap_ok (ly env) (?h(a \<mapsto> ?nb))"
      using heap_ok_upd[OF a(4), of a "Block_ctor (2 ^ e) raw dat" ?nb] a(3) nb by (simp add: Block_ctor_def)
    moreover have "map_option (allocation (ly env)) ((G(a \<mapsto> ?nb)) p) = map_option (allocation (ly env)) ((?h(a \<mapsto> ?nb)) p)" for p
      unfolding m by (cases "p = a"; cases "G p") (simp_all add: patched_def allocation_def)
    ultimately have hk': "heap_ok (ly env) (G(a \<mapsto> ?nb))" by (rule heap_ok_cong)
    note f = conc_fresh_block[OF c Ga hk']
    have na: "a \<noteq> tb" using f(4) E(1) nth_mem[OF conc_atD(7)[OF c]] by auto
    have g: "get_block h1 a = Inr (Block_ctor (2 ^ e) raw dat)" "get_block h1 tb = Inr ?t"
      using a(3) na enq_get[OF c E(1)] by (simp_all add: get_block_def)
    let ?st = "st\<lparr>mem := ?h(a \<mapsto> ?nb), members := ?q\<lparr>largestBlockSize := s\<rparr>, epc := ELink tb a v\<rparr>"
    have "enq_step env (epc st) st = Inr ?st"
      using mb a(1,3) g nb(1,2) pc by (simp add: enq_alloc_def Let_def s_def[symmetric])
    moreover have "einv (ELink tb a v) (G(a \<mapsto> ?nb)) bs vss k" using E f(4) na nb(3) by auto
    then have "conc_at env ?st (G(a \<mapsto> ?nb)) bs vss k"
      using c f so pc m by (simp add: conc_at_def ring_at_def ahead_def)
    ultimately show ?thesis using conc_invI by blast
  qed
qed

text \<open>Linking the block in behind the tail block, wherever the front block is by now.\<close>

lemma ring_rep_rotate: "ring_rep h bs vss \<Longrightarrow> ring_rep h (rotate n bs) (rotate n vss)"
  by (induction n) (simp_all add: ring_rep_rotate1)

lemma ring_rep_insert:
  assumes r: "ring_rep h bs vss" and k: "k < length bs" and nin: "a \<notin> set bs" and a: "h a = Some nb"
    and nb: "block_rep nb vs" "nextB nb = nextB (blk h bs k)"
  shows "ring_rep (h(bs ! k \<mapsto> (blk h bs k)\<lparr>nextB := a\<rparr>))
    (take (Suc k) bs @ a # drop (Suc k) bs) (take (Suc k) vss @ vs # drop (Suc k) vss)"
proof -
  let ?h0 = "h(a := None)" and ?n = "Suc k" and ?T = "take (Suc k) bs" and ?D = "drop (Suc k) bs"
  let ?TV = "take (Suc k) vss" and ?DV = "drop (Suc k) vss"
  have len: "length vss = length bs" by (rule ring_rep_length[OF r])
  have ne: "bs ! i \<noteq> a" if "i < length bs" for i using nin nth_mem[OF that] by auto
  have "ring_rep ?h0 bs vss" using r ne by (simp add: ring_rep_def node_def)
  then have "ring_rep ?h0 (rotate ?n bs) (rotate ?n vss)" by (rule ring_rep_rotate)
  moreover have "rotate ?n bs = ?D @ ?T" "rotate ?n vss = ?DV @ ?TV"
    using rotate_append[of ?T ?D] rotate_append[of ?TV ?DV] k len by simp_all
  ultimately have r1: "ring_rep ?h0 (?D @ ?T) (?DV @ ?TV)" by simp
  have last: "(?D @ ?T) ! (length bs - 1) = bs ! k" "Suc (length bs - 1) = length (?D @ ?T)"
    using k by (auto simp: nth_append)
  have kb: "blk ?h0 bs k = blk h bs k" using ne[OF k] by simp
  have "nextB (blk h bs k) = (?D @ ?T) ! 0"
    using ring_rep_blk(3)[OF r k] k by (cases "Suc k = length bs") (auto simp: nth_append)
  then have "ring_rep (?h0(a \<mapsto> nb, (?D @ ?T) ! (length bs - 1) \<mapsto> (blk ?h0 (?D @ ?T) (length bs - 1))\<lparr>nextB := a\<rparr>))
      ((?D @ ?T) @ [a]) ((?DV @ ?TV) @ [vs])"
    using nb k by (intro ring_rep_append[OF r1]) simp_all
  moreover have "?h0(a \<mapsto> nb, bs ! k \<mapsto> (blk h bs k)\<lparr>nextB := a\<rparr>) = h(bs ! k \<mapsto> (blk h bs k)\<lparr>nextB := a\<rparr>)"
    using a ne[OF k] by (auto simp: fun_eq_iff)
  ultimately have "ring_rep (h(bs ! k \<mapsto> (blk h bs k)\<lparr>nextB := a\<rparr>)) (?D @ (?T @ [a])) (?DV @ (?TV @ [vs]))"
    unfolding last(1) using ne[OF k] by simp
  from ring_rep_rotate[OF this, of "length ?D"]
  show ?thesis using rotate_append[of ?D "?T @ [a]"] rotate_append[of ?DV "?TV @ [vs]"] len by simp
qed

lemma nth_insert:
  assumes "k < length xs"
  shows "i \<le> k \<Longrightarrow> (take (Suc k) xs @ a # drop (Suc k) xs) ! i = xs ! i"
    "(take (Suc k) xs @ a # drop (Suc k) xs) ! Suc k = a"
    "Suc k < i \<Longrightarrow> i \<le> length xs \<Longrightarrow> (take (Suc k) xs @ a # drop (Suc k) xs) ! i = xs ! (i - 1)"
proof -
  have l: "length (take (Suc k) xs) = Suc k" using assms by simp
  show "i \<le> k \<Longrightarrow> (take (Suc k) xs @ a # drop (Suc k) xs) ! i = xs ! i" using assms by (simp add: nth_append)
  show "(take (Suc k) xs @ a # drop (Suc k) xs) ! Suc k = a" unfolding nth_append l by simp
  assume i: "Suc k < i" "i \<le> length xs"
  define j where "j = i - Suc (Suc k)"
  have j: "i = Suc k + Suc j" using i by (simp add: j_def)
  have "(take (Suc k) xs @ a # drop (Suc k) xs) ! i = drop (Suc k) xs ! j" unfolding j nth_append l by simp
  also have "\<dots> = xs ! (i - 1)" using assms j by simp
  finally show "(take (Suc k) xs @ a # drop (Suc k) xs) ! i = xs ! (i - 1)" .
qed

lemma inv_ELink:
  assumes c: "conc_at env st G bs vss k" and pc: "epc st = ELink tb nb v"
  shows "\<exists>st'. enq_step env (epc st) st = Inr st' \<and> conc_inv env st'"
proof -
  note kl = conc_atD(7)[OF c] and r = conc_atD(9)[OF c] and len = conc_atD(8)[OF c] and cp = conc_atD(3)[OF c]
  let ?b = "blk G bs k" let ?bs = "take (Suc k) bs @ nb # drop (Suc k) bs" and ?vss = "take (Suc k) vss @ [v] # drop (Suc k) vss"
  let ?G = "G(bs ! k \<mapsto> ?b\<lparr>nextB := nb\<rparr>)"
  have E: "tb = bs ! k" "0 < k \<longrightarrow> full G bs vss k" "nb \<notin> set bs" "block_rep (the (G nb)) [v]" "nextB (the (G nb)) = nextB ?b"
    and "G nb \<noteq> None" using conc_atD(4)[OF c] pc by auto
  then have Gn: "G nb = Some (the (G nb))" by auto
  note B = ring_at_blk[OF conc_atD(1)[OF c] kl]
  note nb_ = nth_insert[OF kl, where a = nb] and nv = nth_insert[of k vss, OF _ , where a = "[v]", unfolded len, OF kl]
  have k0: "0 < length bs" "length ?bs = Suc (length bs)" using kl by auto
  have blk0: "blk ?G ?bs i = (if i = k then ?b\<lparr>nextB := nb\<rparr> else blk G bs i)" if "i \<le> k" for i
    using nb_(1)[OF that] blk_upd[OF r _ kl, of i] that kl by simp
  have hk: "heap_ok (ly env) ?G"
    using heap_ok_upd[of "ly env" G "bs ! k" ?b] conc_atD(1)[OF c] B(1) by (simp add: ring_at_def)
  have "ring_rep ?G ?bs ?vss" by (rule ring_rep_insert[OF r kl E(3) Gn E(4,5)])
  then have ring: "ring_at env ?G (members st) ?bs ?vss k"
    using conc_atD(1)[OF c] hk nb_(1)[of 0] nb_(1)[of k] k0 by (simp add: ring_at_def)
  have part: "cpart ?G ?bs ?vss k (ahead (ETail nb))"
    unfolding cpart_def
  proof (intro conjI allI impI)
    fix i assume i: "0 < i \<and> i < k"
    then show "full ?G ?bs ?vss i" using cp nv(1)[of i] blk0[of i] by (simp add: cpart_def)
  next
    fix i assume "(if ahead (ETail nb) then Suc k else k) < i \<and> i < length ?bs"
    then have i: "Suc k < i" "i \<le> length bs" using k0(2) by (auto simp: ahead_def)
    then have "k < i - 1" "i - 1 < length bs" by auto
    then have "vss ! (i - 1) = []" using cp pc by (auto simp: cpart_def ahead_def)
    then show "?vss ! i = []" using nv(3)[OF i] by simp
  qed (use kl k0(2) nv(1)[of k] nv(2) cp in \<open>auto simp: cpart_def\<close>)
  have e: "einv (ETail nb) ?G ?bs ?vss k" using nb_(2) nv(1)[of k] blk0[of k] E(2) kl k0(2) by simp
  have d: "dinv (dpc st) ?G ?bs ?vss k"
    using conc_atD(5)[OF c] nb_(1)[of 0] nb_(1)[of 1] nv(1)[of 0] blk0[of 0] blk0[of 1] by (cases "dpc st") auto
  have cc: "concat ?vss = concat vss @ [v]"
  proof -
    have "concat (drop (Suc k) vss) = []"
      using cp pc kl len by (auto simp: cpart_def ahead_def in_set_conv_nth)
    moreover from this have "concat vss = concat (take (Suc k) vss)"
      using append_take_drop_id[of "Suc k" vss] concat_append by (metis append_Nil2)
    ultimately show ?thesis by simp
  qed
  have m: "(mem st)(tb \<mapsto> (patch (epc st) (dpc st) tb ?b)\<lparr>nextB := nb\<rparr>) = patched (ETail nb) (dpc st) ?G"
    unfolding conc_atD(2)[OF c] E(1) using pc by (simp add: patched_upd)
  have "conc_at env (st\<lparr>mem := patched (ETail nb) (dpc st) ?G, in_log := in_log st @ [v], epc := ETail nb\<rparr>) ?G ?bs ?vss k"
    using c ring part e d cc pc unfolding conc_at_def by simp
  then show ?thesis using conc_invI enq_get[OF c E(1)] m pc by simp
qed

lemma inv_enq_step:
  assumes env: "env_ok env" and c: "conc_at env st G bs vss k" and pc: "epc st \<noteq> EIdle"
  shows "\<exists>st'. enq_step env (epc st) st = Inr st' \<and> conc_inv env st'"
proof (cases "epc st")
  case EIdle
  then show ?thesis using pc by simp
qed (erule inv_EFront[OF c] inv_EPut[OF c] inv_EPub[OF c] inv_EChk[OF c] inv_ENext[OF c] inv_EPutN[OF c] inv_EPubN[OF c]
    inv_EAlloc[OF env c] inv_ELink[OF c] inv_ETail[OF c])+

subsection \<open>Reachable states\<close>

lemma conc_step_inv:
  assumes env: "env_ok env" and i: "conc_inv env st" and s: "conc_step env e st = Some r"
  shows "\<exists>st'. r = Inr st' \<and> conc_inv env st'"
proof -
  obtain G bs vss k where c: "conc_at env st G bs vss k" using i by (auto simp: conc_inv_def)
  show ?thesis
  proof (cases e)
    case (CallEnqueue m v)
    then show ?thesis using s inv_enq_start[OF c, of m v] by (auto split: enq_pc.splits)
  next
    case StepEnqueue
    then have "epc st \<noteq> EIdle" "r = enq_step env (epc st) st" using s by (auto split: enq_pc.splits)
    then show ?thesis using inv_enq_step[OF env c] by simp
  next
    case CallDequeue
    then show ?thesis using s inv_deq_start[OF c] by (auto split: deq_pc.splits)
  next
    case StepDequeue
    then have "dpc st \<noteq> DIdle" "r = deq_step (dpc st) st" using s by (auto split: deq_pc.splits)
    then show ?thesis using inv_deq_step[OF c] by simp
  qed
qed

lemma conc_reach_inv:
  assumes "conc_reach env st0 st" "env_ok env" "conc_inv env st0"
  shows "conc_inv env st"
  using assms by (induction rule: conc_reach.induct) (use conc_step_inv in fastforce)+

lemma patched_idle:
  fixes G :: "'a heap"
  shows "patched EIdle DIdle G = G"
proof -
  have "patch EIdle DIdle p = (id :: 'a Block \<Rightarrow> 'a Block)" for p by (simp add: patch_def eslot_def dslot_def fun_eq_iff)
  then show ?thesis by (simp add: patched_def option.map_id)
qed

lemma conc_inv_init:
  assumes "queue_at env h q bs vs"
  shows "conc_inv env (conc_init h q vs)"
proof -
  obtain vss k where c: "queue_core env h q bs vss k" "vs = concat vss" and fl: "\<not> enqueuing q" "\<not> dequeuing q"
    using assms by (auto simp: queue_at_def)
  then have "conc_at env (conc_init h q vs) h bs vss k"
    by (auto simp: conc_at_def conc_init_def ring_at_def queue_core_def part_ok_def cpart_def ahead_def patched_idle)
  then show ?thesis by (rule conc_invI)
qed

lemma conc_quiet:
  assumes c: "conc_at env st G bs vss k" and pc: "epc st = EIdle" "dpc st = DIdle"
  shows "queue_at env (mem st) (members st) bs (concat vss)"
proof -
  have m: "mem st = G" using conc_atD(2)[OF c] pc patched_idle by simp
  have "queue_core env G (members st) bs vss k"
    using conc_atD(1,3)[OF c] pc by (auto simp: queue_core_def ring_at_def cpart_def part_ok_def ahead_def)
  then show ?thesis using c pc m by (auto simp: queue_at_def conc_at_def)
qed

text \<open>Every step of a thread brings its call nearer to its end.\<close>

fun erank :: "'a enq_pc \<Rightarrow> nat" where
  "erank EIdle = 0" | "erank (EPub tb i v) = 1" | "erank (EPut tb i v) = 2" | "erank (ETail nb) = 1"
| "erank (EPubN nb i v) = 2" | "erank (EPutN nb i v) = 3" | "erank (ENext nb v) = 4"
| "erank (ELink tb nb v) = 2" | "erank (EAlloc tb v) = 3" | "erank (EChk tb m v) = 5" | "erank (EFront tb m v) = 6"

fun drank :: "'a deq_pc \<Rightarrow> nat" where
  "drank DIdle = 0" | "drank (DPub fb i v) = 1" | "drank (DMove fb i) = 2" | "drank (DAdv nb i) = 3"
| "drank (DNextTail nb) = 4" | "drank (DNext fb) = 5" | "drank DRe = 6" | "drank (DChk fb) = 7" | "drank (DTail fb) = 8"

lemma enq_step_rank:
  assumes "enq_step env pc st = Inr st'" "pc \<noteq> EIdle"
  shows "erank (epc st') < erank pc \<and> dpc st' = dpc st"
  using assms
  by (cases pc) (auto simp: enq_return_def enq_alloc_def Let_def split: if_splits AllocationMode.splits prod.splits)

lemma deq_step_rank:
  assumes "deq_step pc st = Inr st'" "pc \<noteq> DIdle"
  shows "drank (dpc st') < drank pc \<and> epc st' = epc st"
  using assms by (cases pc) (auto simp: deq_return_def Let_def split: if_splits)

text \<open>The slot a thread is about to access or has accessed without publishing it.\<close>

definition enq_slot :: "'a enq_pc \<Rightarrow> (addr \<times> size_t) option" where
  "enq_slot pc = (case pc of EPut tb i v \<Rightarrow> Some (tb, i) | EPub tb i v \<Rightarrow> Some (tb, i)
     | EPutN nb i v \<Rightarrow> Some (nb, i) | EPubN nb i v \<Rightarrow> Some (nb, i) | _ \<Rightarrow> None)"

definition deq_slot :: "'a deq_pc \<Rightarrow> (addr \<times> size_t) option" where
  "deq_slot pc = (case pc of DMove fb i \<Rightarrow> Some (fb, i) | DPub fb i v \<Rightarrow> Some (fb, i) | _ \<Rightarrow> None)"

lemma slots_apart:
  assumes c: "conc_at env st G bs vss k" and d: "deq_slot (dpc st) = Some x"
  shows "enq_slot (epc st) \<noteq> Some x"
proof -
  have D: "x = (bs ! 0, front (blk G bs 0))" "front (blk G bs 0) \<noteq> localTail (blk G bs 0)"
    using conc_atD(5)[OF c] d by (auto simp: deq_slot_def split: deq_pc.splits)
  have rep: "block_rep (blk G bs 0) (vss ! 0)" by (rule ring_at_blk(2)[OF conc_atD(1)[OF c] conc_atD(6)[OF c]])
  then have ft: "front (blk G bs 0) \<noteq> tail (blk G bs 0)"
    using front_neq_localTail[OF rep D(2)] front_eq_tail_iff by blast
  have dist: "bs ! Suc k \<noteq> bs ! 0" if "Suc k < length bs"
    using conc_atD(9)[OF c] that by (auto simp: ring_rep_def nth_eq_iff_index_eq)
  have k0: "k = 0" if "bs ! 0 = bs ! k"
    using that conc_atD(9)[OF c] conc_atD(6,7)[OF c] by (auto simp: ring_rep_def nth_eq_iff_index_eq)
  show ?thesis using conc_atD(4)[OF c] ft dist k0 D(1) by (cases "epc st") (auto simp: enq_slot_def)
qed

subsection \<open>A run\<close>

text \<open>One element is enqueued, the consumer is about to move it out, and the producer is about to
  construct a second one in the same block.\<close>

definition demo_mid :: "nat conc" where
  "demo_mid = \<lparr>mem = [1048576 \<mapsto> demo_block\<lparr>tail := 1, localTail := 1, slots := [Some 7, None, None, None]\<rparr>],
     members = demo_rwq\<lparr>enqueuing := True, dequeuing := True\<rparr>,
     epc = EPut 1048576 1 8, dpc = DMove 1048576 0, in_log = [7], out_log = []\<rparr>"

primrec conc_run :: "'a env \<Rightarrow> 'a conc_event list \<Rightarrow> 'a conc \<Rightarrow> 'a conc res option" where
  "conc_run env [] st = Some (Inr st)"
| "conc_run env (e # es) st = (case conc_step env e st of Some (Inr st') \<Rightarrow> conc_run env es st' | r \<Rightarrow> r)"

lemma conc_run_reach:
  "conc_run env es st = Some (Inr st') \<Longrightarrow> conc_reach env st0 st \<Longrightarrow> conc_reach env st0 st'"
proof (induction es arbitrary: st)
  case (Cons e es)
  then show ?case using conc_next[of env st0 st e] by (auto split: option.splits sum.splits)
qed simp

lemma demo_mid_reach: "conc_reach demo_env (conc_init demo_heap demo_rwq []) demo_mid"
proof (rule conc_run_reach[OF _ conc_refl])
  have r4: "replicate 4 None = [None, None, None, None]" by (simp add: numeral_eq_Suc)
  show "conc_run demo_env [CallEnqueue CannotAlloc 7, StepEnqueue, StepEnqueue, CallDequeue, StepDequeue,
      CallEnqueue CannotAlloc 8] (conc_init demo_heap demo_rwq []) = Some (Inr demo_mid)"
    by (simp add: conc_init_def enq_start_def deq_start_def enq_return_def arena_heap_def demo_rwq_def arena_block_def
        demo_mid_def get_block_def advance_def construct_at_def Let_def r4)
qed

subsection \<open>Theorems\<close>

text \<open>In every interleaving of one producer and one consumer no step fails: no assertion of the
  code, no dead or misplaced slot, no bad pointer; and what the consumer has received is a prefix of
  what the producer has put in.\<close>

theorem concurrent_fifo:
  assumes "env_ok env" and "queue_at env h q bs vs" and "conc_reach env (conc_init h q vs) st"
  shows "conc_step env e st \<noteq> Some (Inl err) \<and> (\<exists>waiting. in_log st = out_log st @ waiting)"
proof -
  have i: "conc_inv env st" by (rule conc_reach_inv[OF assms(3,1) conc_inv_init[OF assms(2)]])
  then have "\<exists>waiting. in_log st = out_log st @ waiting" by (auto simp: conc_inv_def conc_at_def)
  moreover have "conc_step env e st \<noteq> Some (Inl err)" using conc_step_inv[OF assms(1) i, of e] by force
  ultimately show ?thesis by blast
qed

theorem concurrent_fifo_witness:
  "conc_step demo_env StepDequeue demo_mid \<noteq> Some (Inl DeadObject) \<and>
    (\<exists>waiting. in_log demo_mid = out_log demo_mid @ waiting)"
  by (rule concurrent_fifo[OF demo_env_ok demo_queue demo_mid_reach])

text \<open>The two threads never touch the same element slot at the same time.\<close>

theorem concurrent_slots_apart:
  assumes "env_ok env" and "queue_at env h q bs vs" and "conc_reach env (conc_init h q vs) st"
    and "deq_slot (dpc st) = Some x"
  shows "enq_slot (epc st) \<noteq> Some x"
proof -
  have "conc_inv env st" by (rule conc_reach_inv[OF assms(3,1) conc_inv_init[OF assms(2)]])
  then show ?thesis using slots_apart[OF _ assms(4)] by (auto simp: conc_inv_def)
qed

theorem concurrent_slots_apart_witness:
  "deq_slot (dpc demo_mid) = Some (1048576, 0) \<and> enq_slot (epc demo_mid) = Some (1048576, 1) \<and>
    enq_slot (epc demo_mid) \<noteq> Some (1048576, 0)"
  using concurrent_slots_apart[OF demo_env_ok demo_queue demo_mid_reach, of "(1048576, 0)"]
  by (simp add: demo_mid_def deq_slot_def enq_slot_def)

text \<open>Whenever both threads are between calls, the memory is again a well-formed queue, and it
  holds exactly what was put in and not yet received.\<close>

theorem concurrent_quiescent:
  assumes "env_ok env" and "queue_at env h q bs vs" and "conc_reach env (conc_init h q vs) st"
    and "epc st = EIdle" and "dpc st = DIdle"
  shows "\<exists>cs waiting. queue_at env (mem st) (members st) cs waiting \<and> in_log st = out_log st @ waiting"
proof -
  have "conc_inv env st" by (rule conc_reach_inv[OF assms(3,1) conc_inv_init[OF assms(2)]])
  then obtain G cs vss k where c: "conc_at env st G cs vss k" by (auto simp: conc_inv_def)
  then have "in_log st = out_log st @ concat vss" by (simp add: conc_at_def)
  then show ?thesis using conc_quiet[OF c assms(4,5)] by blast
qed

theorem concurrent_quiescent_witness:
  "\<exists>cs waiting. queue_at demo_env (mem (conc_init demo_heap demo_rwq [])) (members (conc_init demo_heap demo_rwq [])) cs waiting \<and>
    in_log (conc_init demo_heap demo_rwq ([] :: nat list)) = out_log (conc_init demo_heap demo_rwq []) @ waiting"
  by (rule concurrent_quiescent[OF demo_env_ok demo_queue conc_refl]) (simp_all add: conc_init_def)

text \<open>The operations are wait-free: a thread inside a call can always take its next step,
  whatever the other thread does in between, and the call ends after at most six (enqueue) or eight
  (dequeue) of them.\<close>

theorem concurrent_wait_free:
  assumes "env_ok env" and "queue_at env h q bs vs" and "conc_reach env (conc_init h q vs) st"
  shows "(epc st \<noteq> EIdle \<longrightarrow> (\<exists>st'. conc_step env StepEnqueue st = Some (Inr st') \<and>
       erank (epc st') < erank (epc st) \<and> dpc st' = dpc st)) \<and>
    (dpc st \<noteq> DIdle \<longrightarrow> (\<exists>st'. conc_step env StepDequeue st = Some (Inr st') \<and>
       drank (dpc st') < drank (dpc st) \<and> epc st' = epc st)) \<and>
    erank (epc st) \<le> 6 \<and> drank (dpc st) \<le> 8"
proof -
  have "conc_inv env st" by (rule conc_reach_inv[OF assms(3,1) conc_inv_init[OF assms(2)]])
  then obtain G cs vss k where c: "conc_at env st G cs vss k" by (auto simp: conc_inv_def)
  have "\<exists>st'. conc_step env StepEnqueue st = Some (Inr st') \<and> erank (epc st') < erank (epc st) \<and> dpc st' = dpc st"
    if n: "epc st \<noteq> EIdle"
  proof -
    obtain st' where "enq_step env (epc st) st = Inr st'" using inv_enq_step[OF assms(1) c n] by blast
    moreover have "conc_step env StepEnqueue st = Some (enq_step env (epc st) st)" using n by (auto split: enq_pc.splits)
    ultimately show ?thesis using enq_step_rank[OF _ n] by fastforce
  qed
  moreover have "\<exists>st'. conc_step env StepDequeue st = Some (Inr st') \<and> drank (dpc st') < drank (dpc st) \<and> epc st' = epc st"
    if n: "dpc st \<noteq> DIdle"
  proof -
    obtain st' where "deq_step (dpc st) st = Inr st'" using inv_deq_step[OF c n] by blast
    moreover have "conc_step env StepDequeue st = Some (deq_step (dpc st) st)" using n by (auto split: deq_pc.splits)
    ultimately show ?thesis using deq_step_rank[OF _ n] by fastforce
  qed
  moreover have "erank (epc st) \<le> 6" "drank (dpc st) \<le> 8" by (cases "epc st"; simp)(cases "dpc st"; simp)
  ultimately show ?thesis by blast
qed

theorem concurrent_wait_free_witness:
  "\<exists>st'. conc_step demo_env StepEnqueue demo_mid = Some (Inr st') \<and> erank (epc st') < 2"
  using concurrent_wait_free[OF demo_env_ok demo_queue demo_mid_reach] by (auto simp: demo_mid_def)

end
