(* ===== verification/Rwq_Tso.thy ===== *)
theory Rwq_Tso
  imports Rwq_Conc_Steps
begin

unbundle bit_operations_syntax

text \<open>
  The queue of \<open>Rwq_Conc\<close> on a machine whose processors buffer their stores (x86): a store goes
  to the end of the thread's own buffer, the thread reads its own buffered stores first, and
  the oldest store of a buffer reaches the shared memory at any later time. On this machine
  the acquire and release fences of the code emit no instruction.

  A thread's step is the step of \<open>Rwq_Conc\<close> taken in the thread's view of the memory; what it
  stored is read off the result and buffered. Program counters, the guards' flags,
  \<^verbatim>\<open>largestBlockSize\<close> and the logs belong to one thread and are not buffered.
\<close>

subsection \<open>Stores\<close>

datatype 'a store =
    StFront addr size_t | StLocalTail addr size_t
  | StTail addr size_t | StLocalFront addr size_t
  | StNext addr addr | StSlot addr size_t "'a option"
  | StBlock addr "'a Block" | StFrontBlock addr | StTailBlock addr

definition at_cell :: "addr \<Rightarrow> ('a Block \<Rightarrow> 'a Block) \<Rightarrow> 'a conc \<Rightarrow> 'a conc" where
  "at_cell p f st = st\<lparr>mem := (mem st)(p := map_option f (mem st p))\<rparr>"

fun commit :: "'a store \<Rightarrow> 'a conc \<Rightarrow> 'a conc" where
  "commit (StFront p x) st = at_cell p (\<lambda>b. b\<lparr>front := x\<rparr>) st"
| "commit (StLocalTail p x) st = at_cell p (\<lambda>b. b\<lparr>localTail := x\<rparr>) st"
| "commit (StTail p x) st = at_cell p (\<lambda>b. b\<lparr>tail := x\<rparr>) st"
| "commit (StLocalFront p x) st = at_cell p (\<lambda>b. b\<lparr>localFront := x\<rparr>) st"
| "commit (StNext p a) st = at_cell p (\<lambda>b. b\<lparr>nextB := a\<rparr>) st"
| "commit (StSlot p i x) st = at_cell p (set_slot i x) st"
| "commit (StBlock p b) st = st\<lparr>mem := (mem st)(p \<mapsto> b)\<rparr>"
| "commit (StFrontBlock p) st = st\<lparr>members := (members st)\<lparr>frontBlock := p\<rparr>\<rparr>"
| "commit (StTailBlock p) st = st\<lparr>members := (members st)\<lparr>tailBlock := p\<rparr>\<rparr>"

abbreviation drain :: "'a store list \<Rightarrow> 'a conc \<Rightarrow> 'a conc" where
  "drain \<equiv> fold commit"

text \<open>What a step stores, read off its result. A new block is filled in while it is private.\<close>

abbreviation cell :: "'a conc \<Rightarrow> addr \<Rightarrow> 'a Block" where
  "cell st p \<equiv> the (mem st p)"

fun enq_stores :: "'a enq_pc \<Rightarrow> 'a conc \<Rightarrow> 'a store list" where
  "enq_stores EIdle st' = []"
| "enq_stores (EFront tb m v) st' = [StLocalFront tb (localFront (cell st' tb))]"
| "enq_stores (EPut tb i v) st' = [StSlot tb i (Some v)]"
| "enq_stores (EPub tb i v) st' = [StTail tb (tail (cell st' tb))]"
| "enq_stores (EChk tb m v) st' = []"
| "enq_stores (ENext nb v) st' = [StLocalFront nb (localFront (cell st' nb))]"
| "enq_stores (EPutN nb i v) st' = [StSlot nb i (Some v)]"
| "enq_stores (EPubN nb i v) st' = [StTail nb (tail (cell st' nb))]"
| "enq_stores (EAlloc tb v) st' = (case epc st' of ELink tb' nb v' \<Rightarrow> [StBlock nb (cell st' nb)] | _ \<Rightarrow> [])"
| "enq_stores (ELink tb nb v) st' = [StNext tb nb]"
| "enq_stores (ETail nb) st' = [StTailBlock nb]"

fun deq_stores :: "'a deq_pc \<Rightarrow> 'a conc \<Rightarrow> 'a store list" where
  "deq_stores DIdle st' = []"
| "deq_stores (DTail fb) st' = [StLocalTail fb (localTail (cell st' fb))]"
| "deq_stores (DChk fb) st' = []"
| "deq_stores DRe st' = (let fb = frontBlock (members st') in [StLocalTail fb (localTail (cell st' fb))])"
| "deq_stores (DNext fb) st' = []"
| "deq_stores (DNextTail nb) st' = [StLocalTail nb (localTail (cell st' nb))]"
| "deq_stores (DAdv nb i) st' = [StFrontBlock nb]"
| "deq_stores (DMove fb i) st' = [StSlot fb i None]"
| "deq_stores (DPub fb i v) st' = [StFront fb (front (cell st' fb))]"

subsection \<open>The machine\<close>

record 'a tso =
  main :: "'a conc"
  ebuf :: "'a store list"
  dbuf :: "'a store list"

text \<open>The registers of a thread, taken over from the result of its step.\<close>

definition enq_regs :: "'a conc \<Rightarrow> 'a conc \<Rightarrow> 'a conc" where
  "enq_regs st' st = st\<lparr>epc := epc st', in_log := in_log st', members := (members st)\<lparr>
     enqueuing := enqueuing (members st'), largestBlockSize := largestBlockSize (members st')\<rparr>\<rparr>"

definition deq_regs :: "'a conc \<Rightarrow> 'a conc \<Rightarrow> 'a conc" where
  "deq_regs st' st = st\<lparr>dpc := dpc st', out_log := out_log st', members := (members st)\<lparr>
     dequeuing := dequeuing (members st')\<rparr>\<rparr>"

definition tso_enq :: "('a conc \<Rightarrow> 'a conc res) \<Rightarrow> 'a tso \<Rightarrow> 'a tso res" where
  "tso_enq act ts = bindE (act (drain (ebuf ts) (main ts))) (\<lambda>st'.
     Inr (ts\<lparr>main := enq_regs st' (main ts), ebuf := ebuf ts @ enq_stores (epc (main ts)) st'\<rparr>))"

definition tso_deq :: "('a conc \<Rightarrow> 'a conc res) \<Rightarrow> 'a tso \<Rightarrow> 'a tso res" where
  "tso_deq act ts = bindE (act (drain (dbuf ts) (main ts))) (\<lambda>st'.
     Inr (ts\<lparr>main := deq_regs st' (main ts), dbuf := dbuf ts @ deq_stores (dpc (main ts)) st'\<rparr>))"

datatype 'a tso_event = CallEnq AllocationMode 'a | StepEnq | CallDeq | StepDeq | FlushEnq | FlushDeq

fun tso_step :: "'a env \<Rightarrow> 'a tso_event \<Rightarrow> 'a tso \<Rightarrow> 'a tso res option" where
  "tso_step env (CallEnq m v) ts = (case epc (main ts) of EIdle \<Rightarrow> Some (tso_enq (enq_start m v) ts) | _ \<Rightarrow> None)"
| "tso_step env StepEnq ts = (case epc (main ts) of EIdle \<Rightarrow> None | pc \<Rightarrow> Some (tso_enq (enq_step env pc) ts))"
| "tso_step env CallDeq ts = (case dpc (main ts) of DIdle \<Rightarrow> Some (tso_deq deq_start ts) | _ \<Rightarrow> None)"
| "tso_step env StepDeq ts = (case dpc (main ts) of DIdle \<Rightarrow> None | pc \<Rightarrow> Some (tso_deq (deq_step pc) ts))"
| "tso_step env FlushEnq ts = (case ebuf ts of [] \<Rightarrow> None
     | w # ws \<Rightarrow> Some (Inr (ts\<lparr>main := commit w (main ts), ebuf := ws\<rparr>)))"
| "tso_step env FlushDeq ts = (case dbuf ts of [] \<Rightarrow> None
     | w # ws \<Rightarrow> Some (Inr (ts\<lparr>main := commit w (main ts), dbuf := ws\<rparr>)))"

definition tso_init :: "'a heap \<Rightarrow> rwq \<Rightarrow> 'a list \<Rightarrow> 'a tso" where
  "tso_init h q vs = \<lparr>main = conc_init h q vs, ebuf = [], dbuf = []\<rparr>"

inductive tso_reach :: "'a env \<Rightarrow> 'a tso \<Rightarrow> 'a tso \<Rightarrow> bool" for env ts0 where
  tso_refl: "tso_reach env ts0 ts0"
| tso_next: "tso_reach env ts0 ts \<Longrightarrow> tso_step env e ts = Some (Inr ts') \<Longrightarrow> tso_reach env ts0 ts'"

subsection \<open>A step is its stores and its registers\<close>

lemma upd_same_mem [simp]: "st\<lparr>mem := mem st\<rparr> = (st :: 'a conc)"
  by simp

lemma get_cell: "get_block h p = Inr b \<longleftrightarrow> h p = Some b"
  by (simp add: get_block_def split: option.split)

lemma bind_get: "bindE (get_block h p) f = Inr r \<longleftrightarrow> (\<exists>b. h p = Some b \<and> f b = Inr r)"
  by (cases "h p") (simp_all add: get_block_def)

lemma construct_eq: "construct_at b i v = Inr b' \<longleftrightarrow> unat i < length (slots b) \<and> b' = set_slot i (Some v) b"
  by (auto simp: construct_at_def set_slot_def)

lemma move_out_eq:
  "move_out b i = Inr (v, b') \<longleftrightarrow> unat i < length (slots b) \<and> slots b ! unat i = Some v \<and> b' = set_slot i None b"
  by (auto simp: move_out_def set_slot_def split: option.splits)

definition eapp :: "'a enq_pc \<Rightarrow> 'a conc \<Rightarrow> 'a conc \<Rightarrow> 'a conc" where
  "eapp pc st' st = enq_regs st' (drain (enq_stores pc st') st)"

definition dapp :: "'a deq_pc \<Rightarrow> 'a conc \<Rightarrow> 'a conc \<Rightarrow> 'a conc" where
  "dapp pc st' st = deq_regs st' (drain (deq_stores pc st') st)"

lemma conc_eqI:
  "mem s = mem t \<Longrightarrow> members s = members t \<Longrightarrow> epc s = epc t \<Longrightarrow> dpc s = dpc t \<Longrightarrow>
     in_log s = in_log t \<Longrightarrow> out_log s = out_log t \<Longrightarrow> s = (t :: 'a conc)"
  by (cases s; cases t) simp

lemma regs_sel [simp]:
  "mem (enq_regs e s) = mem s" "epc (enq_regs e s) = epc e" "dpc (enq_regs e s) = dpc s"
  "in_log (enq_regs e s) = in_log e" "out_log (enq_regs e s) = out_log s"
  "members (enq_regs e s) = (members s)\<lparr>enqueuing := enqueuing (members e), largestBlockSize := largestBlockSize (members e)\<rparr>"
  "mem (deq_regs e s) = mem s" "epc (deq_regs e s) = epc s" "dpc (deq_regs e s) = dpc e"
  "in_log (deq_regs e s) = in_log s" "out_log (deq_regs e s) = out_log e"
  "members (deq_regs e s) = (members s)\<lparr>dequeuing := dequeuing (members e)\<rparr>"
  by (simp_all add: enq_regs_def deq_regs_def)

lemma at_cell_sel [simp]:
  "mem (at_cell p f s) = (mem s)(p := map_option f (mem s p))" "members (at_cell p f s) = members s"
  "epc (at_cell p f s) = epc s" "dpc (at_cell p f s) = dpc s" "in_log (at_cell p f s) = in_log s"
  "out_log (at_cell p f s) = out_log s"
  by (simp_all add: at_cell_def)

lemma commit_sel [simp]:
  "epc (commit w s) = epc s" "dpc (commit w s) = dpc s" "in_log (commit w s) = in_log s" "out_log (commit w s) = out_log s"
  "enqueuing (members (commit w s)) = enqueuing (members s)" "dequeuing (members (commit w s)) = dequeuing (members s)"
  "largestBlockSize (members (commit w s)) = largestBlockSize (members s)"
  by (cases w; simp)+

lemma drain_sel [simp]:
  "epc (drain ws s) = epc s" "dpc (drain ws s) = dpc s" "in_log (drain ws s) = in_log s" "out_log (drain ws s) = out_log s"
  "enqueuing (members (drain ws s)) = enqueuing (members s)" "dequeuing (members (drain ws s)) = dequeuing (members s)"
  "largestBlockSize (members (drain ws s)) = largestBlockSize (members s)"
  by (induction ws arbitrary: s) simp_all

lemma enq_step_app:
  assumes "enq_step env pc s = Inr t" "\<And>tb v. pc \<noteq> EAlloc tb v"
  shows "eapp pc t s = t"
proof (cases pc)
  case (EFront tb m v)
  then show ?thesis using assms by (auto simp: get_cell eapp_def intro!: conc_eqI)
next
  case (EChk tb m v)
  then show ?thesis using assms
    by (auto simp: get_cell eapp_def enq_return_def intro!: conc_eqI split: if_splits AllocationMode.splits)
qed (use assms in \<open>auto simp: get_cell eapp_def construct_eq enq_return_def intro!: conc_eqI\<close>)

lemma alloc_app:
  assumes env: "env_ok env" and c: "conc_at env s G bs vss k" and pc: "epc s = EAlloc tb v"
    and st: "enq_step env (epc s) s = Inr t"
  shows "eapp (epc s) t s = t" "in_log t = in_log s"
    "epc t = EIdle \<or> (\<exists>nb. epc t = ELink tb nb v \<and> mem s nb = None)"
proof -
  let ?q = "members s" and ?h = "mem s"
  define n where "n = (if max_block env \<le> largestBlockSize ?q then largestBlockSize ?q else largestBlockSize ?q * 2)"
  have hk: "heap_ok (ly env) ?h" using conc_atD(1)[OF c] unfolding conc_atD(2)[OF c] heap_ok_patched by (simp add: ring_at_def)
  have so: "size_ok env n" using next_size_ok[OF env] conc_atD(1)[OF c] by (simp add: ring_at_def n_def)
  then obtain e where e: "0 < e" "e < 64" "n = 2 ^ e" "2 ^ e \<le> block_limit env" by (auto simp: size_ok_def)
  have fit: "fits (ly env) (unat n)" using env e unat_pow2_64[of e] fits_mono by (auto simp: env_ok_def)
  obtain a h1 where mb: "make_block (ly env) (mallocf env) ?h n = (a, h1)" by fastforce
  have mo: "malloc_ok (ly env) (mallocf env)" using env by (simp add: env_ok_def)
  have st': "enq_alloc env tb v s = Inr t" using st pc by simp
  from make_block_cases[OF fit mo hk mb]
  have "eapp (epc s) t s = t \<and> in_log t = in_log s \<and> (epc t = EIdle \<or> (\<exists>nb. epc t = ELink tb nb v \<and> mem s nb = None))"
  proof
    assume f: "a = nullptr \<and> h1 = ?h \<and> mallocf env ?h (block_bytes (ly env) n) = nullptr"
    then show ?thesis using st' mb pc
      by (auto simp: enq_alloc_def Let_def n_def[symmetric] enq_return_def eapp_def intro!: conc_eqI)
  next
    assume "\<exists>raw dat. a \<noteq> nullptr \<and> ?h a = None \<and> h1 = ?h(a \<mapsto> Block_ctor n raw dat) \<and> heap_ok (ly env) h1"
    then obtain raw dat where a: "a \<noteq> nullptr" "?h a = None" "h1 = ?h(a \<mapsto> Block_ctor n raw dat)" by blast
    then show ?thesis using st' mb pc
      by (auto simp: enq_alloc_def Let_def n_def[symmetric] eapp_def intro!: conc_eqI)
  qed
  then show "eapp (epc s) t s = t" "in_log t = in_log s"
    "epc t = EIdle \<or> (\<exists>nb. epc t = ELink tb nb v \<and> mem s nb = None)" by blast+
qed

lemma enq_start_app: "enq_start m v s = Inr t \<Longrightarrow> epc s = EIdle \<Longrightarrow> eapp EIdle t s = t"
  by (auto simp: get_cell enq_start_def eapp_def Let_def intro!: conc_eqI)

lemma deq_step_app: "deq_step pc s = Inr t \<Longrightarrow> dapp pc t s = t \<and> epc t = epc s \<and> in_log t = in_log s"
  by (cases pc) (auto simp: get_cell dapp_def move_out_eq deq_return_def Let_def intro!: conc_eqI)

lemma deq_start_app: "deq_start s = Inr t \<Longrightarrow> dpc s = DIdle \<Longrightarrow> dapp DIdle t s = t"
  by (auto simp: get_cell deq_start_def dapp_def Let_def intro!: conc_eqI)

end
