(* ===== verification/Two_Threads.thy ===== *)
theory Two_Threads
  imports App_Prelude
begin

text \<open>
  Two threads that take labelled steps on one state. When a step of either thread can be put
  off until after a step of the other, whatever the two do, then any number of postponed
  steps of one thread can be put off until after any number of the other's. This is the
  interface between the queue and a machine that buffers stores.
\<close>

primrec path :: "('s \<Rightarrow> 'a \<Rightarrow> 's \<Rightarrow> bool) \<Rightarrow> 's \<Rightarrow> 'a list \<Rightarrow> 's \<Rightarrow> bool" where
  "path R s [] t \<longleftrightarrow> s = t"
| "path R s (a # as) t \<longleftrightarrow> (\<exists>s1. R s a s1 \<and> path R s1 as t)"

lemma path_snoc: "path R s (as @ [a]) t \<longleftrightarrow> (\<exists>t1. path R s as t1 \<and> R t1 a t)"
  by (induction as arbitrary: s) auto

lemma path_inv: "path R s as t \<Longrightarrow> P s \<Longrightarrow> (\<And>s a t. R s a t \<Longrightarrow> P s \<Longrightarrow> P t) \<Longrightarrow> P t"
  by (induction as arbitrary: s) auto

text \<open>What the steps leave alone, and what they do to a measure of the state.\<close>

lemma path_same: "path R s as t \<Longrightarrow> (\<And>s a t. R s a t \<Longrightarrow> f t = f s) \<Longrightarrow> f t = f s"
  by (induction as arbitrary: s) fastforce+

locale commuting_threads =
  fixes A :: "'s \<Rightarrow> 'a \<Rightarrow> 's \<Rightarrow> bool" and B :: "'s \<Rightarrow> 'b \<Rightarrow> 's \<Rightarrow> bool"
  assumes commute: "A s a t \<Longrightarrow> B s b u \<Longrightarrow> \<exists>w. A u a w \<and> B t b w"
begin

lemma strip: "A s a t \<Longrightarrow> path B s bs u \<Longrightarrow> \<exists>w. path B t bs w \<and> A u a w"
proof (induction bs arbitrary: s t)
  case (Cons b bs)
  then obtain s1 where s1: "B s b s1" "path B s1 bs u" by auto
  then obtain t1 where t1: "A s1 a t1" "B t b t1" using commute[OF Cons.prems(1)] by blast
  then show ?case using Cons.IH[OF t1(1) s1(2)] by auto
qed auto

lemma corner: "path A s as t \<Longrightarrow> path B s bs u \<Longrightarrow> \<exists>w. path A u as w \<and> path B t bs w"
proof (induction as arbitrary: s u)
  case (Cons a as)
  then obtain s1 where s1: "A s a s1" "path A s1 as t" by auto
  then obtain u1 where u1: "path B s1 bs u1" "A u a u1" using strip Cons.prems(2) by blast
  then show ?case using Cons.IH[OF s1(2) u1(1)] by auto
qed auto

end

text \<open>The law is symmetric.\<close>

sublocale commuting_threads \<subseteq> swapped: commuting_threads B A
  by unfold_locales (use commute in blast)

end
