(* ===== verification/Rwq_Tso_Steps.thy ===== *)
theory Rwq_Tso_Steps
  imports Rwq_Tso Two_Threads
begin

unbundle bit_operations_syntax

text \<open>
  The queue is correct on the machine of \<open>Rwq_Tso\<close>. A thread's effects that the other one does
  not see yet are steps it has taken on a state that is older for the other thread. Steps of
  the two threads commute, where a step that reads what the other thread writes may have read
  an old value; so every state in which some of the pending effects have happened satisfies
  the invariant of \<open>Rwq_Conc\<close>, and each thread steps in one of these states.
\<close>

subsection \<open>The stores of the two threads commute\<close>

fun enq_side :: "'a store \<Rightarrow> bool" where
  "enq_side (StTail p x) = True" | "enq_side (StLocalFront p x) = True" | "enq_side (StNext p a) = True"
| "enq_side (StSlot p i x) = (x \<noteq> None)" | "enq_side (StBlock p b) = True" | "enq_side (StTailBlock p) = True"
| "enq_side _ = False"

fun deq_side :: "'a store \<Rightarrow> bool" where
  "deq_side (StFront p x) = True" | "deq_side (StLocalTail p x) = True"
| "deq_side (StSlot p i x) = (x = None)" | "deq_side (StFrontBlock p) = True"
| "deq_side _ = False"

fun target :: "'a store \<Rightarrow> addr option" where
  "target (StFrontBlock p) = None" | "target (StTailBlock p) = None"
| "target (StFront p x) = Some p" | "target (StLocalTail p x) = Some p"
| "target (StTail p x) = Some p" | "target (StLocalFront p x) = Some p"
| "target (StNext p a) = Some p" | "target (StSlot p i x) = Some p" | "target (StBlock p b) = Some p"

fun slot :: "'a store \<Rightarrow> (addr \<times> size_t) option" where
  "slot (StSlot p i x) = Some (p, i)" | "slot _ = None"

fun fresh :: "'a store \<Rightarrow> 'a conc \<Rightarrow> bool" where
  "fresh (StBlock p b) s = (mem s p = None)" | "fresh _ s = True"

lemma at_cell_commute:
  assumes "p = q \<Longrightarrow> (\<And>b. f (g b) = g (f b))"
  shows "at_cell p f (at_cell q g s) = at_cell q g (at_cell p f s)"
proof (rule conc_eqI)
  show "mem (at_cell p f (at_cell q g s)) = mem (at_cell q g (at_cell p f s))"
    using assms by (cases "mem s p") (auto simp: fun_eq_iff)
qed simp_all

lemma at_cell_put: "p \<noteq> q \<Longrightarrow> at_cell p f (s\<lparr>mem := (mem s)(q \<mapsto> b)\<rparr>) = (at_cell p f s)\<lparr>mem := (mem (at_cell p f s))(q \<mapsto> b)\<rparr>"
  by (rule conc_eqI) (auto simp: fun_eq_iff)

lemma at_cell_members: "at_cell p f (s\<lparr>members := m\<rparr>) = (at_cell p f s)\<lparr>members := m\<rparr>"
  by (rule conc_eqI) auto

lemma set_slot_store:
  "(set_slot i x b)\<lparr>front := y\<rparr> = set_slot i x (b\<lparr>front := y\<rparr>)"
  "(set_slot i x b)\<lparr>localTail := y\<rparr> = set_slot i x (b\<lparr>localTail := y\<rparr>)"
  "(set_slot i x b)\<lparr>tail := y\<rparr> = set_slot i x (b\<lparr>tail := y\<rparr>)"
  "(set_slot i x b)\<lparr>localFront := y\<rparr> = set_slot i x (b\<lparr>localFront := y\<rparr>)"
  "(set_slot i x b)\<lparr>nextB := a\<rparr> = set_slot i x (b\<lparr>nextB := a\<rparr>)"
  by (simp_all add: set_slot_def)

lemma commit_commute:
  assumes "enq_side w" "deq_side w'" "fresh w s" "\<And>p. target w' = Some p \<Longrightarrow> mem s p \<noteq> None"
    "slot w = None \<or> slot w' \<noteq> slot w"
  shows "commit w (commit w' s) = commit w' (commit w s)"
proof (cases "\<exists>p b. w = StBlock p b")
  case True
  then obtain p b where w: "w = StBlock p b" by blast
  then have "target w' \<noteq> Some p" using assms(3,4) by auto
  then show ?thesis using assms(2) w by (cases w') (auto simp: at_cell_put at_cell_members fun_upd_twist intro!: conc_eqI)
next
  case False
  show ?thesis using assms False
    by (cases w; cases w')
      (auto simp: at_cell_members set_slot_store set_slot_commute word_unat_eq_iff intro!: at_cell_commute)
qed

lemma enq_stores_one: "enq_stores pc e = [] \<or> (\<exists>w. enq_stores pc e = [w] \<and> enq_side w)"
  by (cases pc) (auto split: enq_pc.split)

lemma deq_stores_one: "deq_stores pc d = [] \<or> (\<exists>w. deq_stores pc d = [w] \<and> deq_side w)"
  by (cases pc) (auto simp: Let_def)

lemma drain_commute:
  assumes "\<And>w. w \<in> set (enq_stores pe e) \<Longrightarrow> fresh w s"
    and "\<And>w p. w \<in> set (deq_stores pd d) \<Longrightarrow> target w = Some p \<Longrightarrow> mem s p \<noteq> None"
    and "\<And>w w'. w \<in> set (enq_stores pe e) \<Longrightarrow> w' \<in> set (deq_stores pd d) \<Longrightarrow> slot w = None \<or> slot w' \<noteq> slot w"
  shows "drain (enq_stores pe e) (drain (deq_stores pd d) s) = drain (deq_stores pd d) (drain (enq_stores pe e) s)"
proof (cases "enq_stores pe e = [] \<or> deq_stores pd d = []")
  case False
  then obtain w w' where w: "enq_stores pe e = [w]" "enq_side w" "deq_stores pd d = [w']" "deq_side w'"
    using enq_stores_one[of pe e] deq_stores_one[of pd d] by blast
  then show ?thesis using commit_commute[OF w(2,4)] assms by simp
qed auto

lemma commit_regs:
  "commit w (enq_regs e s) = enq_regs e (commit w s)" "commit w (deq_regs d s) = deq_regs d (commit w s)"
  by (cases w; auto intro!: conc_eqI)+

lemma drain_regs:
  "drain ws (enq_regs e s) = enq_regs e (drain ws s)" "drain ws (deq_regs d s) = deq_regs d (drain ws s)"
  by (induction ws arbitrary: s) (simp_all add: commit_regs)

lemma regs_commute: "enq_regs e (deq_regs d s) = deq_regs d (enq_regs e s)"
  by (auto intro!: conc_eqI)

lemma app_commute:
  assumes "drain (enq_stores pe e) (drain (deq_stores pd d) s) = drain (deq_stores pd d) (drain (enq_stores pe e) s)"
  shows "eapp pe e (dapp pd d s) = dapp pd d (eapp pe e s)"
  by (simp add: eapp_def dapp_def drain_regs regs_commute assms)

subsection \<open>What a thread sees of the other one's step\<close>

text \<open>The producer does not read \<^verbatim>\<open>front\<close> except in three of its steps, and so on.\<close>

definition enq_sees_no :: "'a conc \<Rightarrow> 'a conc \<Rightarrow> bool" where
  "enq_sees_no s u \<longleftrightarrow> (\<forall>p b b'. mem s p = Some b \<longrightarrow> mem u p = Some b' \<longrightarrow>
       tail b' = tail b \<and> localFront b' = localFront b \<and> nextB b' = nextB b \<and> sizeMask b' = sizeMask b \<and>
       length (slots b') = length (slots b)) \<and>
     epc u = epc s \<and> in_log u = in_log s \<and> tailBlock (members u) = tailBlock (members s) \<and>
     enqueuing (members u) = enqueuing (members s) \<and> largestBlockSize (members u) = largestBlockSize (members s)"

definition deq_sees_no :: "'a conc \<Rightarrow> 'a conc \<Rightarrow> bool" where
  "deq_sees_no s t \<longleftrightarrow> (\<forall>p b b'. mem s p = Some b \<longrightarrow> mem t p = Some b' \<longrightarrow>
       front b' = front b \<and> localTail b' = localTail b \<and> sizeMask b' = sizeMask b \<and> length (slots b') = length (slots b) \<and>
       (\<forall>i. deq_slot (dpc s) = Some (p, i) \<longrightarrow> slots b' ! unat i = slots b ! unat i)) \<and>
     dpc t = dpc s \<and> out_log t = out_log s \<and> frontBlock (members t) = frontBlock (members s) \<and>
     dequeuing (members t) = dequeuing (members s)"

lemma set_slot_length [simp]: "length (slots (set_slot i x b)) = length (slots b)"
  by (simp add: set_slot_def)

lemma nth_set_slot: "i \<noteq> j \<Longrightarrow> slots (set_slot i x b) ! unat j = slots b ! unat j"
  by (simp add: set_slot_def word_unat_eq_iff)

lemma dapp_unseen: "enq_sees_no s (dapp pd d s)"
  using deq_stores_one[of pd d]
proof
  assume "\<exists>w. deq_stores pd d = [w] \<and> deq_side w"
  then obtain w where "deq_stores pd d = [w]" "deq_side w" by blast
  then show ?thesis by (cases w) (auto simp: enq_sees_no_def dapp_def)
qed (simp add: enq_sees_no_def dapp_def)

lemma eapp_unseen:
  assumes "\<And>w. w \<in> set (enq_stores pe e) \<Longrightarrow> fresh w s"
    and "\<And>w x. w \<in> set (enq_stores pe e) \<Longrightarrow> slot w = Some x \<Longrightarrow> deq_slot (dpc s) \<noteq> Some x"
  shows "deq_sees_no s (eapp pe e s)"
  using enq_stores_one[of pe e]
proof
  assume "\<exists>w. enq_stores pe e = [w] \<and> enq_side w"
  then obtain w where w: "enq_stores pe e = [w]" "enq_side w" by blast
  then have "fresh w s" "\<And>x. slot w = Some x \<Longrightarrow> deq_slot (dpc s) \<noteq> Some x" using assms by simp_all
  then show ?thesis using w
    by (cases w) (auto simp: deq_sees_no_def eapp_def nth_set_slot[OF not_sym] split: if_splits)
qed (simp add: deq_sees_no_def eapp_def)

subsection \<open>A step on a state the other thread has changed\<close>

text \<open>Steps that do not read what the other thread writes.\<close>

fun enq_reads :: "'a enq_pc \<Rightarrow> bool" where
  "enq_reads (EFront tb m v) = True" | "enq_reads (EChk tb m v) = True" | "enq_reads (EAlloc tb v) = True"
| "enq_reads _ = False"

fun deq_reads :: "'a deq_pc \<Rightarrow> bool" where
  "deq_reads (DTail fb) = True" | "deq_reads (DChk fb) = True" | "deq_reads DRe = True"
| "deq_reads (DNext fb) = True" | "deq_reads (DNextTail nb) = True" | "deq_reads _ = False"

definition enq_run :: "'a env \<Rightarrow> 'a conc \<Rightarrow> 'a conc \<Rightarrow> bool" where
  "enq_run env s t \<longleftrightarrow> (if epc s = EIdle then \<exists>m v. enq_start m v s = Inr t else enq_step env (epc s) s = Inr t)"

definition deq_run :: "'a conc \<Rightarrow> 'a conc \<Rightarrow> bool" where
  "deq_run s u \<longleftrightarrow> (if dpc s = DIdle then deq_start s = Inr u else deq_step (dpc s) s = Inr u)"

lemma enq_sees_noD:
  assumes "enq_sees_no s u"
  shows "mem s p = Some b \<Longrightarrow> mem u p = Some b' \<Longrightarrow> tail b' = tail b \<and> localFront b' = localFront b \<and>
      nextB b' = nextB b \<and> sizeMask b' = sizeMask b \<and> length (slots b') = length (slots b)"
    "epc u = epc s" "in_log u = in_log s" "tailBlock (members u) = tailBlock (members s)"
    "enqueuing (members u) = enqueuing (members s)" "largestBlockSize (members u) = largestBlockSize (members s)"
  using assms unfolding enq_sees_no_def by blast+

lemma deq_sees_noD:
  assumes "deq_sees_no s t"
  shows "mem s p = Some b \<Longrightarrow> mem t p = Some b' \<Longrightarrow> front b' = front b \<and> localTail b' = localTail b \<and>
      sizeMask b' = sizeMask b \<and> length (slots b') = length (slots b)"
    "mem s p = Some b \<Longrightarrow> mem t p = Some b' \<Longrightarrow> deq_slot (dpc s) = Some (p, i) \<Longrightarrow> slots b' ! unat i = slots b ! unat i"
    "dpc t = dpc s" "out_log t = out_log s" "frontBlock (members t) = frontBlock (members s)"
    "dequeuing (members t) = dequeuing (members s)"
  using assms unfolding deq_sees_no_def by blast+

lemma enq_start_shift:
  assumes "enq_start m v s = Inr t" "enq_start m v u = Inr w" "enq_sees_no s u"
  shows "w = eapp EIdle t u"
  using assms(1,2)
  by (auto simp: enq_start_def Let_def get_cell enq_sees_noD(2-)[OF assms(3)] eapp_def advance_def
      intro!: conc_eqI dest!: enq_sees_noD(1)[OF assms(3)])

lemma enq_step_shift:
  assumes "enq_step env pc s = Inr t" "enq_step env pc u = Inr w" "enq_sees_no s u" "\<not> enq_reads pc" "pc \<noteq> EIdle"
  shows "w = eapp pc t u"
  using assms(1,2,4,5)
  by (cases pc) (auto simp: assertE_def split: if_splits simp: get_cell enq_sees_noD(2-)[OF assms(3)] eapp_def enq_return_def advance_def construct_eq
      intro!: conc_eqI dest!: enq_sees_noD(1)[OF assms(3)])

lemma deq_start_shift:
  assumes "deq_start s = Inr u" "deq_start t = Inr w" "deq_sees_no s t"
  shows "w = dapp DIdle u t"
  using assms(1,2)
  by (auto simp: deq_start_def Let_def get_cell deq_sees_noD(3-)[OF assms(3)] dapp_def intro!: conc_eqI
      dest!: deq_sees_noD(1)[OF assms(3)])

lemma deq_step_shift:
  assumes "deq_step (dpc s) s = Inr u" "deq_step (dpc s) t = Inr w" "deq_sees_no s t" "\<not> deq_reads (dpc s)" "dpc s \<noteq> DIdle"
  shows "w = dapp (dpc s) u t"
proof (cases "dpc s")
  case (DMove fb i)
  then obtain b b' v v' where b: "mem s fb = Some b" "mem t fb = Some b'" "slots b ! unat i = Some v" "slots b' ! unat i = Some v'"
    and u: "u = s\<lparr>mem := (mem s)(fb \<mapsto> set_slot i None b), dpc := DPub fb i v\<rparr>"
    and w: "w = t\<lparr>mem := (mem t)(fb \<mapsto> set_slot i None b'), dpc := DPub fb i v'\<rparr>"
    using assms(1,2) by (auto simp: get_cell move_out_eq)
  have "v' = v" using deq_sees_noD(2)[OF assms(3) b(1,2), of i] DMove b(3,4) by (simp add: deq_slot_def)
  then show ?thesis unfolding u w DMove using b deq_sees_noD(3-)[OF assms(3)] by (auto simp: dapp_def intro!: conc_eqI)
qed (use assms(1,2,4,5) in \<open>auto simp: get_cell deq_sees_noD(3-)[OF assms(3)] dapp_def deq_return_def advance_def
    intro!: conc_eqI dest!: deq_sees_noD(1)[OF assms(3)]\<close>)

lemma enq_run_shift:
  assumes env: "env_ok env" and r: "enq_run env s t" and n: "\<not> enq_reads (epc s)" and u: "enq_sees_no s u" "conc_inv env u"
  shows "enq_run env u (eapp (epc s) t u)" "conc_inv env (eapp (epc s) t u)"
proof -
  have pc: "epc u = epc s" by (rule enq_sees_noD(2)[OF u(1)])
  have "enq_run env u (eapp (epc s) t u) \<and> conc_inv env (eapp (epc s) t u)"
  proof (cases "epc s = EIdle")
    case True
    then obtain m v where m: "enq_start m v s = Inr t" using r by (auto simp: enq_run_def)
    have "conc_step env (CallEnqueue m v) u = Some (enq_start m v u)" using True pc by simp
    then obtain w where w: "enq_start m v u = Inr w" "conc_inv env w" using conc_step_inv[OF env u(2)] by blast
    then show ?thesis using enq_start_shift[OF m w(1) u(1)] True pc by (auto simp: enq_run_def)
  next
    case False
    then have s: "enq_step env (epc s) s = Inr t" using r by (simp add: enq_run_def)
    have "conc_step env StepEnqueue u = Some (enq_step env (epc s) u)" using False pc by (auto split: enq_pc.splits)
    then obtain w where w: "enq_step env (epc s) u = Inr w" "conc_inv env w" using conc_step_inv[OF env u(2)] by blast
    then show ?thesis using enq_step_shift[OF s w(1) u(1) n False] False pc by (simp add: enq_run_def)
  qed
  then show "enq_run env u (eapp (epc s) t u)" "conc_inv env (eapp (epc s) t u)" by blast+
qed

lemma deq_run_shift:
  assumes env: "env_ok env" and r: "deq_run s u" and n: "\<not> deq_reads (dpc s)" and t: "deq_sees_no s t" "conc_inv env t"
  shows "deq_run t (dapp (dpc s) u t)" "conc_inv env (dapp (dpc s) u t)"
proof -
  have pc: "dpc t = dpc s" by (rule deq_sees_noD(3)[OF t(1)])
  have "deq_run t (dapp (dpc s) u t) \<and> conc_inv env (dapp (dpc s) u t)"
  proof (cases "dpc s = DIdle")
    case True
    then have m: "deq_start s = Inr u" using r by (simp add: deq_run_def)
    have "conc_step env CallDequeue t = Some (deq_start t)" using True pc by simp
    then obtain w where w: "deq_start t = Inr w" "conc_inv env w" using conc_step_inv[OF env t(2)] by blast
    then show ?thesis using deq_start_shift[OF m w(1) t(1)] True pc by (auto simp: deq_run_def)
  next
    case False
    then have s: "deq_step (dpc s) s = Inr u" using r by (simp add: deq_run_def)
    have "conc_step env StepDequeue t = Some (deq_step (dpc s) t)" using False pc by (auto split: deq_pc.splits)
    then obtain w where w: "deq_step (dpc s) t = Inr w" "conc_inv env w" using conc_step_inv[OF env t(2)] by blast
    then show ?thesis using deq_step_shift[OF s w(1) t(1) n False] False pc by (simp add: deq_run_def)
  qed
  then show "deq_run t (dapp (dpc s) u t)" "conc_inv env (dapp (dpc s) u t)" by blast+
qed

subsection \<open>A state determines its ring\<close>

definition same_core :: "'a Block \<Rightarrow> 'a Block \<Rightarrow> bool" where
  "same_core b b' \<longleftrightarrow> front b' = front b \<and> tail b' = tail b \<and> nextB b' = nextB b \<and> sizeMask b' = sizeMask b \<and> slots b' = slots b"

lemma block_rep_unique:
  assumes b: "block_rep b vs" "block_rep b' vs'" "same_core b b'"
  shows "vs' = vs"
proof -
  have l: "length vs < cap b" "length vs' < cap b" using b by (auto simp: block_rep_def same_core_def)
  have e: "(if j < length vs then Some (vs ! j) else None) = (if j < length vs' then Some (vs' ! j) else None)" if "j < cap b" for j
  proof -
    have "slots b ! ((unat (front b) + j) mod cap b) = (if j < length vs then Some (vs ! j) else None)"
      using b(1) that by (simp add: block_rep_def slots_ok_def)
    moreover have "slots b ! ((unat (front b) + j) mod cap b) = (if j < length vs' then Some (vs' ! j) else None)"
      using b(2,3) that by (simp add: block_rep_def slots_ok_def same_core_def)
    ultimately show ?thesis by simp
  qed
  have "length vs' = length vs"
    using e[OF l(1)] e[OF l(2)] by (auto split: if_splits)
  moreover have "vs' ! j = vs ! j" if "j < length vs" for j using e[of j] that l calculation by simp
  ultimately show ?thesis by (simp add: list_eq_iff_nth_eq)
qed

lemma ring_unique:
  assumes r: "ring_rep h bs vss" and r': "ring_rep h' bs' vss'" and z: "bs' ! 0 = bs ! 0"
    and eq: "\<And>p. p \<in> set bs \<Longrightarrow> same_core (the (h p)) (the (h' p))"
  shows "bs' = bs" "vss' = vss"
proof -
  have ne: "0 < length bs" "0 < length bs'" using r r' by (auto simp: ring_rep_def)
  have d: "distinct bs" "distinct bs'" using r r' by (auto simp: ring_rep_def)
  have step: "bs' ! (Suc i mod length bs') = bs ! (Suc i mod length bs)" if "i < length bs" "i < length bs'" "bs' ! i = bs ! i" for i
    using ring_rep_blk(3)[OF r that(1)] ring_rep_blk(3)[OF r' that(2)] eq[OF nth_mem[OF that(1)]] that(3)
    by (simp add: same_core_def)
  have same: "i < length bs \<Longrightarrow> i < length bs' \<Longrightarrow> bs' ! i = bs ! i" for i
  proof (induction i)
    case (Suc i)
    then show ?case using step[of i] by simp
  qed (use z in simp)
  have "\<not> length bs < length bs'"
  proof
    assume l: "length bs < length bs'"
    then have "bs' ! length bs = bs' ! 0" using step[of "length bs - 1"] same[of "length bs - 1"] ne z by simp
    then show False using d(2) l ne by (simp add: nth_eq_iff_index_eq)
  qed
  moreover have "\<not> length bs' < length bs"
  proof
    assume l: "length bs' < length bs"
    then have "bs ! length bs' = bs ! 0" using step[of "length bs' - 1"] same[of "length bs' - 1"] ne z by simp
    then show False using d(1) l ne by (simp add: nth_eq_iff_index_eq)
  qed
  ultimately have len: "length bs' = length bs" by simp
  then show b: "bs' = bs" using same by (simp add: list_eq_iff_nth_eq)
  have "vss' ! i = vss ! i" if "i < length bs" for i
    using block_rep_unique[OF ring_rep_blk(2)[OF r that] ring_rep_blk(2)[OF r'[unfolded b] that]] eq[OF nth_mem[OF that]] by simp
  then show "vss' = vss" using ring_rep_length[OF r] ring_rep_length[OF r'] b by (simp add: list_eq_iff_nth_eq)
qed

lemma block_rep_shadow:
  assumes "block_rep b vs" "block_rep b' vs" "same_core b b'"
  shows "block_rep (b\<lparr>localTail := localTail b'\<rparr>) vs"
  using assms by (auto simp: block_rep_def block_shape_def shadows_ok_def slots_ok_def same_core_def)

lemma dinv_cong:
  assumes "dinv pc G bs vss k" "k < length bs"
    and "\<And>i. i < length bs \<Longrightarrow> front (blk G' bs i) = front (blk G bs i) \<and> localTail (blk G' bs i) = localTail (blk G bs i)"
  shows "dinv pc G' bs vss k"
proof -
  have "0 < length bs" "0 < k \<Longrightarrow> 1 < length bs" using assms(2) by auto
  note z = assms(3)[OF this(1)] and o = assms(3)[OF this(2)]
  show ?thesis using assms(1) z o by (cases pc) auto
qed

subsection \<open>Two reads of old values\<close>

fun equiet :: "'a enq_pc \<Rightarrow> bool" where
  "equiet (EPub tb i v) = False" | "equiet (EPubN nb i v) = False" | "equiet (ETail nb) = False" | "equiet _ = True"

fun dquiet :: "'a deq_pc \<Rightarrow> bool" where
  "dquiet (DPub fb i v) = False" | "dquiet _ = True"

lemma patched_quiet: "equiet ep \<Longrightarrow> dquiet dp \<Longrightarrow> patched ep dp G = G"
  by (cases ep; cases dp) (simp_all add: patched_idle)

lemma reads_quiet: "enq_reads ep \<Longrightarrow> equiet ep" "deq_reads dp \<Longrightarrow> dquiet dp"
  by (cases ep; simp) (cases dp; simp)

text \<open>A read of the consumer stores to at most the shadow tail of a block of the ring.\<close>

lemma deq_read_store:
  assumes c: "conc_at env t G bs vss k" and rd: "deq_reads (dpc t)"
    and f: "dpc t = DRe \<Longrightarrow> frontBlock (members d) = frontBlock (members t)"
  shows "deq_stores (dpc t) d = [] \<or> (\<exists>j x. j < length bs \<and> deq_stores (dpc t) d = [StLocalTail (bs ! j) x])"
proof -
  have l: "0 < length bs" "0 < k \<Longrightarrow> 1 < length bs" using conc_atD(6,7)[OF c] by auto
  show ?thesis using conc_atD(5)[OF c] conc_atD(10)[OF c] rd f l by (cases "dpc t") (auto simp: Let_def)
qed

lemma stale_deq:
  assumes t: "conc_at env t G bs vss k" and u: "conc_inv env u"
    and q: "equiet (epc t)" "equiet (epc u)" "deq_reads (dpc t)" "dquiet (dpc u)"
    and f: "dpc t = DRe \<Longrightarrow> frontBlock (members d) = frontBlock (members t)"
    and d: "out_log d = out_log t" "dpc d = dpc u" "dequeuing (members d) = dequeuing (members u)"
    and m: "frontBlock (members u) = frontBlock (members t)" "tailBlock (members u) = tailBlock (members t)"
    and core: "\<And>p. p \<in> set bs \<Longrightarrow> same_core (cell t p) (cell u p)"
    and lt: "\<And>p. p \<in> set bs \<Longrightarrow> localTail (cell (dapp (dpc t) d t) p) = localTail (cell u p)"
  shows "conc_inv env (dapp (dpc t) d t)"
proof -
  let ?w = "dapp (dpc t) d t"
  note r = conc_atD(1)[OF t] and rr = conc_atD(9)[OF t] and kl = conc_atD(7)[OF t] and z = conc_atD(6)[OF t]
  have mt: "mem t = G" using conc_atD(2)[OF t] patched_quiet[OF q(1) reads_quiet(2)[OF q(3)]] by simp
  obtain G' bs' vss' k' where u': "conc_at env u G' bs' vss' k'" using u by (auto simp: conc_inv_def)
  have mu: "mem u = G'" using conc_atD(2)[OF u'] patched_quiet[OF q(2,4)] by simp
  have "bs' ! 0 = bs ! 0" using conc_atD(10)[OF u'] conc_atD(10)[OF t] m by simp
  then have un: "bs' = bs" "vss' = vss"
    using ring_unique[OF rr conc_atD(9)[OF u']] core unfolding mt mu by blast+
  have k': "k' = k"
    using conc_atD(7,11)[OF u'] conc_atD(11)[OF t] m un(1) kl rr by (auto simp: ring_rep_def nth_eq_iff_index_eq)
  note u = u'[folded mu, unfolded un k']
  note B = ring_at_blk[OF r]
  have wm: "mem ?w = mem (drain (deq_stores (dpc t) d) t)" by (simp add: dapp_def)
  define x where "x j = localTail (cell u (bs ! j))" for j
  obtain j where j: "j < length bs" and wj: "mem ?w = G(bs ! j \<mapsto> (blk G bs j)\<lparr>localTail := x j\<rparr>)"
    using deq_read_store[OF t q(3) f]
  proof
    assume n: "deq_stores (dpc t) d = []"
    then have "x 0 = localTail (blk G bs 0)" using lt[OF nth_mem[OF z]] wm mt by (simp add: x_def)
    then have "mem ?w = G(bs ! 0 \<mapsto> (blk G bs 0)\<lparr>localTail := x 0\<rparr>)" using n wm mt B(1)[OF z] by (auto simp: fun_eq_iff)
    then show thesis using that z by blast
  next
    assume "\<exists>j y. j < length bs \<and> deq_stores (dpc t) d = [StLocalTail (bs ! j) y]"
    then obtain j y where j: "j < length bs" "deq_stores (dpc t) d = [StLocalTail (bs ! j) y]" by blast
    then have w: "mem ?w = G(bs ! j \<mapsto> (blk G bs j)\<lparr>localTail := y\<rparr>)" using wm mt j(2) B(1)[OF j(1)] by (cases "G (bs ! j)") auto
    moreover have "y = x j" using lt[OF nth_mem[OF j(1)]] w by (simp add: x_def)
    ultimately show thesis using that j(1) by blast
  qed
  let ?b = "(blk G bs j)\<lparr>localTail := x j\<rparr>"
  have same: "same_block (blk G bs j) ?b" by (simp add: same_block_def)
  have rep: "block_rep ?b (vss ! j)"
    using block_rep_shadow[OF B(2)[OF j] ring_at_blk(2)[OF conc_atD(1)[OF u] j]] core[OF nth_mem[OF j]] mt by (simp add: x_def)
  have "ring_at env (mem ?w) (members t) bs vss k" unfolding wj using ring_at_upd[OF r j rep same] by simp
  then have "ring_at env (mem ?w) (members ?w) bs vss k"
    using deq_read_store[OF t q(3) f] by (auto simp: ring_at_def dapp_def)
  moreover have "cpart (mem ?w) bs vss k (ahead (epc t))"
    unfolding wj using cpart_upd[OF conc_atD(3)[OF t] r j, of ?b "vss ! j"] by simp
  moreover have "einv (epc t) (mem ?w) bs vss k"
    unfolding wj using einv_upd[OF conc_atD(4)[OF t] r j _ _ same, of "vss ! j"] by simp
  moreover have "dinv (dpc u) (mem ?w) bs vss k"
  proof (rule dinv_cong[OF conc_atD(5)[OF u] kl])
    fix i assume i: "i < length bs"
    have "front (blk (mem ?w) bs i) = front (blk G bs i)" unfolding wj using blk_upd[OF rr i j, of ?b] by auto
    then show "front (blk (mem ?w) bs i) = front (blk (mem u) bs i) \<and> localTail (blk (mem ?w) bs i) = localTail (blk (mem u) bs i)"
      using core[OF nth_mem[OF i]] lt[OF nth_mem[OF i]] mt by (simp add: same_core_def)
  qed
  moreover have "patched (epc t) (dpc u) (mem ?w) = mem ?w" by (rule patched_quiet[OF q(1,4)])
  ultimately have "conc_at env ?w (mem ?w) bs vss k"
    using t u d by (simp add: conc_at_def dapp_def)
  then show ?thesis by (rule conc_invI)
qed

subsection \<open>Steps of the two threads commute\<close>

definition enq_edge :: "'a env \<Rightarrow> 'a conc \<Rightarrow> 'a conc \<Rightarrow> 'a conc \<Rightarrow> bool" where
  "enq_edge env s e t \<longleftrightarrow> env_ok env \<and> conc_inv env s \<and> conc_inv env t \<and> t = eapp (epc s) e s \<and>
     (if enq_reads (epc s) then equiet (epc e) \<and> in_log e = in_log s \<and> (\<forall>w \<in> set (enq_stores (epc s) e). fresh w s)
      else enq_run env s t)"

definition deq_edge :: "'a env \<Rightarrow> 'a conc \<Rightarrow> 'a conc \<Rightarrow> 'a conc \<Rightarrow> bool" where
  "deq_edge env s d u \<longleftrightarrow> env_ok env \<and> conc_inv env s \<and> conc_inv env u \<and> u = dapp (dpc s) d s \<and>
     (if deq_reads (dpc s) then dquiet (dpc d) \<and> out_log d = out_log s \<and>
        (dpc s = DRe \<longrightarrow> frontBlock (members d) = frontBlock (members s))
      else deq_run s u)"

lemma app_pcs [simp]:
  "epc (eapp pc e s) = epc e" "dpc (eapp pc e s) = dpc s" "in_log (eapp pc e s) = in_log e" "out_log (eapp pc e s) = out_log s"
  "epc (dapp qc d s) = epc s" "dpc (dapp qc d s) = dpc d" "in_log (dapp qc d s) = in_log s" "out_log (dapp qc d s) = out_log d"
  by (simp_all add: eapp_def dapp_def)

text \<open>Where a thread stores, seen from the state it steps in.\<close>

lemma enq_fresh:
  assumes "enq_edge env s e t" "w \<in> set (enq_stores (epc s) e)"
  shows "fresh w s"
  using assms by (cases "epc s") (auto simp: enq_edge_def)

lemma enq_store_slot: "w \<in> set (enq_stores (epc s) e) \<Longrightarrow> slot w = Some x \<Longrightarrow> enq_slot (epc s) = Some x"
  by (cases "epc s") (auto simp: enq_slot_def split: enq_pc.splits)

lemma deq_store_slot: "w \<in> set (deq_stores (dpc s) d) \<Longrightarrow> slot w = Some x \<Longrightarrow> deq_slot (dpc s) = Some x"
  by (cases "dpc s") (auto simp: deq_slot_def Let_def)

lemma deq_target:
  assumes e: "deq_edge env s d u" and w: "w \<in> set (deq_stores (dpc s) d)" "target w = Some p"
  shows "mem s p \<noteq> None"
proof -
  obtain G bs vss k where c: "conc_at env s G bs vss k" using e by (auto simp: deq_edge_def conc_inv_def)
  note d = conc_atD(5)[OF c] and r = conc_atD(9)[OF c]
  have l: "0 < length bs" "0 < k \<Longrightarrow> 1 < length bs" using conc_atD(6,7)[OF c] by auto
  have "\<exists>i < length bs. p = bs ! i"
  proof (cases "dpc s")
    case DRe
    then have "p = bs ! 0" using e w conc_atD(10)[OF c] by (auto simp: deq_edge_def Let_def)
    then show ?thesis using l(1) by blast
  qed (use d w l in auto)
  then obtain i where "i < length bs" "p = bs ! i" by blast
  then show ?thesis using ring_rep_blk(1)[OF r, of i] conc_atD(2)[OF c] by (auto simp: patched_def)
qed

lemma no_clash:
  assumes "enq_edge env s e t" "w \<in> set (enq_stores (epc s) e)" "slot w = Some x"
  shows "deq_slot (dpc s) \<noteq> Some x"
proof
  assume d: "deq_slot (dpc s) = Some x"
  obtain G bs vss k where c: "conc_at env s G bs vss k" using assms(1) by (auto simp: enq_edge_def conc_inv_def)
  show False using slots_apart[OF c d] enq_store_slot[OF assms(2,3)] by simp
qed

lemma edges_commute:
  assumes e: "enq_edge env s e t" and d: "deq_edge env s d u"
  shows "eapp (epc s) e u = dapp (dpc s) d t"
proof -
  have "u = dapp (dpc s) d s" "t = eapp (epc s) e s" using e d by (simp_all add: enq_edge_def deq_edge_def)
  moreover have sl: "slot w = None \<or> slot w' \<noteq> slot w"
    if "w \<in> set (enq_stores (epc s) e)" "w' \<in> set (deq_stores (dpc s) d)" for w w'
    using no_clash[OF e that(1)] deq_store_slot[OF that(2)] by (cases "slot w") auto
  have "drain (enq_stores (epc s) e) (drain (deq_stores (dpc s) d) s) = drain (deq_stores (dpc s) d) (drain (enq_stores (epc s) e) s)"
    by (rule drain_commute) (use enq_fresh[OF e] deq_target[OF d] sl in blast)+
  ultimately show ?thesis using app_commute by simp
qed

lemma same_core_refl [simp]: "same_core b b"
  by (simp add: same_core_def)

lemma enq_read_cell:
  assumes "enq_reads (epc s)" "\<And>b. StBlock p b \<notin> set (enq_stores (epc s) e)"
  shows "\<exists>f. mem (eapp (epc s) e s) p = map_option f (mem s p) \<and> (\<forall>b. same_core b (f b) \<and> localTail (f b) = localTail b)"
proof (cases "mem (eapp (epc s) e s) p = mem s p")
  case True
  then show ?thesis by (intro exI[of _ id]) (simp add: option.map_id)
next
  case False
  then have "\<exists>x. mem (eapp (epc s) e s) p = map_option (\<lambda>b. b\<lparr>localFront := x\<rparr>) (mem s p)"
    using assms by (cases "epc s") (auto simp: eapp_def split: enq_pc.splits if_splits)
  then show ?thesis by (auto simp: same_core_def)
qed

lemma deq_read_cell:
  assumes "deq_reads qc" "mem t p = map_option f (mem s p)" "\<And>b. same_core b (f b) \<and> localTail (f b) = localTail b" "mem s p \<noteq> None"
  shows "same_core (cell t p) (cell (dapp qc d s) p)" "localTail (cell (dapp qc d t) p) = localTail (cell (dapp qc d s) p)"
  using assms by (cases qc; auto simp: dapp_def Let_def same_core_def)+

lemma eapp_label:
  assumes "enq_run env s (eapp (epc s) e s)" "\<not> enq_reads (epc s)"
  shows "eapp (epc s) (eapp (epc s) e s) u = eapp (epc s) e u"
proof -
  have "enq_stores (epc s) (eapp (epc s) e s) = enq_stores (epc s) e"
    using assms by (cases "epc s") (auto simp: enq_run_def get_cell eapp_def)
  then show ?thesis by (simp add: eapp_def[of "epc s" _ u]) (auto simp: eapp_def intro!: conc_eqI)
qed

lemma dapp_label:
  assumes "deq_run s (dapp (dpc s) d s)" "\<not> deq_reads (dpc s)"
  shows "dapp (dpc s) (dapp (dpc s) d s) t = dapp (dpc s) d t"
proof -
  have "deq_stores (dpc s) (dapp (dpc s) d s) = deq_stores (dpc s) d"
    using assms by (cases "dpc s") (auto simp: deq_run_def get_cell dapp_def)
  then show ?thesis by (simp add: dapp_def[of "dpc s" _ t]) (auto simp: dapp_def intro!: conc_eqI)
qed

lemma both_read:
  assumes e: "enq_edge env s e t" "enq_reads (epc s)" and d: "deq_edge env s d u" "deq_reads (dpc s)"
  shows "conc_inv env (dapp (dpc s) d t)"
proof -
  have tu: "t = eapp (epc s) e s" "u = dapp (dpc s) d s" "equiet (epc e)" "dquiet (dpc d)" "out_log d = out_log s"
    "dpc s = DRe \<Longrightarrow> frontBlock (members d) = frontBlock (members s)" "conc_inv env t" "conc_inv env u"
    using e(1)[unfolded enq_edge_def if_P[OF e(2)]] d(1)[unfolded deq_edge_def if_P[OF d(2)]] by blast+
  obtain G bs vss k where c: "conc_at env t G bs vss k" using tu(7) by (auto simp: conc_inv_def)
  have mt: "mem t = G" using conc_atD(2)[OF c] patched_quiet[of "epc t" "dpc t"] tu(1,3) reads_quiet(2)[OF d(2)] by simp
  have nb: "StBlock p b \<notin> set (enq_stores (epc s) e)" if "p \<in> set bs" for p b
    using conc_atD(4)[OF c] that tu(1) by (cases "epc s"; cases "epc e") auto
  have f: "\<exists>f. mem t p = map_option f (mem s p) \<and> (\<forall>b. same_core b (f b) \<and> localTail (f b) = localTail b) \<and> mem s p \<noteq> None"
    if p: "p \<in> set bs" for p
  proof -
    obtain i where "i < length bs" "p = bs ! i" using p by (auto simp: in_set_conv_nth)
    then have "mem t p \<noteq> None" using ring_at_blk(1)[OF conc_atD(1)[OF c]] mt by auto
    moreover obtain f where f: "mem t p = map_option f (mem s p)" "\<forall>b. same_core b (f b) \<and> localTail (f b) = localTail b"
      using enq_read_cell[of s p e, OF e(2) nb[OF p]] tu(1) by blast
    ultimately have "mem s p \<noteq> None" by auto
    then show ?thesis using f by blast
  qed
  have mem_t: "frontBlock (members t) = frontBlock (members s)" "tailBlock (members t) = tailBlock (members s)"
    using e(2) unfolding tu(1) by (cases "epc s"; auto simp: eapp_def split: enq_pc.splits)+
  have mem_u: "frontBlock (members u) = frontBlock (members s)" "tailBlock (members u) = tailBlock (members s)"
    using d(2) unfolding tu(2) by (cases "dpc s"; auto simp: dapp_def Let_def)+
  have pcs: "dpc t = dpc s" "epc t = epc e" "epc u = epc s" "dpc u = dpc d" "out_log t = out_log s"
    "dequeuing (members u) = dequeuing (members d)" unfolding tu by (simp_all add: dapp_def)
  have "conc_inv env (dapp (dpc t) d t)"
  proof (rule stale_deq[OF c tu(8)])
    fix p assume "p \<in> set bs"
    then obtain g where "mem t p = map_option g (mem s p)" "\<And>b. same_core b (g b) \<and> localTail (g b) = localTail b" "mem s p \<noteq> None"
      using f by blast
    note r = deq_read_cell[OF d(2) this, of d]
    show "same_core (cell t p) (cell u p)" "localTail (cell (dapp (dpc t) d t) p) = localTail (cell u p)"
      using r unfolding pcs tu(2) by simp_all
  qed (use pcs mem_t mem_u tu(3-6) e(2) d(2) reads_quiet in simp_all)
  then show ?thesis unfolding pcs .
qed

lemma edges_diamond:
  assumes e: "enq_edge env s e t" and d: "deq_edge env s d u"
  shows "\<exists>w. enq_edge env u e w \<and> deq_edge env t d w"
proof -
  have env: "env_ok env" and inv: "conc_inv env s" "conc_inv env t" "conc_inv env u"
    and t: "t = eapp (epc s) e s" and u: "u = dapp (dpc s) d s" using e d unfolding enq_edge_def deq_edge_def by blast+
  let ?w = "eapp (epc s) e u"
  note w = edges_commute[OF e d]
  have pcs: "epc u = epc s" "dpc t = dpc s" "in_log u = in_log s" "out_log t = out_log s" unfolding t u by simp_all
  have E: "enq_run env u ?w \<and> conc_inv env ?w" if n: "\<not> enq_reads (epc s)"
  proof -
    have r: "enq_run env s t" using e[unfolded enq_edge_def if_not_P[OF n]] by blast
    have "eapp (epc s) t u = ?w" by (rule eapp_label[of env s e u, folded t, OF r n])
    then show ?thesis using enq_run_shift[OF env r n _ inv(3)] dapp_unseen[of s "dpc s" d] u by simp
  qed
  have D: "deq_run t ?w \<and> conc_inv env ?w" if n: "\<not> deq_reads (dpc s)"
  proof -
    have r: "deq_run s u" using d[unfolded deq_edge_def if_not_P[OF n]] by blast
    have "dapp (dpc s) u t = ?w" using dapp_label[of s d t, folded u, OF r n] w by simp
    moreover have "deq_sees_no s t" unfolding t by (rule eapp_unseen) (use enq_fresh[OF e] no_clash[OF e] in blast)+
    ultimately show ?thesis using deq_run_shift[OF env r n _ inv(2)] by simp
  qed
  have i: "conc_inv env ?w" using E D both_read[OF e _ d] w by metis
  have "fresh x u" if "x \<in> set (enq_stores (epc s) e)" for x
  proof -
    have "mem u p = None" if "mem s p = None" for p
      using that deq_stores_one[of "dpc s" d] unfolding u dapp_def by (auto elim!: deq_side.elims)
    then show ?thesis using enq_fresh[OF e that] by (cases x) auto
  qed
  then have "enq_edge env u e ?w" using env inv(3) i e E unfolding enq_edge_def pcs by (auto split: if_splits)
  moreover have "frontBlock (members t) = frontBlock (members s)"
    using enq_stores_one[of "epc s" e] unfolding t eapp_def by (auto elim!: enq_side.elims)
  then have "deq_edge env t d ?w" using env inv(2) i d D w unfolding deq_edge_def pcs by (auto split: if_splits)
  ultimately show ?thesis by blast
qed

interpretation tso: commuting_threads "enq_edge env" "deq_edge env" for env
  by unfold_locales (rule edges_diamond)

end
