(* ===== verification/Rwq_Tso_Queue.thy ===== *)
theory Rwq_Tso_Queue
  imports Rwq_Tso_Steps
begin

text \<open>
  The machine with store buffers keeps the order of the queue. Its invariant: from a state of
  \<open>Rwq_Conc\<close> that has what is in the shared memory, each thread has taken the steps whose
  stores are in its buffer. The theorems on the buffered queue follow.
\<close>

subsection \<open>The invariant\<close>

primrec epend :: "'a enq_pc \<Rightarrow> 'a conc list \<Rightarrow> 'a store list" where
  "epend pc [] = []"
| "epend pc (e # es) = enq_stores pc e @ epend (epc e) es"

primrec dpend :: "'a deq_pc \<Rightarrow> 'a conc list \<Rightarrow> 'a store list" where
  "dpend pc [] = []"
| "dpend pc (d # ds) = deq_stores pc d @ dpend (dpc d) ds"

definition tso_at :: "'a env \<Rightarrow> 'a tso \<Rightarrow> 'a conc \<Rightarrow> 'a conc list \<Rightarrow> 'a conc list \<Rightarrow> 'a conc \<Rightarrow> 'a conc \<Rightarrow> bool" where
  "tso_at env ts s es ds se sd \<longleftrightarrow> conc_inv env s \<and> path (enq_edge env) s es se \<and> path (deq_edge env) s ds sd \<and>
     ebuf ts = epend (epc s) es \<and> dbuf ts = dpend (dpc s) ds \<and> main ts = enq_regs se (deq_regs sd s)"

definition tso_inv :: "'a env \<Rightarrow> 'a tso \<Rightarrow> bool" where
  "tso_inv env ts \<longleftrightarrow> (\<exists>s es ds se sd. tso_at env ts s es ds se sd)"

lemma regs_regs [simp]:
  "enq_regs e (enq_regs e' s) = enq_regs e s" "deq_regs d (deq_regs d' s) = deq_regs d s"
  "enq_regs s s = s" "deq_regs s s = s" "enq_regs (deq_regs d e) s = enq_regs e s" "deq_regs (enq_regs e d) s = deq_regs d s"
  by (auto intro!: conc_eqI)

lemma stores_regs [simp]:
  "enq_stores pc (deq_regs d e) = enq_stores pc e" "deq_stores qc (enq_regs e d) = deq_stores qc d"
  by (cases pc; simp split: enq_pc.split) (cases qc; simp)

lemma enq_edge_eq: "enq_edge env s e t \<Longrightarrow> t = enq_regs e (drain (enq_stores (epc s) e) s)"
  unfolding enq_edge_def eapp_def by blast

lemma deq_edge_eq: "deq_edge env s d u \<Longrightarrow> u = deq_regs d (drain (deq_stores (dpc s) d) s)"
  unfolding deq_edge_def dapp_def by blast

lemma enq_edge_inv: "enq_edge env s e t \<Longrightarrow> conc_inv env t"
  unfolding enq_edge_def by blast

lemma deq_edge_inv: "deq_edge env s d u \<Longrightarrow> conc_inv env u"
  unfolding deq_edge_def by blast

text \<open>A thread's registers are its own.\<close>

lemma enq_edge_keeps: "enq_edge env s e t \<Longrightarrow> dpc t = dpc s \<and> out_log t = out_log s \<and> dequeuing (members t) = dequeuing (members s)"
  by (drule enq_edge_eq) simp

lemma deq_edge_keeps: "deq_edge env s d u \<Longrightarrow> epc u = epc s \<and> in_log u = in_log s \<and>
    enqueuing (members u) = enqueuing (members s) \<and> largestBlockSize (members u) = largestBlockSize (members s)"
  by (drule deq_edge_eq) simp

lemma enq_path_keeps:
  "path (enq_edge env) s es t \<Longrightarrow> dpc t = dpc s \<and> out_log t = out_log s \<and> dequeuing (members t) = dequeuing (members s)"
  by (induction es arbitrary: s) (use enq_edge_keeps in fastforce)+

lemma deq_path_keeps:
  "path (deq_edge env) s ds u \<Longrightarrow> epc u = epc s \<and> in_log u = in_log s \<and> enqueuing (members u) = enqueuing (members s) \<and>
     largestBlockSize (members u) = largestBlockSize (members s)"
  by (induction ds arbitrary: s) (use deq_edge_keeps in fastforce)+

lemma regs_cong:
  "dpc d = dpc d' \<and> out_log d = out_log d' \<and> dequeuing (members d) = dequeuing (members d') \<Longrightarrow> deq_regs d s = deq_regs d' s"
  "epc e = epc e' \<and> in_log e = in_log e' \<and> enqueuing (members e) = enqueuing (members e') \<and>
     largestBlockSize (members e) = largestBlockSize (members e') \<Longrightarrow> enq_regs e s = enq_regs e' s"
  by (simp_all add: enq_regs_def deq_regs_def)

text \<open>The end of a path is the pending stores and the registers at its end.\<close>

lemma enq_path_end: "path (enq_edge env) s es t \<Longrightarrow> t = enq_regs t (drain (epend (epc s) es) s)"
proof (induction es arbitrary: s)
  case (Cons e es)
  then obtain s1 where s1: "enq_edge env s e s1" "path (enq_edge env) s1 es t" by auto
  note e = enq_edge_eq[OF s1(1)]
  have "t = enq_regs t (drain (epend (epc s1) es) s1)" by (rule Cons.IH[OF s1(2)])
  also have "\<dots> = enq_regs t (drain (epend (epc e) es) (drain (enq_stores (epc s) e) s))"
    unfolding e by (simp add: drain_regs)
  finally show ?case by simp
qed simp

lemma deq_path_end: "path (deq_edge env) s ds u \<Longrightarrow> u = deq_regs u (drain (dpend (dpc s) ds) s)"
proof (induction ds arbitrary: s)
  case (Cons d ds)
  then obtain s1 where s1: "deq_edge env s d s1" "path (deq_edge env) s1 ds u" by auto
  note e = deq_edge_eq[OF s1(1)]
  have "u = deq_regs u (drain (dpend (dpc s1) ds) s1)" by (rule Cons.IH[OF s1(2)])
  also have "\<dots> = deq_regs u (drain (dpend (dpc d) ds) (drain (deq_stores (dpc s) d) s))"
    unfolding e by (simp add: drain_regs)
  finally show ?case by simp
qed simp

lemma epend_snoc: "path (enq_edge env) s es t \<Longrightarrow> epend (epc s) (es @ [e]) = epend (epc s) es @ enq_stores (epc t) e"
proof (induction es arbitrary: s)
  case (Cons e0 es)
  then obtain s1 where s1: "enq_edge env s e0 s1" "path (enq_edge env) s1 es t" by auto
  then show ?case using Cons.IH[OF s1(2)] enq_edge_eq[OF s1(1)] by simp
qed simp

lemma dpend_snoc: "path (deq_edge env) s ds u \<Longrightarrow> dpend (dpc s) (ds @ [d]) = dpend (dpc s) ds @ deq_stores (dpc u) d"
proof (induction ds arbitrary: s)
  case (Cons d0 ds)
  then obtain s1 where s1: "deq_edge env s d0 s1" "path (deq_edge env) s1 ds u" by auto
  then show ?case using Cons.IH[OF s1(2)] deq_edge_eq[OF s1(1)] by simp
qed simp

subsection \<open>A thread steps in its view\<close>

lemma enq_view: "tso_at env ts s es ds se sd \<Longrightarrow> drain (ebuf ts) (main ts) = deq_regs sd se"
  using enq_path_end[of env s es se] by (auto simp: tso_at_def drain_regs regs_commute)

lemma deq_view: "tso_at env ts s es ds se sd \<Longrightarrow> drain (dbuf ts) (main ts) = enq_regs se sd"
  using deq_path_end[of env s ds sd] by (auto simp: tso_at_def drain_regs)

text \<open>The steps of a thread depend on nothing that is private to the other one.\<close>

lemma enq_alloc_eq:
  assumes "make_block (ly env) (mallocf env) (mem s) (if max_block env \<le> largestBlockSize (members s)
     then largestBlockSize (members s) else largestBlockSize (members s) * 2) = (a, h)"
  shows "enq_alloc env tb v s = (if a = nullptr then Inr (enq_return (s\<lparr>mem := h\<rparr>))
     else bindE (get_block h a) (\<lambda>nb0. bindE (construct_at nb0 0 v) (\<lambda>nb1. bindE (assertE (front nb1 = 0)) (\<lambda>_.
       bindE (get_block h tb) (\<lambda>t. Inr (s\<lparr>mem := h(a \<mapsto> nb1\<lparr>localTail := 1, tail := 1, nextB := nextB t\<rparr>),
         members := (members s)\<lparr>largestBlockSize := if max_block env \<le> largestBlockSize (members s)
            then largestBlockSize (members s) else largestBlockSize (members s) * 2\<rparr>,
         epc := ELink tb a v\<rparr>))))))"
  unfolding enq_alloc_def Let_def assms prod.case by (rule refl)

lemma enq_step_regs: "enq_step env pc s = Inr t \<Longrightarrow> enq_step env pc (deq_regs d s) = Inr (deq_regs d t)"
proof (cases pc)
  case (EAlloc tb v)
  let ?n = "\<lambda>s. if max_block env \<le> largestBlockSize (members s) then largestBlockSize (members s) else largestBlockSize (members s) * 2"
  obtain a h where mb: "make_block (ly env) (mallocf env) (mem s) (?n s) = (a, h)" by fastforce
  have q: "mem (deq_regs d s) = mem s" "?n (deq_regs d s) = ?n s" by simp_all
  have mb': "make_block (ly env) (mallocf env) (mem (deq_regs d s)) (?n (deq_regs d s)) = (a, h)" unfolding q by (rule mb)
  assume "enq_step env pc s = Inr t"
  then have "enq_alloc env tb v s = Inr t" using EAlloc by simp
  then have "enq_alloc env tb v (deq_regs d s) = Inr (deq_regs d t)"
    unfolding enq_alloc_eq[OF mb] enq_alloc_eq[OF mb']
    by (cases "a = nullptr"; simp only: if_True if_False simp_thms; clarsimp simp: enq_return_def get_cell deq_regs_def)
  then show ?thesis using EAlloc by simp
next
  case (EChk tb m v)
  assume a: "enq_step env pc s = Inr t"
  then obtain b where b: "mem s tb = Some b" unfolding EChk by (auto simp: get_cell)
  have g: "get_block (mem s) tb = Inr b" "get_block (mem (deq_regs d s)) tb = Inr b" using b by (simp_all add: get_cell)
  show ?thesis
  proof (cases "nextB b = frontBlock (members s)")
    case True
    then show ?thesis using a g by (cases m) (auto simp: EChk enq_return_def deq_regs_def)
  next
    case False
    then show ?thesis using a g by (auto simp: EChk deq_regs_def)
  qed
qed (auto simp: get_cell enq_return_def construct_eq deq_regs_def)

lemma enq_start_regs: "enq_start m v s = Inr t \<Longrightarrow> enq_start m v (deq_regs d s) = Inr (deq_regs d t)"
  by (auto simp: enq_start_def Let_def get_cell deq_regs_def)

lemma deq_step_regs: "deq_step pc s = Inr u \<Longrightarrow> deq_step pc (enq_regs e s) = Inr (enq_regs e u)"
  by (cases pc) (auto simp: get_cell deq_return_def move_out_eq Let_def enq_regs_def)

lemma deq_start_regs: "deq_start s = Inr u \<Longrightarrow> deq_start (enq_regs e s) = Inr (enq_regs e u)"
  by (auto simp: deq_start_def Let_def get_cell enq_regs_def)

lemma tso_invI: "tso_at env ts s es ds se sd \<Longrightarrow> tso_inv env ts"
  unfolding tso_inv_def by blast

lemma tso_atD:
  assumes "tso_at env ts s es ds se sd"
  shows "conc_inv env s" "path (enq_edge env) s es se" "path (deq_edge env) s ds sd" "conc_inv env se" "conc_inv env sd"
    "ebuf ts = epend (epc s) es" "dbuf ts = dpend (dpc s) ds" "main ts = enq_regs se (deq_regs sd s)"
proof -
  show i: "conc_inv env s" and e: "path (enq_edge env) s es se" and d: "path (deq_edge env) s ds sd"
    and "ebuf ts = epend (epc s) es" "dbuf ts = dpend (dpc s) ds" "main ts = enq_regs se (deq_regs sd s)"
    using assms unfolding tso_at_def by blast+
  show "conc_inv env se" by (rule path_inv[where P = "conc_inv env", OF e i enq_edge_inv])
  show "conc_inv env sd" by (rule path_inv[where P = "conc_inv env", OF d i deq_edge_inv])
qed

text \<open>Any step of a thread on its own extends its path.\<close>

lemma enq_run_edge:
  assumes env: "env_ok env" and i: "conc_inv env s" and r: "enq_run env s t"
  shows "enq_edge env s t t"
proof -
  obtain G bs vss k where c: "conc_at env s G bs vss k" using i by (auto simp: conc_inv_def)
  have t: "conc_inv env t"
  proof (cases "epc s = EIdle")
    case True
    then obtain m v where "enq_start m v s = Inr t" using r by (auto simp: enq_run_def)
    then show ?thesis using inv_enq_start[OF c True, of m v] by simp
  next
    case False
    then show ?thesis using r inv_enq_step[OF env c] by (fastforce simp: enq_run_def)
  qed
  have "eapp (epc s) t s = t \<and> (enq_reads (epc s) \<longrightarrow> equiet (epc t) \<and> in_log t = in_log s \<and> (\<forall>w \<in> set (enq_stores (epc s) t). fresh w s))"
  proof (cases "\<exists>tb v. epc s = EAlloc tb v")
    case True
    then obtain tb v where pc: "epc s = EAlloc tb v" by blast
    then have "enq_step env (epc s) s = Inr t" using r by (simp add: enq_run_def)
    then show ?thesis using alloc_app[OF env c pc] pc by auto
  next
    case False
    show ?thesis
    proof (cases "epc s = EIdle")
      case True
      then show ?thesis using r enq_start_app by (auto simp: enq_run_def)
    next
      case n: False
      then have st: "enq_step env (epc s) s = Inr t" using r by (simp add: enq_run_def)
      then have "enq_reads (epc s) \<longrightarrow> equiet (epc t) \<and> in_log t = in_log s \<and> (\<forall>w \<in> set (enq_stores (epc s) t). fresh w s)"
        using False by (cases "epc s") (auto simp: get_cell enq_return_def split: AllocationMode.splits)
      then show ?thesis using enq_step_app[OF st] False by blast
    qed
  qed
  then show ?thesis using env i t r by (auto simp: enq_edge_def)
qed

lemma deq_run_edge:
  assumes env: "env_ok env" and i: "conc_inv env s" and r: "deq_run s u"
  shows "deq_edge env s u u"
proof -
  obtain G bs vss k where c: "conc_at env s G bs vss k" using i by (auto simp: conc_inv_def)
  have "conc_inv env u \<and> dapp (dpc s) u s = u \<and> (deq_reads (dpc s) \<longrightarrow> dquiet (dpc u) \<and> out_log u = out_log s \<and>
      (dpc s = DRe \<longrightarrow> frontBlock (members u) = frontBlock (members s)))"
  proof (cases "dpc s = DIdle")
    case True
    then show ?thesis using r inv_deq_start[OF c] deq_start_app by (fastforce simp: deq_run_def)
  next
    case False
    then have st: "deq_step (dpc s) s = Inr u" using r by (simp add: deq_run_def)
    have "deq_reads (dpc s) \<longrightarrow> dquiet (dpc u) \<and> out_log u = out_log s \<and> (dpc s = DRe \<longrightarrow> frontBlock (members u) = frontBlock (members s))"
      using st by (cases "dpc s") (auto simp: get_cell deq_return_def Let_def)
    then show ?thesis using inv_deq_step[OF c False] deq_step_app[OF st] st by auto
  qed
  then show ?thesis using env i r by (auto simp: deq_edge_def)
qed

lemma tso_enq_inv:
  assumes env: "env_ok env" and ts: "tso_at env ts s es ds se sd" and r: "enq_run env se t"
    and act: "act (deq_regs sd se) = Inr (deq_regs sd t)"
  shows "\<exists>ts'. tso_enq act ts = Inr ts' \<and> tso_at env ts' s (es @ [t]) ds t sd"
proof -
  note D = tso_atD[OF ts]
  have pc: "epc (main ts) = epc se" unfolding D(8) by simp
  have "path (enq_edge env) s (es @ [t]) t" using D(2) enq_run_edge[OF env D(4) r] by (auto simp: path_snoc)
  then have "tso_at env (ts\<lparr>main := enq_regs t (main ts), ebuf := ebuf ts @ enq_stores (epc se) t\<rparr>) s (es @ [t]) ds t sd"
    using D epend_snoc[OF D(2)] by (simp add: tso_at_def)
  then show ?thesis
    unfolding tso_enq_def enq_view[OF ts] act pc by auto
qed

lemma tso_deq_inv:
  assumes env: "env_ok env" and ts: "tso_at env ts s es ds se sd" and r: "deq_run sd u"
    and act: "act (enq_regs se sd) = Inr (enq_regs se u)"
  shows "\<exists>ts'. tso_deq act ts = Inr ts' \<and> tso_at env ts' s es (ds @ [u]) se u"
proof -
  note D = tso_atD[OF ts]
  have pc: "dpc (main ts) = dpc sd" unfolding D(8) by simp
  have "path (deq_edge env) s (ds @ [u]) u" using D(3) deq_run_edge[OF env D(5) r] by (auto simp: path_snoc)
  then have "tso_at env (ts\<lparr>main := deq_regs u (main ts), dbuf := dbuf ts @ deq_stores (dpc sd) u\<rparr>) s es (ds @ [u]) se u"
    using D dpend_snoc[OF D(3)] by (simp add: tso_at_def regs_commute)
  then show ?thesis
    unfolding tso_deq_def deq_view[OF ts] act pc by auto
qed

subsection \<open>A store reaches the memory\<close>

text \<open>The steps up to the one with the oldest store have happened for both threads.\<close>

lemma flush_enq_path:
  "tso_at env ts s es ds se sd \<Longrightarrow> ebuf ts = w # ws \<Longrightarrow> \<exists>s' es1 es' sd'. path (enq_edge env) s es1 s' \<and>
     path (enq_edge env) sd es1 sd' \<and> tso_at env (ts\<lparr>main := commit w (main ts), ebuf := ws\<rparr>) s' es' ds se sd'"
proof (induction es arbitrary: s sd)
  case Nil
  then show ?case by (simp add: tso_at_def)
next
  case (Cons e es)
  note D = tso_atD[OF Cons.prems(1)]
  obtain s1 where s1: "enq_edge env s e s1" "path (enq_edge env) s1 es se" using D(2) by auto
  obtain sd1 where sd1: "path (deq_edge env) s1 ds sd1" "enq_edge env sd e sd1" using tso.strip[OF s1(1) D(3)] by blast
  have m: "enq_regs se (deq_regs sd1 s1) = drain (enq_stores (epc s) e) (main ts)"
  proof -
    have "deq_regs sd1 s1 = deq_regs sd s1" by (rule regs_cong(1)[OF enq_edge_keeps[OF sd1(2)]])
    then show ?thesis unfolding D(8) enq_edge_eq[OF s1(1)] by (simp add: drain_regs regs_commute)
  qed
  have pc: "epc s1 = epc e" "dpc s1 = dpc s" unfolding enq_edge_eq[OF s1(1)] by simp_all
  show ?case
    using enq_stores_one[of "epc s" e]
  proof
    assume n: "enq_stores (epc s) e = []"
    then have "tso_at env ts s1 es ds se sd1"
      using D s1 sd1 m pc enq_edge_inv[OF s1(1)] by (simp add: tso_at_def)
    from Cons.IH[OF this Cons.prems(2)] obtain s' es1 es' sd' where "path (enq_edge env) s1 es1 s'" "path (enq_edge env) sd1 es1 sd'"
      "tso_at env (ts\<lparr>main := commit w (main ts), ebuf := ws\<rparr>) s' es' ds se sd'" by blast
    then show ?thesis using s1(1) sd1(2) by (intro exI[of _ s'] exI[of _ "e # es1"] exI[of _ es'] exI[of _ sd']) auto
  next
    assume "\<exists>w. enq_stores (epc s) e = [w] \<and> enq_side w"
    then have "enq_stores (epc s) e = [w]" "ws = epend (epc e) es" using D(6) Cons.prems(2) by auto
    then have "tso_at env (ts\<lparr>main := commit w (main ts), ebuf := ws\<rparr>) s1 es ds se sd1"
      using D s1 sd1 m pc enq_edge_inv[OF s1(1)] by (simp add: tso_at_def)
    then show ?thesis using s1(1) sd1(2) by (intro exI[of _ s1] exI[of _ "[e]"] exI[of _ es] exI[of _ sd1]) auto
  qed
qed

lemma flush_deq_path:
  "tso_at env ts s es ds se sd \<Longrightarrow> dbuf ts = w # ws \<Longrightarrow> \<exists>s' ds1 ds' se'. path (deq_edge env) s ds1 s' \<and>
     path (deq_edge env) se ds1 se' \<and> tso_at env (ts\<lparr>main := commit w (main ts), dbuf := ws\<rparr>) s' es ds' se' sd"
proof (induction ds arbitrary: s se)
  case Nil
  then show ?case by (simp add: tso_at_def)
next
  case (Cons d ds)
  note D = tso_atD[OF Cons.prems(1)]
  obtain s1 where s1: "deq_edge env s d s1" "path (deq_edge env) s1 ds sd" using D(3) by auto
  obtain se1 where se1: "path (enq_edge env) s1 es se1" "deq_edge env se d se1" using tso.swapped.strip[OF s1(1) D(2)] by blast
  have m: "enq_regs se1 (deq_regs sd s1) = drain (deq_stores (dpc s) d) (main ts)"
  proof -
    have "enq_regs se1 s1 = enq_regs se s1" by (rule regs_cong(2)[OF deq_edge_keeps[OF se1(2)]])
    then show ?thesis unfolding D(8) regs_commute unfolding deq_edge_eq[OF s1(1)] by (simp add: drain_regs regs_commute)
  qed
  have pc: "dpc s1 = dpc d" "epc s1 = epc s" unfolding deq_edge_eq[OF s1(1)] by simp_all
  show ?case
    using deq_stores_one[of "dpc s" d]
  proof
    assume n: "deq_stores (dpc s) d = []"
    then have "tso_at env ts s1 es ds se1 sd"
      using D s1 se1 m pc deq_edge_inv[OF s1(1)] by (simp add: tso_at_def)
    from Cons.IH[OF this Cons.prems(2)] obtain s' ds1 ds' se' where "path (deq_edge env) s1 ds1 s'" "path (deq_edge env) se1 ds1 se'"
      "tso_at env (ts\<lparr>main := commit w (main ts), dbuf := ws\<rparr>) s' es ds' se' sd" by blast
    then show ?thesis using s1(1) se1(2) by (intro exI[of _ s'] exI[of _ "d # ds1"] exI[of _ ds'] exI[of _ se']) auto
  next
    assume "\<exists>w. deq_stores (dpc s) d = [w] \<and> deq_side w"
    then have "deq_stores (dpc s) d = [w]" "ws = dpend (dpc d) ds" using D(7) Cons.prems(2) by auto
    then have "tso_at env (ts\<lparr>main := commit w (main ts), dbuf := ws\<rparr>) s1 es ds se1 sd"
      using D s1 se1 m pc deq_edge_inv[OF s1(1)] by (simp add: tso_at_def)
    then show ?thesis using s1(1) se1(2) by (intro exI[of _ s1] exI[of _ "[d]"] exI[of _ ds] exI[of _ se1]) auto
  qed
qed

subsection \<open>Every step keeps the invariant\<close>

lemma enq_can_run:
  assumes env: "env_ok env" and i: "conc_inv env s"
  shows "epc s \<noteq> EIdle \<Longrightarrow> \<exists>t. enq_step env (epc s) s = Inr t \<and> enq_run env s t"
    "epc s = EIdle \<Longrightarrow> \<exists>t. enq_start m v s = Inr t \<and> enq_run env s t"
proof -
  obtain G bs vss k where c: "conc_at env s G bs vss k" using i by (auto simp: conc_inv_def)
  show "epc s \<noteq> EIdle \<Longrightarrow> \<exists>t. enq_step env (epc s) s = Inr t \<and> enq_run env s t"
    using inv_enq_step[OF env c] by (fastforce simp: enq_run_def)
  show "epc s = EIdle \<Longrightarrow> \<exists>t. enq_start m v s = Inr t \<and> enq_run env s t"
    using inv_enq_start[OF c, of m v] by (auto simp: enq_run_def)
qed

lemma deq_can_run:
  assumes i: "conc_inv env s"
  shows "dpc s \<noteq> DIdle \<Longrightarrow> \<exists>u. deq_step (dpc s) s = Inr u \<and> deq_run s u"
    "dpc s = DIdle \<Longrightarrow> \<exists>u. deq_start s = Inr u \<and> deq_run s u"
proof -
  obtain G bs vss k where c: "conc_at env s G bs vss k" using i by (auto simp: conc_inv_def)
  show "dpc s \<noteq> DIdle \<Longrightarrow> \<exists>u. deq_step (dpc s) s = Inr u \<and> deq_run s u"
    using inv_deq_step[OF c] by (fastforce simp: deq_run_def)
  show "dpc s = DIdle \<Longrightarrow> \<exists>u. deq_start s = Inr u \<and> deq_run s u"
    using inv_deq_start[OF c] by (auto simp: deq_run_def)
qed

lemma tso_pcs:
  assumes "tso_at env ts s es ds se sd"
  shows "epc (main ts) = epc se" "dpc (main ts) = dpc sd" "in_log (main ts) = in_log se" "out_log (main ts) = out_log sd"
  unfolding tso_atD(8)[OF assms] by simp_all

lemma tso_step_enq:
  assumes env: "env_ok env" and ts: "tso_at env ts s es ds se sd" and pc: "epc (main ts) \<noteq> EIdle"
  shows "\<exists>t ts'. enq_step env (epc se) se = Inr t \<and> tso_step env StepEnq ts = Some (Inr ts') \<and>
    tso_at env ts' s (es @ [t]) ds t sd"
proof -
  note p = tso_pcs(1)[OF ts]
  then obtain t where t: "enq_step env (epc se) se = Inr t" "enq_run env se t"
    using enq_can_run(1)[OF env tso_atD(4)[OF ts]] pc by auto
  obtain ts' where "tso_enq (enq_step env (epc se)) ts = Inr ts'" "tso_at env ts' s (es @ [t]) ds t sd"
    using tso_enq_inv[where act = "enq_step env (epc se)", OF env ts t(2) enq_step_regs[OF t(1)]] by blast
  moreover have "tso_step env StepEnq ts = Some (tso_enq (enq_step env (epc se)) ts)"
    using pc p by (auto split: enq_pc.splits)
  ultimately show ?thesis using t(1) by auto
qed

lemma tso_step_deq:
  assumes env: "env_ok env" and ts: "tso_at env ts s es ds se sd" and pc: "dpc (main ts) \<noteq> DIdle"
  shows "\<exists>u ts'. deq_step (dpc sd) sd = Inr u \<and> tso_step env StepDeq ts = Some (Inr ts') \<and>
    tso_at env ts' s es (ds @ [u]) se u"
proof -
  note p = tso_pcs(2)[OF ts]
  then obtain u where u: "deq_step (dpc sd) sd = Inr u" "deq_run sd u"
    using deq_can_run(1)[OF tso_atD(5)[OF ts]] pc by auto
  obtain ts' where "tso_deq (deq_step (dpc sd)) ts = Inr ts'" "tso_at env ts' s es (ds @ [u]) se u"
    using tso_deq_inv[where act = "deq_step (dpc sd)", OF env ts u(2) deq_step_regs[OF u(1)]] by blast
  moreover have "tso_step env StepDeq ts = Some (tso_deq (deq_step (dpc sd)) ts)"
    using pc p by (auto split: deq_pc.splits)
  ultimately show ?thesis using u(1) by auto
qed

lemma tso_call_enq:
  assumes env: "env_ok env" and ts: "tso_at env ts s es ds se sd" and pc: "epc (main ts) = EIdle"
  shows "\<exists>t ts'. enq_start m v se = Inr t \<and> tso_step env (CallEnq m v) ts = Some (Inr ts') \<and> tso_at env ts' s (es @ [t]) ds t sd"
proof -
  have "epc se = EIdle" using pc tso_pcs(1)[OF ts] by simp
  then obtain t where t: "enq_start m v se = Inr t" "enq_run env se t" using enq_can_run(2)[OF env tso_atD(4)[OF ts]] by blast
  show ?thesis using tso_enq_inv[where act = "enq_start m v", OF env ts t(2) enq_start_regs[OF t(1)]] t(1) pc by auto
qed

lemma tso_call_deq:
  assumes env: "env_ok env" and ts: "tso_at env ts s es ds se sd" and pc: "dpc (main ts) = DIdle"
  shows "\<exists>u ts'. deq_start sd = Inr u \<and> tso_step env CallDeq ts = Some (Inr ts') \<and> tso_at env ts' s es (ds @ [u]) se u"
proof -
  have "dpc sd = DIdle" using pc tso_pcs(2)[OF ts] by simp
  then obtain u where u: "deq_start sd = Inr u" "deq_run sd u" using deq_can_run(2)[OF tso_atD(5)[OF ts]] by blast
  show ?thesis using tso_deq_inv[where act = deq_start, OF env ts u(2) deq_start_regs[OF u(1)]] u(1) pc by auto
qed

lemma tso_step_inv:
  assumes env: "env_ok env" and i: "tso_inv env ts" and st: "tso_step env e ts = Some r"
  shows "\<exists>ts'. r = Inr ts' \<and> tso_inv env ts'"
proof -
  obtain s es ds se sd where ts: "tso_at env ts s es ds se sd" using i by (auto simp: tso_inv_def)
  show ?thesis
  proof (cases e)
    case (CallEnq m v)
    then have "epc (main ts) = EIdle" using st by (auto split: enq_pc.splits)
    then obtain t ts' where "tso_step env (CallEnq m v) ts = Some (Inr ts')" "tso_at env ts' s (es @ [t]) ds t sd"
      using tso_call_enq[OF env ts, of m v] by blast
    then show ?thesis using st CallEnq by (auto intro: tso_invI)
  next
    case StepEnq
    then have "epc (main ts) \<noteq> EIdle" using st by auto
    then obtain t ts' where "tso_step env StepEnq ts = Some (Inr ts')" "tso_at env ts' s (es @ [t]) ds t sd"
      using tso_step_enq[OF env ts] by blast
    then show ?thesis using st StepEnq by (auto intro: tso_invI)
  next
    case CallDeq
    then have "dpc (main ts) = DIdle" using st by (auto split: deq_pc.splits)
    then obtain u ts' where "tso_step env CallDeq ts = Some (Inr ts')" "tso_at env ts' s es (ds @ [u]) se u"
      using tso_call_deq[OF env ts] by blast
    then show ?thesis using st CallDeq by (auto intro: tso_invI)
  next
    case StepDeq
    then have "dpc (main ts) \<noteq> DIdle" using st by auto
    then obtain u ts' where "tso_step env StepDeq ts = Some (Inr ts')" "tso_at env ts' s es (ds @ [u]) se u"
      using tso_step_deq[OF env ts] by blast
    then show ?thesis using st StepDeq by (auto intro: tso_invI)
  next
    case FlushEnq
    then obtain w ws where b: "ebuf ts = w # ws" using st by (auto split: list.splits)
    obtain s' es' sd' where "tso_at env (ts\<lparr>main := commit w (main ts), ebuf := ws\<rparr>) s' es' ds se sd'"
      using flush_enq_path[OF ts b] by blast
    then show ?thesis using st FlushEnq b by (auto intro: tso_invI)
  next
    case FlushDeq
    then obtain w ws where b: "dbuf ts = w # ws" using st by (auto split: list.splits)
    obtain s' ds' se' where "tso_at env (ts\<lparr>main := commit w (main ts), dbuf := ws\<rparr>) s' es ds' se' sd"
      using flush_deq_path[OF ts b] by blast
    then show ?thesis using st FlushDeq b by (auto intro: tso_invI)
  qed
qed

lemma tso_reach_inv: "tso_reach env ts0 ts \<Longrightarrow> env_ok env \<Longrightarrow> tso_inv env ts0 \<Longrightarrow> tso_inv env ts"
  by (induction rule: tso_reach.induct) (use tso_step_inv in fastforce)+

lemma tso_inv_init: "queue_at env h q bs vs \<Longrightarrow> tso_inv env (tso_init h q vs)"
proof -
  assume "queue_at env h q bs vs"
  then have "tso_at env (tso_init h q vs) (conc_init h q vs) [] [] (conc_init h q vs) (conc_init h q vs)"
    using conc_inv_init by (simp add: tso_at_def tso_init_def)
  then show ?thesis by (rule tso_invI)
qed

text \<open>The state in which everything pending has happened.\<close>

lemma tso_corner:
  assumes "tso_inv env ts"
  shows "\<exists>w. conc_inv env w \<and> epc w = epc (main ts) \<and> dpc w = dpc (main ts) \<and> in_log w = in_log (main ts) \<and>
    out_log w = out_log (main ts) \<and> (ebuf ts = [] \<longrightarrow> dbuf ts = [] \<longrightarrow> w = main ts)"
proof -
  obtain s es ds se sd where ts: "tso_at env ts s es ds se sd" using assms by (auto simp: tso_inv_def)
  note D = tso_atD[OF ts]
  obtain w where w: "path (enq_edge env) sd es w" "path (deq_edge env) se ds w" using tso.corner[OF D(2,3)] by blast
  note e = enq_path_keeps[OF w(1)] and d = deq_path_keeps[OF w(2)]
  have "conc_inv env w" by (rule path_inv[where P = "conc_inv env", OF w(1) D(5) enq_edge_inv])
  moreover have "w = main ts" if b: "ebuf ts = []" "dbuf ts = []"
  proof -
    have "w = deq_regs w (drain (dpend (dpc s) ds) se)" using deq_path_end[OF w(2)] enq_path_keeps[OF D(2)] by simp
    also have "\<dots> = deq_regs w (enq_regs se s)" using enq_path_end[OF D(2)] b D(6,7) by simp
    also have "\<dots> = deq_regs sd (enq_regs se s)" by (rule regs_cong(1)[OF e])
    finally show ?thesis unfolding D(8) by (simp add: regs_commute)
  qed
  ultimately show ?thesis using e d unfolding D(8) by auto
qed

subsection \<open>A run\<close>

text \<open>
  The enqueue of 7 has returned with both its stores still in the buffer; a dequeue begun after
  that finds the queue empty. With sequentially consistent memory the same calls and steps
  leave the consumer about to move the element out.
\<close>

primrec tso_run :: "'a env \<Rightarrow> 'a tso_event list \<Rightarrow> 'a tso \<Rightarrow> 'a tso res option" where
  "tso_run env [] ts = Some (Inr ts)"
| "tso_run env (e # es) ts = (case tso_step env e ts of Some (Inr ts') \<Rightarrow> tso_run env es ts' | r \<Rightarrow> r)"

lemma tso_run_reach:
  "tso_run env es ts = Some (Inr ts') \<Longrightarrow> tso_reach env ts0 ts \<Longrightarrow> tso_reach env ts0 ts'"
proof (induction es arbitrary: ts)
  case (Cons e es)
  then show ?case using tso_next[of env ts0 ts e] by (auto split: option.splits sum.splits)
qed simp

definition demo_late :: "nat tso" where
  "demo_late = \<lparr>main = \<lparr>mem = demo_heap, members = demo_rwq\<lparr>dequeuing := True\<rparr>, epc = EIdle, dpc = DChk 1048576, in_log = [7], out_log = []\<rparr>,
     ebuf = [StSlot 1048576 0 (Some 7), StTail 1048576 1], dbuf = [StLocalTail 1048576 0]\<rparr>"

lemma demo_late_run:
  "tso_run demo_env [CallEnq CannotAlloc 7, StepEnq, StepEnq, CallDeq, StepDeq] (tso_init demo_heap demo_rwq []) = Some (Inr demo_late)"
proof -
  have r4: "replicate 4 None = [None, None, None, None]" by (simp add: numeral_eq_Suc)
  show ?thesis
    by (simp add: tso_init_def conc_init_def tso_enq_def tso_deq_def enq_start_def deq_start_def enq_return_def arena_heap_def
        demo_rwq_def arena_block_def demo_late_def get_block_def advance_def construct_at_def Let_def r4 set_slot_def
        enq_regs_def deq_regs_def at_cell_def)
qed

lemma demo_late_reach: "tso_reach demo_env (tso_init demo_heap demo_rwq []) demo_late"
  by (rule tso_run_reach[OF demo_late_run tso_refl])

definition demo_flushed :: "nat tso" where
  "demo_flushed = \<lparr>main = \<lparr>mem = [1048576 \<mapsto> demo_block\<lparr>tail := 1, slots := [Some 7, None, None, None]\<rparr>],
      members = demo_rwq, epc = EIdle, dpc = DIdle, in_log = [7], out_log = []\<rparr>, ebuf = [], dbuf = []\<rparr>"

lemma demo_flushed_reach: "tso_reach demo_env (tso_init demo_heap demo_rwq []) demo_flushed"
proof (rule tso_run_reach[OF _ tso_refl])
  have r4: "replicate 4 None = [None, None, None, None]" by (simp add: numeral_eq_Suc)
  show "tso_run demo_env [CallEnq CannotAlloc 7, StepEnq, StepEnq, FlushEnq, FlushEnq] (tso_init demo_heap demo_rwq []) = Some (Inr demo_flushed)"
    by (simp add: tso_init_def conc_init_def tso_enq_def tso_deq_def enq_start_def deq_start_def enq_return_def arena_heap_def
        demo_rwq_def arena_block_def demo_flushed_def get_block_def advance_def construct_at_def Let_def r4 set_slot_def
        enq_regs_def deq_regs_def at_cell_def)
qed

subsection \<open>Sequential consistency is the machine that flushes at once\<close>

lemma flush_all_enq: "tso_reach env ts0 ts \<Longrightarrow> ebuf ts = [] \<or> (\<exists>w. ebuf ts = [w]) \<Longrightarrow>
    tso_reach env ts0 (ts\<lparr>main := drain (ebuf ts) (main ts), ebuf := []\<rparr>)"
  using tso_next[of env ts0 ts FlushEnq] by (cases ts) auto

lemma flush_all_deq: "tso_reach env ts0 ts \<Longrightarrow> dbuf ts = [] \<or> (\<exists>w. dbuf ts = [w]) \<Longrightarrow>
    tso_reach env ts0 (ts\<lparr>main := drain (dbuf ts) (main ts), dbuf := []\<rparr>)"
  using tso_next[of env ts0 ts FlushDeq] by (cases ts) auto

abbreviation unbuffered :: "'a conc \<Rightarrow> 'a tso" where
  "unbuffered st \<equiv> \<lparr>main = st, ebuf = [], dbuf = []\<rparr>"

lemma tso_enq_unbuffered:
  assumes env: "env_ok env" and i: "conc_inv env st" and r: "enq_run env st st'" and act: "act st = Inr st'"
    and ts: "tso_reach env ts0 (unbuffered st)" "tso_step env e (unbuffered st) = Some (tso_enq act (unbuffered st))"
  shows "tso_reach env ts0 (unbuffered st')"
proof -
  let ?ts = "\<lparr>main = enq_regs st' st, ebuf = enq_stores (epc st) st', dbuf = []\<rparr>"
  have "tso_enq act (unbuffered st) = Inr ?ts" by (simp add: tso_enq_def act)
  then have "tso_reach env ts0 ?ts" using ts by (auto intro: tso_next)
  then have "tso_reach env ts0 (?ts\<lparr>main := drain (ebuf ?ts) (main ?ts), ebuf := []\<rparr>)"
    by (rule flush_all_enq) (use enq_stores_one[of "epc st" st'] in auto)
  moreover have "drain (enq_stores (epc st) st') (enq_regs st' st) = st'"
    using enq_edge_eq[OF enq_run_edge[OF env i r]] by (simp add: drain_regs)
  ultimately show ?thesis by simp
qed

lemma tso_deq_unbuffered:
  assumes env: "env_ok env" and i: "conc_inv env st" and r: "deq_run st st'" and act: "act st = Inr st'"
    and ts: "tso_reach env ts0 (unbuffered st)" "tso_step env e (unbuffered st) = Some (tso_deq act (unbuffered st))"
  shows "tso_reach env ts0 (unbuffered st')"
proof -
  let ?ts = "\<lparr>main = deq_regs st' st, ebuf = [], dbuf = deq_stores (dpc st) st'\<rparr>"
  have "tso_deq act (unbuffered st) = Inr ?ts" by (simp add: tso_deq_def act)
  then have "tso_reach env ts0 ?ts" using ts by (auto intro: tso_next)
  then have "tso_reach env ts0 (?ts\<lparr>main := drain (dbuf ?ts) (main ?ts), dbuf := []\<rparr>)"
    by (rule flush_all_deq) (use deq_stores_one[of "dpc st" st'] in auto)
  moreover have "drain (deq_stores (dpc st) st') (deq_regs st' st) = st'"
    using deq_edge_eq[OF deq_run_edge[OF env i r]] by (simp add: drain_regs)
  ultimately show ?thesis by simp
qed

lemma unbuffered_step:
  assumes env: "env_ok env" and i: "conc_inv env st" and s: "conc_step env e st = Some (Inr st')"
    and ts: "tso_reach env ts0 (unbuffered st)"
  shows "tso_reach env ts0 (unbuffered st')"
proof (cases e)
  case (CallEnqueue m v)
  then have "enq_start m v st = Inr st'" "epc st = EIdle" using s by (auto split: enq_pc.splits)
  then show ?thesis using tso_enq_unbuffered[OF env i _ _ ts, of st' "enq_start m v" "CallEnq m v"] by (auto simp: enq_run_def)
next
  case StepEnqueue
  then have n: "epc st \<noteq> EIdle" and st: "enq_step env (epc st) st = Inr st'" using s by (auto split: enq_pc.splits)
  have r: "enq_run env st st'" using n st by (simp add: enq_run_def)
  have t: "tso_step env StepEnq (unbuffered st) = Some (tso_enq (enq_step env (epc st)) (unbuffered st))"
    using n by (auto split: enq_pc.splits)
  show ?thesis by (rule tso_enq_unbuffered[where act = "enq_step env (epc st)", OF env i r st ts t])
next
  case CallDequeue
  then have "deq_start st = Inr st'" "dpc st = DIdle" using s by (auto split: deq_pc.splits)
  then show ?thesis using tso_deq_unbuffered[OF env i _ _ ts, of st' deq_start CallDeq] by (auto simp: deq_run_def)
next
  case StepDequeue
  then have n: "dpc st \<noteq> DIdle" and st: "deq_step (dpc st) st = Inr st'" using s by (auto split: deq_pc.splits)
  have r: "deq_run st st'" using n st by (simp add: deq_run_def)
  have t: "tso_step env StepDeq (unbuffered st) = Some (tso_deq (deq_step (dpc st)) (unbuffered st))"
    using n by (auto split: deq_pc.splits)
  show ?thesis by (rule tso_deq_unbuffered[where act = "deq_step (dpc st)", OF env i r st ts t])
qed

subsection \<open>Theorems\<close>

text \<open>C2: the queue is correct on a machine that buffers stores (x86-TSO): however long the stores of
  the two threads stay in their buffers, no step of either fails and what the consumer has received is a
  prefix of what the producer has put in.\<close>

theorem tso_fifo:
  assumes "env_ok env" and "queue_at env h q bs vs" and "tso_reach env (tso_init h q vs) ts"
  shows "tso_step env e ts \<noteq> Some (Inl err) \<and> (\<exists>waiting. in_log (main ts) = out_log (main ts) @ waiting)"
proof -
  have i: "tso_inv env ts" by (rule tso_reach_inv[OF assms(3,1) tso_inv_init[OF assms(2)]])
  obtain w where w: "conc_inv env w" "in_log w = in_log (main ts)" "out_log w = out_log (main ts)" using tso_corner[OF i] by blast
  then have "\<exists>waiting. in_log (main ts) = out_log (main ts) @ waiting" by (auto simp: conc_inv_def conc_at_def)
  moreover have "tso_step env e ts \<noteq> Some (Inl err)" using tso_step_inv[OF assms(1) i, of e] by force
  ultimately show ?thesis by blast
qed

theorem tso_fifo_witness:
  "tso_step demo_env FlushEnq demo_late \<noteq> Some (Inl DeadObject) \<and>
    (\<exists>waiting. in_log (main demo_late) = out_log (main demo_late) @ waiting)"
  by (rule tso_fifo[OF demo_env_ok demo_queue demo_late_reach])

text \<open>C22: once the buffers are empty and both threads are between calls, the memory is a well-formed queue
  that holds exactly what was put in and not yet received.\<close>

theorem tso_quiescent:
  assumes "env_ok env" and "queue_at env h q bs vs" and "tso_reach env (tso_init h q vs) ts"
    and "epc (main ts) = EIdle" and "dpc (main ts) = DIdle" and "ebuf ts = []" and "dbuf ts = []"
  shows "\<exists>cs waiting. queue_at env (mem (main ts)) (members (main ts)) cs waiting \<and> in_log (main ts) = out_log (main ts) @ waiting"
proof -
  have "tso_inv env ts" by (rule tso_reach_inv[OF assms(3,1) tso_inv_init[OF assms(2)]])
  then have "conc_inv env (main ts)" using tso_corner assms(6,7) by blast
  then obtain G cs vss k where c: "conc_at env (main ts) G cs vss k" by (auto simp: conc_inv_def)
  then have "in_log (main ts) = out_log (main ts) @ concat vss" by (simp add: conc_at_def)
  then show ?thesis using conc_quiet[OF c assms(4,5)] by blast
qed

theorem tso_quiescent_witness:
  "\<exists>cs waiting. queue_at demo_env (mem (main demo_flushed)) (members (main demo_flushed)) cs waiting \<and>
    in_log (main demo_flushed) = out_log (main demo_flushed) @ waiting"
  by (rule tso_quiescent[OF demo_env_ok demo_queue demo_flushed_reach]) (simp_all add: demo_flushed_def)





text \<open>The buffered machine shows behaviour that sequentially consistent memory does not: after the same
  calls and steps the dequeue that follows a returned enqueue is about to report an empty queue.\<close>

theorem tso_sees_late:
  "(\<exists>ts. tso_run demo_env [CallEnq CannotAlloc 7, StepEnq, StepEnq, CallDeq, StepDeq] (tso_init demo_heap demo_rwq []) = Some (Inr ts) \<and>
      epc (main ts) = EIdle \<and> dpc (main ts) = DChk 1048576) \<and>
   (\<exists>st. conc_run demo_env [CallEnqueue CannotAlloc 7, StepEnqueue, StepEnqueue, CallDequeue, StepDequeue]
      (conc_init demo_heap demo_rwq []) = Some (Inr st) \<and> dpc st = DMove 1048576 0)"
proof
  have r4: "replicate 4 None = [None, None, None, None]" by (simp add: numeral_eq_Suc)
  show "\<exists>st. conc_run demo_env [CallEnqueue CannotAlloc 7, StepEnqueue, StepEnqueue, CallDequeue, StepDequeue]
      (conc_init demo_heap demo_rwq []) = Some (Inr st) \<and> dpc st = DMove 1048576 0"
    by (simp add: conc_init_def enq_start_def deq_start_def enq_return_def arena_heap_def demo_rwq_def arena_block_def
        get_block_def advance_def construct_at_def Let_def r4)
qed (use demo_late_run in \<open>simp add: demo_late_def del: tso_run.simps\<close>)

end
