(* ===== verification/Cpu_Time.thy ===== *)
theory Cpu_Time
  imports App_Prelude Complex_Main
begin

text \<open>
  \<^verbatim>\<open>cputime.cpp\<close> and the time arithmetic of \<^verbatim>\<open>atomicops.h\<close>: points in time as seconds and
  nanoseconds, the comparison and the difference of two of them, the stop watch
  \<^verbatim>\<open>SecondTimer\<close>, and the deadline of a timed wait. The clock is an argument; the rounding of
  \<^verbatim>\<open>float\<close> is left out, a duration is a real number of seconds.
\<close>

record timespec =
  tv_sec :: int
  tv_nsec :: int

definition timespec_less :: "timespec \<Rightarrow> timespec \<Rightarrow> bool" where
  "timespec_less a b = (if tv_sec a \<noteq> tv_sec b then tv_sec a < tv_sec b else tv_nsec a < tv_nsec b)"

definition diff_time :: "timespec \<Rightarrow> timespec \<Rightarrow> real" where
  "diff_time start end' = real_of_int (tv_sec end' - tv_sec start) + real_of_int (tv_nsec end' - tv_nsec start) / 1000000000"

record SecondTimer =
  start :: timespec

definition SecondTimer_reset :: "timespec \<Rightarrow> SecondTimer \<Rightarrow> SecondTimer" where
  "SecondTimer_reset now t = t\<lparr>start := now\<rparr>"

definition SecondTimer_elapsed :: "timespec \<Rightarrow> SecondTimer \<Rightarrow> real" where
  "SecondTimer_elapsed now t = diff_time (start t) now"

text \<open>The deadline of \<^verbatim>\<open>Semaphore::timed_wait\<close>: the clock reading plus the timeout, with the
  nanoseconds brought below \<open>10 ^ 9\<close>.\<close>

definition timed_wait_deadline :: "timespec \<Rightarrow> nat \<Rightarrow> timespec" where
  "timed_wait_deadline now usecs =
     (let usecs_in_1_sec = 1000000;
          nsecs_in_1_sec = 1000000000;
          ts = now\<lparr>tv_sec := tv_sec now + int (usecs div usecs_in_1_sec),
                   tv_nsec := tv_nsec now + int ((usecs mod usecs_in_1_sec) * 1000)\<rparr>
      in if nsecs_in_1_sec \<le> tv_nsec ts
         then ts\<lparr>tv_nsec := tv_nsec ts - nsecs_in_1_sec, tv_sec := tv_sec ts + 1\<rparr>
         else ts)"

subsection \<open>Time as a number of nanoseconds\<close>

definition nanos :: "timespec \<Rightarrow> int" where
  "nanos ts = tv_sec ts * 1000000000 + tv_nsec ts"

definition timespec_ok :: "timespec \<Rightarrow> bool" where
  "timespec_ok ts \<longleftrightarrow> 0 \<le> tv_nsec ts \<and> tv_nsec ts < 1000000000"

lemma timespec_less_nanos:
  assumes "timespec_ok a" "timespec_ok b"
  shows "timespec_less a b \<longleftrightarrow> nanos a < nanos b"
  using assms unfolding timespec_less_def timespec_ok_def nanos_def by (simp split: if_splits) linarith

lemma diff_time_nanos: "diff_time a b * 1000000000 = real_of_int (nanos b - nanos a)"
  unfolding diff_time_def nanos_def distrib_right by simp

lemma deadline_ok:
  assumes "timespec_ok now"
  shows "timespec_ok (timed_wait_deadline now usecs)"
    "nanos (timed_wait_deadline now usecs) = nanos now + int usecs * 1000"
proof -
  have d: "usecs = usecs div 1000000 * 1000000 + usecs mod 1000000" "usecs mod 1000000 < 1000000" by simp_all
  then show "timespec_ok (timed_wait_deadline now usecs)"
    using assms unfolding timespec_ok_def timed_wait_deadline_def Let_def by auto
  have "int usecs = int (usecs div 1000000) * 1000000 + int (usecs mod 1000000)" using d(1) by linarith
  then show "nanos (timed_wait_deadline now usecs) = nanos now + int usecs * 1000"
    by (auto simp: timed_wait_deadline_def Let_def nanos_def)
qed

subsection \<open>Theorems\<close>

text \<open>On normalised times, the comparison of \<^verbatim>\<open>cputime.cpp\<close> is the strict order of the time line,
  and \<^verbatim>\<open>diff_time\<close> is the distance on it: positive exactly when the first time is the earlier one.\<close>

theorem timespec_order:
  assumes "timespec_ok a" and "timespec_ok b"
  shows "(timespec_less a b \<longleftrightarrow> nanos a < nanos b) \<and> (timespec_less a b \<longleftrightarrow> 0 < diff_time a b) \<and>
    (timespec_less a b \<or> timespec_less b a \<or> (tv_sec a = tv_sec b \<and> tv_nsec a = tv_nsec b))"
proof -
  have "0 < diff_time a b \<longleftrightarrow> 0 < diff_time a b * 1000000000" by simp
  also have "\<dots> \<longleftrightarrow> nanos a < nanos b" unfolding diff_time_nanos by simp
  finally have "0 < diff_time a b \<longleftrightarrow> nanos a < nanos b" .
  moreover have "timespec_less a b \<or> timespec_less b a \<or> (tv_sec a = tv_sec b \<and> tv_nsec a = tv_nsec b)"
    unfolding timespec_less_def by auto
  ultimately show ?thesis using timespec_less_nanos[OF assms] by blast
qed

theorem timespec_order_witness:
  "timespec_less \<lparr>tv_sec = 1, tv_nsec = 999999999\<rparr> \<lparr>tv_sec = 2, tv_nsec = 0\<rparr> \<and>
   0 < diff_time \<lparr>tv_sec = 1, tv_nsec = 999999999\<rparr> \<lparr>tv_sec = 2, tv_nsec = 0\<rparr>"
  using timespec_order[of "\<lparr>tv_sec = 1, tv_nsec = 999999999\<rparr>" "\<lparr>tv_sec = 2, tv_nsec = 0\<rparr>"]
  by (auto simp: timespec_ok_def nanos_def)

text \<open>The deadline \<^verbatim>\<open>timed_wait\<close> passes to \<^verbatim>\<open>sem_timedwait\<close> is normalised and lies exactly the
  timeout after the clock reading.\<close>

theorem timed_wait_deadline_normalised:
  assumes "timespec_ok now"
  shows "timespec_ok (timed_wait_deadline now usecs) \<and>
    nanos (timed_wait_deadline now usecs) = nanos now + int usecs * 1000"
  using deadline_ok[OF assms] by blast

theorem timed_wait_deadline_normalised_witness:
  "timespec_ok (timed_wait_deadline \<lparr>tv_sec = 5, tv_nsec = 999999999\<rparr> 1500000) \<and>
    nanos (timed_wait_deadline \<lparr>tv_sec = 5, tv_nsec = 999999999\<rparr> 1500000) = 7499999999"
  using timed_wait_deadline_normalised[of "\<lparr>tv_sec = 5, tv_nsec = 999999999\<rparr>" 1500000]
  by (simp add: timespec_ok_def nanos_def)

end
