(* ===== verification/Semaphore.thy ===== *)
theory Semaphore
  imports Cpu_Time
begin

text \<open>
  The semaphores of \<^verbatim>\<open>libs/readerwriterqueue/atomicops.h\<close>: the POSIX wrapper \<^verbatim>\<open>Semaphore\<close> with
  its loops over interrupted system calls (its deadlines are in \<open>Cpu_Time\<close>), and
  \<^verbatim>\<open>LightweightSemaphore\<close>, one atomic access per step, so that a signalling and a waiting
  thread can be interleaved. The lemmas keep the number of signals that no wait has consumed
  in step with the count and the kernel semaphore, wherever the two threads are.
\<close>

subsection \<open>The POSIX wrapper\<close>

text \<open>
  The kernel semaphore is its value. A system call may be interrupted any number of times
  before it answers: \<open>intr\<close> is the number of \<^verbatim>\<open>EINTR\<close> results that precede the answer.
  Other threads may post while a call is blocked: \<open>posted\<close> is how often they do (before the
  deadline, for a timed wait: there it is a function of the deadline). \<open>None\<close> is a call that
  blocks for good.
\<close>

datatype errno = EINTR | EAGAIN | ETIMEDOUT

definition sem_trywait :: "nat \<Rightarrow> nat \<Rightarrow> (errno + unit) \<times> nat" where
  "sem_trywait intr k = (if 0 < intr then (Inl EINTR, k) else if k = 0 then (Inl EAGAIN, k) else (Inr (), k - 1))"

definition sem_wait :: "nat \<Rightarrow> nat \<Rightarrow> nat \<Rightarrow> ((errno + unit) \<times> nat) option" where
  "sem_wait intr posted k =
     (if 0 < intr then Some (Inl EINTR, k) else if k + posted = 0 then None else Some (Inr (), k + posted - 1))"

definition sem_timedwait :: "nat \<Rightarrow> (timespec \<Rightarrow> nat) \<Rightarrow> timespec \<Rightarrow> nat \<Rightarrow> (errno + unit) \<times> nat" where
  "sem_timedwait intr posted ts k =
     (if 0 < intr then (Inl EINTR, k) else if k + posted ts = 0 then (Inl ETIMEDOUT, k) else (Inr (), k + posted ts - 1))"

definition sem_post :: "nat \<Rightarrow> nat" where
  "sem_post k = k + 1"

fun Semaphore_wait :: "nat \<Rightarrow> nat \<Rightarrow> nat \<Rightarrow> nat option" where
  "Semaphore_wait intr posted k =
     (case sem_wait intr posted k of
        None \<Rightarrow> None
      | Some (rc, k') \<Rightarrow> if rc = Inl EINTR \<and> 0 < intr then Semaphore_wait (intr - 1) posted k' else Some k')"

fun Semaphore_try_wait :: "nat \<Rightarrow> nat \<Rightarrow> bool \<times> nat" where
  "Semaphore_try_wait intr k =
     (case sem_trywait intr k of
        (rc, k') \<Rightarrow> if rc = Inl EINTR \<and> 0 < intr then Semaphore_try_wait (intr - 1) k' else (rc \<noteq> Inl EAGAIN, k'))"

fun timed_wait_loop :: "nat \<Rightarrow> (timespec \<Rightarrow> nat) \<Rightarrow> timespec \<Rightarrow> nat \<Rightarrow> bool \<times> nat" where
  "timed_wait_loop intr posted ts k =
     (case sem_timedwait intr posted ts k of
        (rc, k') \<Rightarrow> if rc = Inl EINTR \<and> 0 < intr then timed_wait_loop (intr - 1) posted ts k'
                    else (rc \<noteq> Inl ETIMEDOUT, k'))"

definition Semaphore_timed_wait :: "nat \<Rightarrow> (timespec \<Rightarrow> nat) \<Rightarrow> timespec \<Rightarrow> nat \<Rightarrow> nat \<Rightarrow> bool \<times> nat" where
  "Semaphore_timed_wait intr posted now usecs k =
     (let ts = timed_wait_deadline now usecs in timed_wait_loop intr posted ts k)"

primrec Semaphore_signal :: "nat \<Rightarrow> nat \<Rightarrow> nat" where
  "Semaphore_signal 0 k = k"
| "Semaphore_signal (Suc n) k = Semaphore_signal n (sem_post k)"

declare Semaphore_wait.simps [simp del] Semaphore_try_wait.simps [simp del] timed_wait_loop.simps [simp del]

lemma Semaphore_wait_eq: "Semaphore_wait intr posted k = (if k + posted = 0 then None else Some (k + posted - 1))"
  by (induction intr) (simp_all add: Semaphore_wait.simps sem_wait_def)

lemma Semaphore_try_wait_eq: "Semaphore_try_wait intr k = (0 < k, k - 1)"
  by (induction intr) (simp_all add: Semaphore_try_wait.simps sem_trywait_def)

lemma timed_wait_loop_eq:
  "timed_wait_loop intr posted ts k = (0 < k + posted ts, k + posted ts - 1)"
  by (induction intr) (simp_all add: timed_wait_loop.simps sem_timedwait_def)

lemma Semaphore_signal_eq: "Semaphore_signal n k = k + n"
  by (induction n arbitrary: k) (simp_all add: sem_post_def)

subsection \<open>LightweightSemaphore, step by step\<close>

record lsem =
  m_count :: int
  m_sema :: nat

definition LightweightSemaphore_ctor :: "int \<Rightarrow> lsem res" where
  "LightweightSemaphore_ctor initialCount =
     bindE (assertE (0 \<le> initialCount)) (\<lambda>_. Inr \<lparr>m_count = initialCount, m_sema = 0\<rparr>)"

definition availableApprox :: "lsem \<Rightarrow> int" where
  "availableApprox s = (let count = m_count s in if 0 < count then count else 0)"

text \<open>
  Where a waiting thread is. \<open>TryLoad\<close> and \<open>TryDec\<close> are \<^verbatim>\<open>tryWait\<close> (with what follows a failed
  load: nothing for a bare \<^verbatim>\<open>tryWait\<close>, the timeout for \<^verbatim>\<open>wait\<close>), the others
  \<^verbatim>\<open>waitWithPartialSpinning\<close>; a timeout below 0 is a wait without one.
\<close>

datatype wait_pc =
    TryLoad "int option" | TryDec
  | Spin int int | SpinDec | SlowDec int | KWait int
  | Readd | Redec | KTry
  | Done bool

text \<open>What the kernel answers to a blocked thread.\<close>

datatype kernel_answer = Granted | Interrupted | Expired

fun wait_step :: "kernel_answer \<Rightarrow> lsem \<Rightarrow> wait_pc \<Rightarrow> (lsem \<times> wait_pc) option" where
  "wait_step a s (TryLoad after) =
     Some (s, if 0 < m_count s then TryDec
              else case after of None \<Rightarrow> Done False | Some timeout_usecs \<Rightarrow> Spin 10000 timeout_usecs)"
| "wait_step a s TryDec = Some (s\<lparr>m_count := m_count s - 1\<rparr>, Done True)"
| "wait_step a s (Spin spin timeout_usecs) =
     Some (s, if 0 \<le> spin - 1
              then if 0 < m_count s then SpinDec else Spin (spin - 1) timeout_usecs
              else SlowDec timeout_usecs)"
| "wait_step a s SpinDec = Some (s\<lparr>m_count := m_count s - 1\<rparr>, Done True)"
| "wait_step a s (SlowDec timeout_usecs) =
     (let oldCount = m_count s
      in Some (s\<lparr>m_count := oldCount - 1\<rparr>, if 0 < oldCount then Done True else KWait timeout_usecs))"
| "wait_step a s (KWait timeout_usecs) =
     (case a of
        Interrupted \<Rightarrow> Some (s, KWait timeout_usecs)
      | Expired \<Rightarrow> if timeout_usecs < 0 then None else Some (s, Readd)
      | Granted \<Rightarrow> if m_sema s = 0 then None else Some (s\<lparr>m_sema := m_sema s - 1\<rparr>, Done True))"
| "wait_step a s Readd =
     (let oldCount = m_count s
      in Some (s\<lparr>m_count := oldCount + 1\<rparr>, if oldCount < 0 then Done False else Redec))"
| "wait_step a s Redec =
     (let oldCount = m_count s
      in Some (s\<lparr>m_count := oldCount - 1\<rparr>, if 0 < oldCount then KTry else Readd))"
| "wait_step a s KTry =
     Some (if m_sema s = 0 then (s, Readd) else (s\<lparr>m_sema := m_sema s - 1\<rparr>, Done True))"
| "wait_step a s (Done b) = None"

text \<open>\<^verbatim>\<open>signal\<close>: the increment, with its assertions, then the kernel semaphore when a thread waits.\<close>

datatype signal_pc = SigIdle | SigPost

definition signal_add :: "int \<Rightarrow> lsem \<Rightarrow> (lsem \<times> signal_pc) res" where
  "signal_add count s =
     bindE (assertE (0 \<le> count)) (\<lambda>_.
       let oldCount = m_count s
       in bindE (assertE (- 1 \<le> oldCount)) (\<lambda>_.
          Inr (s\<lparr>m_count := oldCount + count\<rparr>, if oldCount < 0 then SigPost else SigIdle)))"

definition signal_post :: "lsem \<Rightarrow> lsem" where
  "signal_post s = s\<lparr>m_sema := Semaphore_signal 1 (m_sema s)\<rparr>"

subsection \<open>Counting signals and waits\<close>

text \<open>
  \<open>sem_inv s w g n\<close>: with the waiter at \<open>w\<close> and the signaller at \<open>g\<close>, \<open>n\<close> signals have been
  given and not consumed by a wait.
\<close>

definition posts :: "lsem \<Rightarrow> signal_pc \<Rightarrow> nat" where
  "posts s g = m_sema s + (if g = SigPost then 1 else 0)"

fun sem_inv :: "lsem \<Rightarrow> wait_pc \<Rightarrow> signal_pc \<Rightarrow> int \<Rightarrow> bool" where
  "sem_inv s (TryLoad t) g n \<longleftrightarrow> m_count s = n \<and> 0 \<le> n \<and> posts s g = 0"
| "sem_inv s TryDec g n \<longleftrightarrow> m_count s = n \<and> 0 < n \<and> posts s g = 0"
| "sem_inv s (Spin i t) g n \<longleftrightarrow> m_count s = n \<and> 0 \<le> n \<and> posts s g = 0"
| "sem_inv s SpinDec g n \<longleftrightarrow> m_count s = n \<and> 0 < n \<and> posts s g = 0"
| "sem_inv s (SlowDec t) g n \<longleftrightarrow> m_count s = n \<and> 0 \<le> n \<and> posts s g = 0"
| "sem_inv s (KWait t) g n \<longleftrightarrow> m_count s = n - 1 \<and> 0 \<le> n \<and> posts s g = (if 0 < n then 1 else 0)"
| "sem_inv s Readd g n \<longleftrightarrow> m_count s = n - 1 \<and> 0 \<le> n \<and> posts s g = (if 0 < n then 1 else 0)"
| "sem_inv s Redec g n \<longleftrightarrow> m_count s = n \<and> 0 < n \<and> posts s g = 1"
| "sem_inv s KTry g n \<longleftrightarrow> m_count s = n - 1 \<and> 0 < n \<and> posts s g = 1"
| "sem_inv s (Done b) g n \<longleftrightarrow> m_count s = n \<and> 0 \<le> n \<and> posts s g = 0"

definition grants :: "wait_pc \<Rightarrow> int" where
  "grants w = (if w = Done True then 1 else 0)"

lemma wait_step_inv:
  assumes "sem_inv s w g n" "wait_step a s w = Some (s', w')"
  shows "sem_inv s' w' g (n - grants w')"
  using assms
  by (cases w; cases a) (auto simp: posts_def grants_def Let_def split: if_splits option.splits)

lemma sem_inv_nonneg: "sem_inv s w g n \<Longrightarrow> 0 \<le> n"
  by (cases w) auto

lemma sem_inv_count: "sem_inv s w g n \<Longrightarrow> m_count s = n \<or> m_count s = n - 1"
  by (cases w) auto

lemma signal_add_inv:
  assumes "sem_inv s w SigIdle n" "0 < c"
  shows "\<exists>s' g. signal_add c s = Inr (s', g) \<and> sem_inv s' w g (n + c)"
  using assms by (cases w) (auto simp: signal_add_def Let_def posts_def)

lemma signal_post_inv: "sem_inv s w SigPost n \<Longrightarrow> sem_inv (signal_post s) w SigIdle n"
  by (cases w) (auto simp: signal_post_def posts_def Semaphore_signal_eq)

text \<open>A wait fails only when there is nothing to take, and a blocked waiter with something to
  take can proceed as soon as the signaller is done.\<close>

lemma wait_false:
  assumes "sem_inv s w g n" "wait_step a s w = Some (s', Done False)"
  shows "n = 0"
  using assms by (cases w; cases a) (auto simp: Let_def split: if_splits option.splits)

lemma no_lost_wakeup:
  assumes "sem_inv s (KWait t) SigIdle n" "0 < n"
  shows "wait_step Granted s (KWait t) = Some (s\<lparr>m_sema := m_sema s - 1\<rparr>, Done True)"
  using assms by (auto simp: posts_def)

end
