(* ===== verification/Atomic_Ops.thy ===== *)
theory Atomic_Ops
  imports Semaphore
begin

text \<open>
  The first half of \<^verbatim>\<open>atomicops.h\<close>: the fences and \<^verbatim>\<open>weak_atomic\<close>, in the variants that the preprocessor
  selects for a compiler and an architecture. A fence is the list of barriers it executes, an access
  of \<^verbatim>\<open>weak_atomic\<close> its value together with the order it is made with. What a barrier of the
  compiler or the processor keeps in order is an argument, with its documentation as hypothesis.
\<close>

subsection \<open>Builds\<close>

text \<open>\<^verbatim>\<open>__INTEL_COMPILER\<close>; \<^verbatim>\<open>_MSC_VER\<close> and \<^verbatim>\<open>__cplusplus_cli\<close>; anything else.\<close>

datatype compiler = ICC nat | VCPP nat bool | Other_Compiler

datatype arch = IA64 | X64 | X86 | PPC | Unknown_Arch

definition own_fences :: "compiler \<Rightarrow> bool" where
  "own_fences c = (case c of VCPP ver cli \<Rightarrow> ver < 1700 \<or> cli | ICC ver \<Rightarrow> ver < 1600 | Other_Compiler \<Rightarrow> False)"

text \<open>\<^verbatim>\<open>AE_USE_STD_ATOMIC_FOR_WEAK_ATOMIC\<close>\<close>

definition std_weak_atomic :: "compiler \<Rightarrow> bool" where
  "std_weak_atomic c = (case c of VCPP ver cli \<Rightarrow> 1700 \<le> ver \<and> \<not> cli | _ \<Rightarrow> True)"

subsection \<open>Fences\<close>

datatype memory_order =
    memory_order_relaxed | memory_order_acquire | memory_order_release | memory_order_acq_rel | memory_order_seq_cst

abbreviation memory_order_sync :: memory_order where
  "memory_order_sync \<equiv> memory_order_seq_cst"

datatype barrier =
    ReadBarrier | WriteBarrier | ReadWriteBarrier
  | mm_mfence | mf | sync | lwsync
  | atomic_signal_fence memory_order | atomic_thread_fence memory_order

fun AeFullSync :: "arch \<Rightarrow> barrier option" where
  "AeFullSync X64 = Some mm_mfence" | "AeFullSync X86 = Some mm_mfence" | "AeFullSync IA64 = Some mf"
| "AeFullSync PPC = Some sync" | "AeFullSync Unknown_Arch = None"

fun AeLiteSync :: "arch \<Rightarrow> barrier option" where
  "AeLiteSync X64 = Some mm_mfence" | "AeLiteSync X86 = Some mm_mfence" | "AeLiteSync IA64 = Some mf"
| "AeLiteSync PPC = Some lwsync" | "AeLiteSync Unknown_Arch = None"

fun own_compiler_fence :: "memory_order \<Rightarrow> barrier list" where
  "own_compiler_fence memory_order_relaxed = []"
| "own_compiler_fence memory_order_acquire = [ReadBarrier]"
| "own_compiler_fence memory_order_release = [WriteBarrier]"
| "own_compiler_fence memory_order_acq_rel = [ReadWriteBarrier]"
| "own_compiler_fence memory_order_seq_cst = [ReadWriteBarrier]"

definition compiler_fence :: "compiler \<Rightarrow> memory_order \<Rightarrow> barrier list" where
  "compiler_fence c order =
     (if own_fences c then own_compiler_fence order
      else if order = memory_order_relaxed then [] else [atomic_signal_fence order])"

fun x86_fence :: "barrier \<Rightarrow> memory_order \<Rightarrow> barrier list" where
  "x86_fence full memory_order_relaxed = []"
| "x86_fence full memory_order_acquire = [ReadBarrier]"
| "x86_fence full memory_order_release = [WriteBarrier]"
| "x86_fence full memory_order_acq_rel = [ReadWriteBarrier]"
| "x86_fence full memory_order_seq_cst = [ReadWriteBarrier, full, ReadWriteBarrier]"

fun heavy_fence :: "barrier \<Rightarrow> barrier \<Rightarrow> memory_order \<Rightarrow> barrier list" where
  "heavy_fence full lite memory_order_relaxed = []"
| "heavy_fence full lite memory_order_acquire = [ReadBarrier, lite, ReadBarrier]"
| "heavy_fence full lite memory_order_release = [WriteBarrier, lite, WriteBarrier]"
| "heavy_fence full lite memory_order_acq_rel = [ReadWriteBarrier, lite, ReadWriteBarrier]"
| "heavy_fence full lite memory_order_seq_cst = [ReadWriteBarrier, full, ReadWriteBarrier]"

text \<open>\<^verbatim>\<open>None\<close>: the build fails on a macro without a definition.\<close>

definition fence :: "compiler \<Rightarrow> arch \<Rightarrow> memory_order \<Rightarrow> barrier list option" where
  "fence c a order =
     (if own_fences c
      then if a = X86 \<or> a = X64
           then (case AeFullSync a of Some full \<Rightarrow> Some (x86_fence full order) | None \<Rightarrow> None)
           else (case (AeFullSync a, AeLiteSync a) of (Some full, Some lite) \<Rightarrow> Some (heavy_fence full lite order) | _ \<Rightarrow> None)
      else Some (if order = memory_order_relaxed then [] else [atomic_thread_fence order]))"

subsection \<open>What a fence keeps in order\<close>

datatype reordering = LoadLoad | LoadStore | StoreStore | StoreLoad

fun promised :: "memory_order \<Rightarrow> reordering set" where
  "promised memory_order_relaxed = {}"
| "promised memory_order_acquire = {LoadLoad, LoadStore}"
| "promised memory_order_release = {LoadStore, StoreStore}"
| "promised memory_order_acq_rel = {LoadLoad, LoadStore, StoreStore}"
| "promised memory_order_seq_cst = {LoadLoad, LoadStore, StoreStore, StoreLoad}"

text \<open>The manuals of the processors and the C++ standard: what the hardware never reorders, and what an
  instruction or a standard fence adds.\<close>

definition cpu_ok :: "(arch \<Rightarrow> reordering set) \<Rightarrow> (barrier \<Rightarrow> reordering set) \<Rightarrow> bool" where
  "cpu_ok hw keeps \<longleftrightarrow>
     {LoadLoad, LoadStore, StoreStore} \<subseteq> hw X86 \<and> {LoadLoad, LoadStore, StoreStore} \<subseteq> hw X64 \<and>
     (\<forall>b \<in> {mm_mfence, mf, sync}. {LoadLoad, LoadStore, StoreStore, StoreLoad} \<subseteq> keeps b) \<and>
     {LoadLoad, LoadStore, StoreStore} \<subseteq> keeps lwsync \<and>
     (\<forall>order \<in> {memory_order_acquire, memory_order_release, memory_order_acq_rel, memory_order_seq_cst}.
        promised order \<subseteq> keeps (atomic_thread_fence order))"

fun is_instruction :: "barrier \<Rightarrow> bool" where
  "is_instruction mm_mfence = True" | "is_instruction mf = True" | "is_instruction sync = True"
| "is_instruction lwsync = True" | "is_instruction _ = False"

subsection \<open>\<^verbatim>\<open>weak_atomic\<close>\<close>

text \<open>How the one access to the variable is made.\<close>

datatype access = Volatile | Atomic memory_order | Interlocked

definition weak_load :: "compiler \<Rightarrow> 'a \<Rightarrow> 'a \<times> access" where
  "weak_load c cell_value = (cell_value, if std_weak_atomic c then Atomic memory_order_relaxed else Volatile)"

text \<open>The constructors; the copying and the moving one load the other variable.\<close>

definition weak_ctor :: "'a \<Rightarrow> 'a" where
  "weak_ctor x = x"

definition weak_copy_ctor :: "compiler \<Rightarrow> 'a \<Rightarrow> 'a" where
  "weak_copy_ctor c other = weak_ctor (fst (weak_load c other))"

text \<open>Assignment from a value and from another \<^verbatim>\<open>weak_atomic\<close>.\<close>

definition weak_assign :: "compiler \<Rightarrow> 'a \<Rightarrow> 'a \<Rightarrow> 'a \<times> access" where
  "weak_assign c x cell_value = (x, if std_weak_atomic c then Atomic memory_order_relaxed else Volatile)"

definition weak_assign_from :: "compiler \<Rightarrow> 'a \<Rightarrow> 'a \<Rightarrow> 'a \<times> access" where
  "weak_assign_from c other cell_value = weak_assign c (fst (weak_load c other)) cell_value"

text \<open>
  The interlocked additions work on \<^verbatim>\<open>long\<close> and \<^verbatim>\<open>long long\<close>, to which variable and increment are
  cast. They return the old value and leave the sum.
\<close>

definition InterlockedExchangeAdd :: "'a::len word \<Rightarrow> 'a word \<Rightarrow> 'a word \<times> 'a word" where
  "InterlockedExchangeAdd v inc = (ucast (ucast v :: 32 word), ucast ((ucast v :: 32 word) + ucast inc))"

definition InterlockedExchangeAdd64 :: "'a::len word \<Rightarrow> 'a word \<Rightarrow> 'a word \<times> 'a word" where
  "InterlockedExchangeAdd64 v inc = (ucast (ucast v :: 64 word), ucast ((ucast v :: 64 word) + ucast inc))"

text \<open>\<^verbatim>\<open>sizeof(T)\<close> of a type of \<open>n\<close> bits; \<^verbatim>\<open>None\<close> is \<^verbatim>\<open>#error\<close>. The result is the value returned, the value
  left, and the access.\<close>

definition interlocked_add :: "arch \<Rightarrow> 'a::len word \<Rightarrow> 'a word \<Rightarrow> ('a word \<times> 'a word \<times> access) res option" where
  "interlocked_add a v inc =
     (if a = X64 \<or> a = X86
      then Some (if LENGTH('a) div 8 = 4
                 then let (old, new) = InterlockedExchangeAdd v inc in Inr (old, new, Interlocked)
                 else if a = X64 \<and> LENGTH('a) div 8 = 8
                 then let (old, new) = InterlockedExchangeAdd64 v inc in Inr (old, new, Interlocked)
                 else Inl AssertFailed)
      else None)"

definition fetch_add_acquire :: "compiler \<Rightarrow> arch \<Rightarrow> 'a::len word \<Rightarrow> 'a word \<Rightarrow> ('a word \<times> 'a word \<times> access) res option" where
  "fetch_add_acquire c a v inc =
     (if std_weak_atomic c then Some (Inr (v, v + inc, Atomic memory_order_acquire)) else interlocked_add a v inc)"

definition fetch_add_release :: "compiler \<Rightarrow> arch \<Rightarrow> 'a::len word \<Rightarrow> 'a word \<Rightarrow> ('a word \<times> 'a word \<times> access) res option" where
  "fetch_add_release c a v inc =
     (if std_weak_atomic c then Some (Inr (v, v + inc, Atomic memory_order_release)) else interlocked_add a v inc)"

text \<open>An interlocked access is a full barrier, a plain one orders nothing.\<close>

fun access_orders :: "access \<Rightarrow> reordering set" where
  "access_orders Volatile = {}"
| "access_orders (Atomic order) = promised order"
| "access_orders Interlocked = promised memory_order_seq_cst"

subsection \<open>Casts that keep the width\<close>

lemma ucast_add_ucast:
  fixes v inc :: "'a::len word"
  assumes "LENGTH('a) \<le> LENGTH('b)"
  shows "(ucast ((ucast v :: 'b::len word) + ucast inc) :: 'a word) = v + inc"
  using assms
proof transfer
  fix v inc :: int
  assume "LENGTH('a) \<le> LENGTH('b)"
  then show "take_bit LENGTH('a) (take_bit LENGTH('b) (take_bit LENGTH('a) v + take_bit LENGTH('a) inc)) = take_bit LENGTH('a) (v + inc)"
    by (simp add: min_def take_bit_add)
qed

lemma ucast_ucast_same:
  fixes v :: "'a::len word"
  assumes "LENGTH('a) \<le> LENGTH('b)"
  shows "(ucast (ucast v :: 'b::len word) :: 'a word) = v"
  using assms by transfer (simp add: min_def)

lemma interlocked_add_eq:
  fixes v :: "'a::len word"
  assumes "a = X64 \<or> a = X86" "LENGTH('a) = 32 \<or> LENGTH('a) = 64 \<and> a = X64"
  shows "interlocked_add a v inc = Some (Inr (v, v + inc, Interlocked))"
  using assms ucast_add_ucast[where 'b = 32, of v inc] ucast_ucast_same[where 'b = 32, of v]
    ucast_add_ucast[where 'b = 64, of v inc] ucast_ucast_same[where 'b = 64, of v]
  by (auto simp: interlocked_add_def InterlockedExchangeAdd_def InterlockedExchangeAdd64_def)

lemma sint_add_exact:
  fixes v w :: "64 word"
  assumes "- (2 ^ 63) \<le> sint v + sint w" "sint v + sint w < 2 ^ 63"
  shows "sint (v + w) = sint v + sint w"
  using assms by (simp add: sint_word_ariths(1) signed_take_bit_int_eq_self)

lemma fetch_add_exact:
  fixes v inc :: "64 word"
  assumes "- (2 ^ 63) \<le> sint v + sint inc" "sint v + sint inc < 2 ^ 63"
  shows "\<exists>v' acc. fetch_add_acquire c X64 v inc = Some (Inr (v, v', acc)) \<and> sint v' = sint v + sint inc"
    "\<exists>v' acc. fetch_add_release c X64 v inc = Some (Inr (v, v', acc)) \<and> sint v' = sint v + sint inc"
  using sint_add_exact[OF assms] interlocked_add_eq[of X64 v inc]
  by (auto simp: fetch_add_acquire_def fetch_add_release_def)

subsection \<open>Theorems\<close>

text \<open>On every compiler and architecture for which the fences compile, the processor's own order
  together with the instructions of a fence keeps what the fence is named for.\<close>

theorem fence_enough:
  assumes "cpu_ok hw keeps" and "fence c a order = Some bs"
  shows "promised order \<subseteq> hw a \<union> (\<Union>b \<in> set bs. keeps b)"
proof (cases "own_fences c")
  case True
  then show ?thesis using assms
    by (cases a; cases order) (auto simp: fence_def cpu_ok_def)
next
  case False
  then show ?thesis using assms by (cases order) (auto simp: fence_def cpu_ok_def)
qed

definition demo_hw :: "arch \<Rightarrow> reordering set" where
  "demo_hw a = (if a = X86 \<or> a = X64 then {LoadLoad, LoadStore, StoreStore} else {})"

fun demo_keeps :: "barrier \<Rightarrow> reordering set" where
  "demo_keeps lwsync = {LoadLoad, LoadStore, StoreStore}"
| "demo_keeps (atomic_thread_fence order) = promised order"
| "demo_keeps b = (if is_instruction b then {LoadLoad, LoadStore, StoreStore, StoreLoad} else {})"

lemma demo_cpu_ok: "cpu_ok demo_hw demo_keeps"
  by (simp add: cpu_ok_def demo_hw_def)

theorem fence_enough_witness:
  "fence (ICC 1500) PPC memory_order_release = Some [WriteBarrier, lwsync, WriteBarrier] \<and>
   promised memory_order_release \<subseteq> demo_hw PPC \<union> (\<Union>b \<in> set [WriteBarrier, lwsync, WriteBarrier]. demo_keeps b)"
proof
  show f: "fence (ICC 1500) PPC memory_order_release = Some [WriteBarrier, lwsync, WriteBarrier]"
    by (simp add: fence_def own_fences_def)
  show "promised memory_order_release \<subseteq> demo_hw PPC \<union> (\<Union>b \<in> set [WriteBarrier, lwsync, WriteBarrier]. demo_keeps b)"
    by (rule fence_enough[OF demo_cpu_ok f])
qed

text \<open>On x86 only the full fence is an instruction; the queue uses the others.\<close>

lemma x86_fence_instruction:
  assumes "own_fences c" "a = X86 \<or> a = X64" "fence c a order = Some bs"
  shows "(\<exists>b \<in> set bs. is_instruction b) \<longleftrightarrow> order = memory_order_sync"
  using assms by (cases order) (auto simp: fence_def)

text \<open>\<^verbatim>\<open>weak_atomic\<close> is the same in all its variants for the types it supports: whatever the compiler,
  an addition returns the old value, leaves the wrapped sum, and is ordered at least as its name says.\<close>

theorem weak_atomic_builds_agree:
  fixes v inc :: "'a::len word"
  assumes "a = X64 \<or> a = X86" and "LENGTH('a) = 32 \<or> LENGTH('a) = 64 \<and> a = X64"
  shows "(\<exists>acc. fetch_add_acquire c a v inc = Some (Inr (v, v + inc, acc)) \<and> promised memory_order_acquire \<subseteq> access_orders acc) \<and>
    (\<exists>acc. fetch_add_release c a v inc = Some (Inr (v, v + inc, acc)) \<and> promised memory_order_release \<subseteq> access_orders acc)"
  using interlocked_add_eq[OF assms, of v inc] by (simp add: fetch_add_acquire_def fetch_add_release_def)

theorem weak_atomic_builds_agree_witness:
  "\<exists>acc. fetch_add_acquire (VCPP 1600 False) X86 (- 1 :: 32 word) 2 = Some (Inr (- 1, 1, acc)) \<and>
     promised memory_order_acquire \<subseteq> access_orders acc"
  using weak_atomic_builds_agree[where a = X86 and v = "- 1 :: 32 word" and c = "VCPP 1600 False" and inc = 2] by simp

text \<open>C37: the count of the semaphore, an integer in \<open>Semaphore\<close>, is what the machine's 64-bit \<^verbatim>\<open>ssize_t\<close> holds:
  with fewer than 2^63 - 1 signals outstanding no step of a waiting thread wraps.\<close>

theorem semaphore_count_exact:
  fixes v :: "64 word"
  assumes "sem_inv s w g n" and "n < 2 ^ 63 - 1" and "sint v = m_count s" and "wait_step ans s w = Some (s', w')"
  shows "m_count s' = m_count s \<or>
    (\<exists>v' acc. fetch_add_acquire c X64 v (- 1) = Some (Inr (v, v', acc)) \<and> sint v' = m_count s') \<or>
    (\<exists>v' acc. fetch_add_release c X64 v 1 = Some (Inr (v, v', acc)) \<and> sint v' = m_count s')"
proof -
  have r: "- 1 \<le> m_count s" "m_count s < 2 ^ 63 - 1"
    using sem_inv_nonneg[OF assms(1)] sem_inv_count[OF assms(1)] assms(2) by auto
  have "\<exists>v' acc. fetch_add_acquire c X64 v (- 1) = Some (Inr (v, v', acc)) \<and> sint v' = m_count s - 1"
    using fetch_add_exact(1)[of v "- 1" c] r assms(3) by simp
  moreover have "\<exists>v' acc. fetch_add_release c X64 v 1 = Some (Inr (v, v', acc)) \<and> sint v' = m_count s + 1"
    using fetch_add_exact(2)[of v 1 c] r assms(3) by simp
  moreover have "m_count s' = m_count s \<or> m_count s' = m_count s - 1 \<or> m_count s' = m_count s + 1"
    using assms(4) by (cases w; cases ans) (auto simp: Let_def split: if_splits option.splits)
  ultimately show ?thesis by auto
qed

theorem semaphore_count_exact_witness:
  "\<exists>v' acc. fetch_add_acquire (VCPP 1600 False) X64 (3 :: 64 word) (- 1) = Some (Inr (3, v', acc)) \<and> sint v' = 2"
  using semaphore_count_exact[of "\<lparr>m_count = 3, m_sema = 0\<rparr>" TryDec SigIdle 3 3 Granted "\<lparr>m_count = 2, m_sema = 0\<rparr>" "Done True" "VCPP 1600 False"]
    interlocked_add_eq[of X64 "3 :: 64 word" 1]
  by (simp add: posts_def fetch_add_release_def std_weak_atomic_def)

end
