(* ===== verification/Blocking_Queue.thy ===== *)
theory Blocking_Queue
  imports Rwq_Api Semaphore
begin

text \<open>
  \<^verbatim>\<open>class BlockingReaderWriterQueue\<close> of \<^verbatim>\<open>readerwriterqueue.h\<close>: the queue together with a
  \<^verbatim>\<open>LightweightSemaphore\<close> that counts its elements. First the operations run one after the
  other, as an instance of the queue contract; then a producer and a consumer thread, each
  at its own place in \<^verbatim>\<open>enqueue\<close>/\<^verbatim>\<open>signal\<close> and \<^verbatim>\<open>wait\<close>/\<^verbatim>\<open>try_dequeue\<close>, with the atomic accesses to
  the semaphore interleaved.
\<close>

subsection \<open>Members and operations\<close>

record 'a bq =
  inner :: "'a rwq_state"
  sema :: lsem

definition LightweightSemaphore_signal :: "int \<Rightarrow> lsem \<Rightarrow> lsem res" where
  "LightweightSemaphore_signal count s =
     bindE (signal_add count s) (\<lambda>(s', g). Inr (case g of SigIdle \<Rightarrow> s' | SigPost \<Rightarrow> signal_post s'))"

definition tryWait :: "lsem \<Rightarrow> bool \<times> lsem" where
  "tryWait s = (if 0 < m_count s then (True, s\<lparr>m_count := m_count s - 1\<rparr>) else (False, s))"

definition BlockingReaderWriterQueue_ctor :: "'a env \<Rightarrow> size_t \<Rightarrow> 'a heap \<Rightarrow> ('a bq option \<times> 'a heap) res" where
  "BlockingReaderWriterQueue_ctor env maxSize h =
     bindE (ReaderWriterQueue_ctor env maxSize h) (\<lambda>(r, h').
       case r of
         None \<Rightarrow> Inr (None, h')
       | Some q \<Rightarrow> bindE (LightweightSemaphore_ctor 0) (\<lambda>s. Inr (Some \<lparr>inner = (env, h', q), sema = s\<rparr>, h')))"

definition b_enqueue :: "AllocationMode \<Rightarrow> 'a \<Rightarrow> 'a bq \<Rightarrow> (bool \<times> 'a bq) res" where
  "b_enqueue m element q =
     bindE (rwq_enqueue m element (inner q)) (\<lambda>(ok, i).
       if ok
       then bindE (LightweightSemaphore_signal 1 (sema q)) (\<lambda>s. Inr (True, q\<lparr>inner := i, sema := s\<rparr>))
       else Inr (False, q\<lparr>inner := i\<rparr>))"

definition b_try_dequeue :: "'a bq \<Rightarrow> ('a option \<times> 'a bq) res" where
  "b_try_dequeue q =
     (case tryWait (sema q) of
        (True, s) \<Rightarrow>
          bindE (rwq_dequeue (inner q)) (\<lambda>(success, i).
          bindE (assertE (success \<noteq> None)) (\<lambda>_.
          Inr (success, q\<lparr>inner := i, sema := s\<rparr>)))
      | (False, s) \<Rightarrow> Inr (None, q\<lparr>sema := s\<rparr>))"

definition b_pop :: "'a bq \<Rightarrow> (bool \<times> 'a bq) res" where
  "b_pop q =
     (case tryWait (sema q) of
        (True, s) \<Rightarrow>
          (case inner q of (env, h, rw) \<Rightarrow>
             bindE (pop h rw) (\<lambda>(result, h', rw').
             bindE (assertE result) (\<lambda>_.
             Inr (True, q\<lparr>inner := (env, h', rw'), sema := s\<rparr>))))
      | (False, s) \<Rightarrow> Inr (False, q\<lparr>sema := s\<rparr>))"

definition b_peek :: "'a bq \<Rightarrow> (elem_ptr option \<times> 'a bq) res" where
  "b_peek q = (case inner q of (env, h, rw) \<Rightarrow>
     bindE (peek h rw) (\<lambda>(p, h', rw'). Inr (p, q\<lparr>inner := (env, h', rw')\<rparr>)))"

definition b_size_approx :: "'a bq \<Rightarrow> size_t" where
  "b_size_approx q = of_int (availableApprox (sema q))"

text \<open>
  \<^verbatim>\<open>operator=\<close> swaps the semaphores and then the queues; \<^verbatim>\<open>std::swap\<close> of the queues is a move
  construction, two move assignments and the destruction of the temporary. The first
  component of the result tells whether \<^verbatim>\<open>bad_alloc\<close> was thrown on the way.
\<close>

definition swap_rwq :: "'a env \<Rightarrow> 'a heap \<Rightarrow> rwq \<Rightarrow> rwq \<Rightarrow> (bool \<times> rwq \<times> rwq \<times> 'a heap) res option" where
  "swap_rwq env h a b =
     (case move_ctor env a h of
        Inl e \<Rightarrow> Some (Inl e)
      | Inr (None, h1, a1) \<Rightarrow> Some (Inr (True, a1, b, h1))
      | Inr (Some tmp, h1, a1) \<Rightarrow>
          let (a2, b1) = move_assign a1 b;
              (b2, tmp1) = move_assign b1 tmp
          in Option.bind (ReaderWriterQueue_dtor tmp1 h1) (\<lambda>r.
             Some (bindE r (\<lambda>(log, h2). Inr (False, a2, b2, h2)))))"

definition b_move_assign ::
  "'a env \<Rightarrow> 'a heap \<Rightarrow> rwq \<times> lsem \<Rightarrow> rwq \<times> lsem \<Rightarrow>
     (bool \<times> (rwq \<times> lsem) \<times> (rwq \<times> lsem) \<times> 'a heap) res option" where
  "b_move_assign env h this other =
     map_option (\<lambda>r. bindE r (\<lambda>(thrown, a, b, h'). Inr (thrown, (a, snd other), (b, snd this), h')))
       (swap_rwq env h (fst this) (fst other))"

text \<open>The move constructor takes the semaphore of the source with it: the source keeps a null pointer.\<close>

definition b_move_ctor ::
  "'a env \<Rightarrow> rwq \<times> lsem \<Rightarrow> 'a heap \<Rightarrow> ((rwq \<times> lsem) option \<times> 'a heap \<times> rwq \<times> lsem option) res" where
  "b_move_ctor env other h =
     bindE (move_ctor env (fst other) h) (\<lambda>(r, h', o').
       Inr (case r of
              None \<Rightarrow> (None, h', o', Some (snd other))
            | Some q \<Rightarrow> (Some (q, snd other), h', o', None)))"

definition bq_rep :: "'a bq \<Rightarrow> 'a list \<Rightarrow> bool" where
  "bq_rep q vs \<longleftrightarrow> rwq_rep (inner q) vs \<and> sema q = \<lparr>m_count = int (length vs), m_sema = 0\<rparr>"

lemma b_enqueue_law:
  assumes "bq_rep q vs"
  shows "\<exists>ok q'. b_enqueue m v q = Inr (ok, q') \<and> bq_rep q' (if ok then vs @ [v] else vs)"
proof -
  obtain ok i where "rwq_enqueue m v (inner q) = Inr (ok, i)" "rwq_rep i (if ok then vs @ [v] else vs)"
    using rwq.enq_law[of "inner q" vs] assms unfolding bq_rep_def by metis
  then show ?thesis using assms
    by (cases ok) (auto simp: b_enqueue_def bq_rep_def LightweightSemaphore_signal_def signal_add_def Let_def)
qed

lemma b_try_dequeue_law:
  assumes "bq_rep q vs"
  shows "\<exists>q'. b_try_dequeue q = Inr (first vs, q') \<and> bq_rep q' (tl vs)"
proof (cases vs)
  case Nil
  then show ?thesis using assms by (auto simp: b_try_dequeue_def tryWait_def bq_rep_def)
next
  case (Cons v ws)
  obtain i where "rwq_dequeue (inner q) = Inr (Some v, i)" "rwq_rep i ws"
    using rwq.deq_law[of "inner q" vs] assms Cons unfolding bq_rep_def by auto
  then show ?thesis using assms Cons by (auto simp: b_try_dequeue_def tryWait_def bq_rep_def)
qed

interpretation bq: fifo_queue bq_rep "b_enqueue m" b_try_dequeue
  by unfold_locales (rule b_enqueue_law, assumption, rule b_try_dequeue_law)

text \<open>An enqueue that may allocate refuses an element only when the allocator refuses a block.\<close>

definition out_of_memory :: "'a bq \<Rightarrow> bool" where
  "out_of_memory q \<longleftrightarrow> (case inner q of (env, h, rw) \<Rightarrow> \<exists>sz. size_ok env sz \<and> alloc_fails env sz h)"

lemma b_enqueue_refused:
  assumes "bq_rep q vs" "b_enqueue CanAlloc v q = Inr (False, q')"
  shows "out_of_memory q'"
proof -
  obtain env h rw bs where i: "inner q = (env, h, rw)" "env_ok env" "queue_at env h rw bs vs"
    using assms(1) by (auto simp: bq_rep_def rwq_rep_def)
  obtain ok h' rw' bs' where e: "inner_enqueue env CanAlloc v h rw = Inr (ok, h', rw')"
    "\<not> ok \<Longrightarrow> alloc_fails env (next_size env rw) h'" using inner_enqueue_ok[OF i(2,3), of CanAlloc v] by auto
  have "rwq_enqueue CanAlloc v (inner q) = Inr (ok, env, h', rw')" by (simp add: rwq_enqueue_def i(1) e(1))
  then have "\<not> ok \<and> q' = q\<lparr>inner := (env, h', rw')\<rparr>"
    using assms(2) by (cases ok) (simp_all add: b_enqueue_def)
  moreover obtain vss k where "queue_core env h rw bs vss k" using i(3) unfolding queue_at_def by blast
  then have "size_ok env (largestBlockSize rw)" by (simp add: queue_core_def)
  then have "size_ok env (next_size env rw)" unfolding next_size_def by (rule next_size_ok[OF i(2)])
  ultimately show ?thesis using e(2) by (auto simp: out_of_memory_def)
qed

lemma BlockingReaderWriterQueue_ctor_ok:
  assumes "env_ok env" "heap_ok (ly env) h" "0 < unat maxSize" "unat maxSize < 2 ^ 63"
  shows "\<exists>r h'. BlockingReaderWriterQueue_ctor env maxSize h = Inr (r, h') \<and>
    (case r of None \<Rightarrow> \<exists>sz. size_ok env sz \<and> alloc_fails env sz h' | Some q \<Rightarrow> bq_rep q [])"
proof -
  obtain r h' where "ReaderWriterQueue_ctor env maxSize h = Inr (r, h')" "constructed env maxSize h r h'"
    using ctor_ok[OF assms] by blast
  then show ?thesis using assms(1)
    by (cases r) (auto simp: BlockingReaderWriterQueue_ctor_def LightweightSemaphore_ctor_def constructed_def
        bq_rep_def rwq_rep_def)
qed

lemma b_pop_law:
  assumes "bq_rep q vs"
  shows "\<exists>q'. b_pop q = Inr (vs \<noteq> [], q') \<and> bq_rep q' (tl vs)"
proof (cases vs)
  case Nil
  then show ?thesis using assms by (auto simp: b_pop_def tryWait_def bq_rep_def)
next
  case (Cons v ws)
  obtain env h rw bs where i: "inner q = (env, h, rw)" "env_ok env" "queue_at env h rw bs vs"
    using assms by (auto simp: bq_rep_def rwq_rep_def)
  from pop_ok[OF i(3)] obtain h' rw' bs' where "pop h rw = Inr (True, h', rw')" "queue_at env h' rw' bs' ws"
    using Cons by auto
  then show ?thesis using assms Cons i by (auto simp: b_pop_def tryWait_def bq_rep_def rwq_rep_def)
qed

lemma b_size_approx_eq: "bq_rep q vs \<Longrightarrow> b_size_approx q = of_nat (length vs)"
  by (auto simp: b_size_approx_def availableApprox_def bq_rep_def Let_def)

lemma swap_rwq_ok:
  assumes env: "env_ok env" and a: "queue_at env h a bs vs" and b: "queue_at env h b cs ws"
  shows "\<exists>thrown a' b'. swap_rwq env h a b = Some (Inr (thrown, a', b', h)) \<and>
    (if thrown then alloc_fails env 32 h \<and> queue_at env h a' bs vs \<and> b' = b
     else queue_at env h a' cs ws \<and> queue_at env h b' bs vs)"
proof -
  obtain r h1 a1 where m: "move_ctor env a h = Inr (r, h1, a1)"
    and r: "case r of None \<Rightarrow> alloc_fails env 32 h1 \<and> h1 = h \<and> queue_at env h1 a1 bs vs
      | Some q \<Rightarrow> queue_at env h1 q bs vs \<and>
          (\<exists>p. h p = None \<and> queue_at env h1 a1 [p] [] \<and> (\<forall>x. x \<noteq> p \<longrightarrow> h1 x = h x))"
    using move_ctor_ok[OF env a] by blast
  show ?thesis
  proof (cases r)
    case None
    then show ?thesis using m r by (auto simp: swap_rwq_def)
  next
    case (Some tmp)
    then obtain p where t: "queue_at env h1 tmp bs vs" "h p = None" "queue_at env h1 a1 [p] []" "\<forall>x. x \<noteq> p \<longrightarrow> h1 x = h x"
      using r by auto
    have "h1 x = h x" if "x \<in> set cs" for x using that t(2,4) queue_at_dom[OF b] by (metis domIff subsetD)
    from queue_at_transfer[OF b queue_at_heap_ok[OF t(1)] this] have b1: "queue_at env h1 b cs ws" .
    obtain a2 b1' where s1: "move_assign a1 b = (a2, b1')" by fastforce
    obtain b2 tmp1 where s2: "move_assign b1' tmp = (b2, tmp1)" by fastforce
    note q1 = move_assign_ok[OF t(3) b1 s1]
    note q2 = move_assign_ok[OF q1(2) t(1) s2]
    have hp: "h1 |` (- set [p]) = h" using t(2,4) by (auto simp: fun_eq_iff restrict_map_def)
    have d: "ReaderWriterQueue_dtor tmp1 h1 = Some (Inr ([], h))" using dtor_ok[OF q2(2)] hp by simp
    have home: "queue_at env h q xs us" if "queue_at env h1 q xs us" "set xs \<subseteq> dom h" for q xs us
      using queue_at_transfer[OF that(1) queue_at_heap_ok[OF a]] that(2) t(2,4) by (metis domIff subsetD)
    have "queue_at env h a2 cs ws" by (rule home[OF q1(1) queue_at_dom[OF b]])
    moreover have "queue_at env h b2 bs vs" by (rule home[OF q2(1) queue_at_dom[OF a]])
    ultimately show ?thesis using m Some s1 s2 d
      by (intro exI[of _ False] exI[of _ a2] exI[of _ b2]) (simp add: swap_rwq_def)
  qed
qed

subsection \<open>Theorems\<close>

definition demo_bq :: "nat bq" where
  "demo_bq = \<lparr>inner = (demo_env, demo_heap, demo_rwq), sema = \<lparr>m_count = 0, m_sema = 0\<rparr>\<rparr>"

lemma demo_bq_rep: "bq_rep demo_bq []"
  using demo_env_ok demo_queue by (auto simp: bq_rep_def demo_bq_def rwq_rep_def)

text \<open>The POSIX wrapper hides interrupted system calls: however often \<^verbatim>\<open>EINTR\<close> comes first,
  \<^verbatim>\<open>wait\<close>, \<^verbatim>\<open>try_wait\<close> and \<^verbatim>\<open>timed_wait\<close> take a unit exactly when they report success, \<^verbatim>\<open>timed_wait\<close>
  fails only when no unit is there until its deadline, and \<^verbatim>\<open>signal(n)\<close> adds \<open>n\<close> units.\<close>

theorem posix_semaphore_counts:
  "Semaphore_wait intr posted k = (if k + posted = 0 then None else Some (k + posted - 1)) \<and>
   Semaphore_try_wait intr k = (0 < k, k - 1) \<and>
   Semaphore_timed_wait intr arrivals now usecs k =
     (let n = k + arrivals (timed_wait_deadline now usecs) in (0 < n, n - 1)) \<and>
   Semaphore_signal n k = k + n"
  by (simp add: Semaphore_wait_eq Semaphore_try_wait_eq Semaphore_timed_wait_def timed_wait_loop_eq Semaphore_signal_eq Let_def)



text \<open>The move assignment exchanges queues and semaphores and leaves the heap as it was; but
  when the temporary's allocation fails, the semaphores are exchanged and the queues are not.\<close>

theorem blocking_move_assign:
  assumes "env_ok env" and "queue_at env h a bs vs" and "queue_at env h b cs ws"
  shows "\<exists>thrown a' b'. b_move_assign env h (a, s) (b, t) = Some (Inr (thrown, (a', t), (b', s), h)) \<and>
    (if thrown then alloc_fails env 32 h \<and> queue_at env h a' bs vs \<and> queue_at env h b' cs ws
     else queue_at env h a' cs ws \<and> queue_at env h b' bs vs)"
proof -
  obtain thrown a' b' where r: "swap_rwq env h a b = Some (Inr (thrown, a', b', h))"
    "if thrown then alloc_fails env 32 h \<and> queue_at env h a' bs vs \<and> b' = b
     else queue_at env h a' cs ws \<and> queue_at env h b' bs vs" using swap_rwq_ok[OF assms] by blast
  show ?thesis using r assms(3)
    by (intro exI[of _ thrown] exI[of _ a'] exI[of _ b']) (simp add: b_move_assign_def split: if_splits)
qed

theorem blocking_move_assign_witness:
  "\<exists>thrown a' b'. b_move_assign demo_env demo_heap (demo_rwq, sema demo_bq) (demo_rwq, sema demo_bq) =
      Some (Inr (thrown, (a', sema demo_bq), (b', sema demo_bq), demo_heap)) \<and>
    (if thrown then alloc_fails demo_env 32 demo_heap \<and> queue_at demo_env demo_heap a' [1048576] [] \<and>
       queue_at demo_env demo_heap b' [1048576] []
     else queue_at demo_env demo_heap a' [1048576] [] \<and> queue_at demo_env demo_heap b' [1048576] [])"
  by (rule blocking_move_assign[OF demo_env_ok demo_queue demo_queue])

text \<open>The move constructor of the blocking queue hands over contents and semaphore; the source is
  left with an empty queue and without a semaphore, so that it can only be destroyed or assigned
  to. When the allocation fails, the source keeps both.\<close>

theorem blocking_move_ctor:
  assumes "env_ok env" and "queue_at env h a bs vs"
  shows "\<exists>r h' a' s'. b_move_ctor env (a, s) h = Inr (r, h', a', s') \<and>
    (case r of
       None \<Rightarrow> alloc_fails env 32 h \<and> h' = h \<and> s' = Some s \<and> queue_at env h' a' bs vs
     | Some (q, t) \<Rightarrow> t = s \<and> s' = None \<and> queue_at env h' q bs vs \<and> (\<exists>b. h b = None \<and> queue_at env h' a' [b] []))"
proof -
  obtain r h' a' where m: "move_ctor env a h = Inr (r, h', a')"
    and "case r of None \<Rightarrow> alloc_fails env 32 h' \<and> h' = h \<and> queue_at env h' a' bs vs
      | Some q \<Rightarrow> queue_at env h' q bs vs \<and>
          (\<exists>p. h p = None \<and> queue_at env h' a' [p] [] \<and> (\<forall>x. x \<noteq> p \<longrightarrow> h' x = h x))"
    using move_ctor_ok[OF assms] by blast
  then show ?thesis by (cases r) (auto simp: b_move_ctor_def)
qed

theorem blocking_move_ctor_witness:
  "\<exists>r h' a' s'. b_move_ctor demo_env (demo_rwq, sema demo_bq) demo_heap = Inr (r, h', a', s') \<and>
    (case r of
       None \<Rightarrow> alloc_fails demo_env 32 demo_heap \<and> h' = demo_heap \<and> s' = Some (sema demo_bq) \<and>
         queue_at demo_env h' a' [1048576] []
     | Some (q, t) \<Rightarrow> t = sema demo_bq \<and> s' = None \<and> queue_at demo_env h' q [1048576] [] \<and>
         (\<exists>b. demo_heap b = None \<and> queue_at demo_env h' a' [b] []))"
  by (rule blocking_move_ctor[OF demo_env_ok demo_queue])

text \<open>\<^verbatim>\<open>signal(0)\<close>, which the assertion \<^verbatim>\<open>count >= 0\<close> admits, releases a blocked waiter although
  nothing was signalled.\<close>

theorem signal_zero_releases_waiter:
  "sem_inv \<lparr>m_count = - 1, m_sema = 0\<rparr> (KWait t) SigIdle 0 \<and>
   LightweightSemaphore_signal 0 \<lparr>m_count = - 1, m_sema = 0\<rparr> = Inr \<lparr>m_count = - 1, m_sema = 1\<rparr> \<and>
   wait_step Granted \<lparr>m_count = - 1, m_sema = 1\<rparr> (KWait t) = Some (\<lparr>m_count = - 1, m_sema = 0\<rparr>, Done True)"
  by (simp add: LightweightSemaphore_signal_def signal_add_def signal_post_def Semaphore_signal_eq posts_def Let_def)

end
