(* ===== verification/Blocking_Conc.thy ===== *)
theory Blocking_Conc
  imports Rwq_Conc_Steps Blocking_Queue
begin

text \<open>
  A producer thread in \<^verbatim>\<open>enqueue\<close> and a consumer thread in \<^verbatim>\<open>try_dequeue\<close>, \<^verbatim>\<open>wait_dequeue\<close> or
  \<^verbatim>\<open>wait_dequeue_timed\<close> of one \<^verbatim>\<open>BlockingReaderWriterQueue\<close>. The step relations of the two parts,
  \<open>conc_step\<close> for the queue inside and \<open>wait_step\<close>/\<open>signal_add\<close>/\<open>signal_post\<close> for the semaphore, are composed:
  between any two accesses of one thread, to the queue or to the semaphore, the other may take any
  number of its own.
\<close>

subsection \<open>The composed system\<close>

datatype prod_pc = PIdle | PEnq | PSignal | PPost
datatype cons_pc = CIdle | CWait wait_pc | CTake | CDeq

record 'a bsys =
  squeue :: "'a conc"
  ssema :: lsem
  prod :: prod_pc
  cons :: cons_pc

text \<open>
  \<open>Enqueue\<close> and \<open>EnqueueStep\<close> run the enqueue of the queue inside, \<open>SignalAdd\<close> and \<open>SignalPost\<close> the signal
  that follows when it returned true. The consumer starts a bare \<^verbatim>\<open>tryWait\<close> (\<^verbatim>\<open>try_dequeue\<close>) or a
  \<^verbatim>\<open>wait\<close> with a timeout (\<^verbatim>\<open>wait_dequeue\<close> when it is negative, \<^verbatim>\<open>wait_dequeue_timed\<close>); when the semaphore
  grants it, \<open>Dequeue\<close> and \<open>DequeueStep\<close> run \<^verbatim>\<open>inner.try_dequeue\<close>, which must succeed.
\<close>

datatype 'a bevent =
    Enqueue AllocationMode 'a | EnqueueStep | SignalAdd | SignalPost
  | StartTry | StartWait int | WaitStep kernel_answer | Dequeue | DequeueStep

definition after_wait :: "wait_pc \<Rightarrow> cons_pc" where
  "after_wait w = (case w of Done b \<Rightarrow> if b then CTake else CIdle | _ \<Rightarrow> CWait w)"

definition wait_pc_of :: "cons_pc \<Rightarrow> wait_pc" where
  "wait_pc_of c = (case c of CWait w \<Rightarrow> w | _ \<Rightarrow> Done True)"

text \<open>The steps with which a call of the queue inside returns true.\<close>

definition enq_succeeds :: "'a enq_pc \<Rightarrow> bool" where
  "enq_succeeds pc = (case pc of EPub tb i v \<Rightarrow> True | ETail nb \<Rightarrow> True | _ \<Rightarrow> False)"

definition deq_succeeds :: "'a deq_pc \<Rightarrow> bool" where
  "deq_succeeds pc = (case pc of DPub fb i v \<Rightarrow> True | _ \<Rightarrow> False)"

definition lift_conc :: "'a conc res option \<Rightarrow> ('a conc \<Rightarrow> 'a bsys res) \<Rightarrow> 'a bsys res option" where
  "lift_conc r f = map_option (\<lambda>x. bindE x f) r"

fun bsys_step :: "'a env \<Rightarrow> 'a bevent \<Rightarrow> 'a bsys \<Rightarrow> 'a bsys res option" where
  "bsys_step env (Enqueue m v) st =
     (if prod st \<noteq> PIdle then None
      else lift_conc (conc_step env (CallEnqueue m v) (squeue st)) (\<lambda>q. Inr (st\<lparr>squeue := q, prod := PEnq\<rparr>)))"
| "bsys_step env EnqueueStep st =
     (if prod st \<noteq> PEnq then None
      else lift_conc (conc_step env StepEnqueue (squeue st)) (\<lambda>q.
        Inr (st\<lparr>squeue := q,
                prod := (if epc q \<noteq> EIdle then PEnq
                         else if enq_succeeds (epc (squeue st)) then PSignal else PIdle)\<rparr>)))"
| "bsys_step env SignalAdd st =
     (if prod st \<noteq> PSignal then None
      else Some (bindE (signal_add 1 (ssema st)) (\<lambda>(s, g).
           Inr (st\<lparr>ssema := s, prod := (if g = SigPost then PPost else PIdle)\<rparr>))))"
| "bsys_step env SignalPost st =
     (if prod st \<noteq> PPost then None else Some (Inr (st\<lparr>ssema := signal_post (ssema st), prod := PIdle\<rparr>)))"
| "bsys_step env StartTry st = (if cons st \<noteq> CIdle then None else Some (Inr (st\<lparr>cons := CWait (TryLoad None)\<rparr>)))"
| "bsys_step env (StartWait t) st =
     (if cons st \<noteq> CIdle then None else Some (Inr (st\<lparr>cons := CWait (TryLoad (Some t))\<rparr>)))"
| "bsys_step env (WaitStep a) st =
     (case cons st of
        CWait w \<Rightarrow> map_option (\<lambda>(s, w'). Inr (st\<lparr>ssema := s, cons := after_wait w'\<rparr>)) (wait_step a (ssema st) w)
      | _ \<Rightarrow> None)"
| "bsys_step env Dequeue st =
     (if cons st \<noteq> CTake then None
      else lift_conc (conc_step env CallDequeue (squeue st)) (\<lambda>q. Inr (st\<lparr>squeue := q, cons := CDeq\<rparr>)))"
| "bsys_step env DequeueStep st =
     (if cons st \<noteq> CDeq then None
      else lift_conc (conc_step env StepDequeue (squeue st)) (\<lambda>q.
        if dpc q \<noteq> DIdle then Inr (st\<lparr>squeue := q\<rparr>)
        else if deq_succeeds (dpc (squeue st)) then Inr (st\<lparr>squeue := q, cons := CIdle\<rparr>)
        else Inl AssertFailed))"

text \<open>Both threads idle on the blocking queue \<open>q\<close>, which holds \<open>vs\<close>.\<close>

definition bsys_init :: "'a bq \<Rightarrow> 'a list \<Rightarrow> 'a bsys" where
  "bsys_init q vs = (case inner q of (env, h, rw) \<Rightarrow>
     \<lparr>squeue = conc_init h rw vs, ssema = sema q, prod = PIdle, cons = CIdle\<rparr>)"

definition bq_env :: "'a bq \<Rightarrow> 'a env" where
  "bq_env q = fst (inner q)"

inductive bsys_reach :: "'a env \<Rightarrow> 'a bsys \<Rightarrow> 'a bsys \<Rightarrow> bool" for env st0 where
  reach_init: "bsys_reach env st0 st0"
| reach_step: "bsys_reach env st0 st \<Longrightarrow> bsys_step env e st = Some (Inr st') \<Longrightarrow> bsys_reach env st0 st'"

subsection \<open>What a step of the queue inside adds to and takes from it\<close>

abbreviation published :: "'a enq_pc \<Rightarrow> nat" where
  "published pc \<equiv> (if ahead pc then 1 else 0)"

lemma enq_start_logs:
  assumes "enq_start m v q = Inr q'"
  shows "in_log q' = in_log q" "out_log q' = out_log q" "dpc q' = dpc q" "\<not> ahead (epc q')" "epc q' \<noteq> EIdle"
    "frontBlock (members q') = frontBlock (members q)" "tailBlock (members q') = tailBlock (members q)"
  using assms by (auto simp: enq_start_def ahead_def Let_def split: if_splits)

lemma enq_step_logs:
  assumes "enq_step env pc q = Inr q'" "pc \<noteq> EIdle"
  shows "out_log q' = out_log q \<and> dpc q' = dpc q \<and> frontBlock (members q') = frontBlock (members q) \<and>
    length (in_log q') + published pc =
      length (in_log q) + (if ahead (epc q') \<or> epc q' = EIdle \<and> enq_succeeds pc then 1 else 0) \<and>
    (tailBlock (members q') = tailBlock (members q) \<or> pc = ETail (tailBlock (members q')))"
  using assms
  by (cases pc) (auto simp: enq_return_def enq_alloc_def ahead_def enq_succeeds_def Let_def
      split: if_splits AllocationMode.splits prod.splits)

lemma deq_start_logs:
  assumes "deq_start q = Inr q'"
  shows "in_log q' = in_log q" "out_log q' = out_log q" "epc q' = epc q" "dpc q' \<noteq> DIdle" "dpc q' \<noteq> DChk fb"
  using assms by (auto simp: deq_start_def Let_def split: if_splits)

lemma deq_step_logs:
  assumes "deq_step pc q = Inr q'" "pc \<noteq> DIdle"
  shows "in_log q' = in_log q \<and> epc q' = epc q \<and>
    length (out_log q') = length (out_log q) + (if dpc q' = DIdle \<and> deq_succeeds pc then 1 else 0) \<and>
    (\<forall>fb. dpc q' = DChk fb \<longrightarrow> pc = DTail fb \<and> members q' = members q) \<and>
    (dpc q' = DIdle \<longrightarrow> \<not> deq_succeeds pc \<longrightarrow> pc = DChk (tailBlock (members q)))"
  using assms
  by (cases pc) (auto simp: deq_return_def deq_succeeds_def Let_def split: if_splits)

subsection \<open>A granted dequeue does not find the queue empty\<close>

text \<open>When the front block is empty and is also the tail block, the only element that can be in the
  queue is the one that the producer has not made reachable yet.\<close>

lemma nothing_but_ahead:
  assumes c: "conc_at env q G bs vss k" and e: "vss ! 0 = []" and k: "k = 0"
  shows "length (in_log q) = length (out_log q) + published (epc q)"
proof -
  note cp = conc_atD(3)[OF c] and len = conc_atD(8)[OF c]
  have z: "vss ! i = []" if "i < length vss" "\<not> (ahead (epc q) \<and> i = 1)" for i
    using cp that e k len unfolding cpart_def by (cases "i = 0") (auto split: if_splits)
  have "length (concat vss) = published (epc q)"
  proof (cases "ahead (epc q)")
    case True
    then have a: "1 < length vss" "length (vss ! 1) = 1" using cp k len unfolding cpart_def by auto
    then obtain xs ys zs where v: "vss = xs # ys # zs" by (cases vss; cases "tl vss") auto
    have "set zs \<subseteq> {[]}"
    proof
      fix w assume "w \<in> set zs"
      then obtain i where "i < length zs" "w = zs ! i" by (auto simp: in_set_conv_nth)
      then show "w \<in> {[]}" using z[of "Suc (Suc i)"] v by simp
    qed
    then have "concat zs = []" by auto
    then show ?thesis using True a e v by simp
  next
    case False
    then have "\<forall>w \<in> set vss. w = []" using z by (auto simp: in_set_conv_nth)
    then show ?thesis using False by simp
  qed
  moreover have "in_log q = out_log q @ concat vss" using c unfolding conc_at_def by blast
  ultimately show ?thesis by simp
qed

lemma granted_not_at_end:
  assumes i: "conc_inv env q" and pc: "dpc q = DTail fb" and s: "deq_step (DTail fb) q = Inr q'" "dpc q' = DChk fb"
    and n: "length (out_log q) + published (epc q) < length (in_log q)"
  shows "frontBlock (members q) \<noteq> tailBlock (members q)"
proof
  assume ft: "frontBlock (members q) = tailBlock (members q)"
  obtain G bs vss k where c: "conc_at env q G bs vss k" using i unfolding conc_inv_def by blast
  have "bs ! 0 = bs ! k" using ft conc_atD(10,11)[OF c] by simp
  then have k: "k = 0" using conc_atD(6,7,9)[OF c] by (auto simp: ring_rep_def nth_eq_iff_index_eq)
  have fb: "fb = bs ! 0" using conc_atD(5)[OF c] pc by simp
  note B = ring_at_blk[OF conc_atD(1)[OF c] conc_atD(6)[OF c]]
  have "get_block (mem q) fb = Inr (patch (epc q) (dpc q) fb (blk G bs 0))"
    unfolding conc_atD(2)[OF c] fb using patched_get[of G "bs ! 0" "blk G bs 0"] B(1) by simp
  then have "front (blk G bs 0) = tail (blk G bs 0)" using s by (auto split: if_splits)
  then have "vss ! 0 = []" using front_eq_tail_iff[OF B(2)] by simp
  from nothing_but_ahead[OF c this k] n show False by simp
qed

text \<open>The block that the producer makes the tail block is not the front block.\<close>

lemma new_tail_apart:
  assumes "conc_inv env q" "epc q = ETail nb"
  shows "nb \<noteq> frontBlock (members q)"
proof -
  obtain G bs vss k where c: "conc_at env q G bs vss k" using assms(1) unfolding conc_inv_def by blast
  have "Suc k < length bs" "nb = bs ! Suc k" using conc_atD(4)[OF c] assms(2) by auto
  then show ?thesis using conc_atD(6,9,10)[OF c] by (auto simp: ring_rep_def nth_eq_iff_index_eq)
qed

lemma front_of_DChk:
  assumes "conc_inv env q" "dpc q = DChk fb"
  shows "fb = frontBlock (members q)"
proof -
  obtain G bs vss k where c: "conc_at env q G bs vss k" using assms(1) unfolding conc_inv_def by blast
  show ?thesis using conc_atD(5,10)[OF c] assms(2) by simp
qed

subsection \<open>The invariant\<close>

definition sig_of :: "prod_pc \<Rightarrow> signal_pc" where
  "sig_of p = (if p = PPost then SigPost else SigIdle)"

definition unsignalled :: "'a bsys \<Rightarrow> nat" where
  "unsignalled st = (if prod st = PSignal \<or> ahead (epc (squeue st)) then 1 else 0)"

definition granted :: "'a bsys \<Rightarrow> nat" where
  "granted st = (if cons st = CTake \<or> cons st = CDeq then 1 else 0)"

text \<open>The elements in the queue are those signalled and not yet granted, the one granted to the
  consumer and not yet taken, and the one the producer has published and not signalled yet. A
  consumer that found the front block empty after it was granted an element is not at the end.\<close>

definition bsys_count :: "'a bsys \<Rightarrow> int \<Rightarrow> bool" where
  "bsys_count st n \<longleftrightarrow> sem_inv (ssema st) (wait_pc_of (cons st)) (sig_of (prod st)) n \<and>
     int (length (in_log (squeue st))) = int (length (out_log (squeue st))) + n + int (unsignalled st) + int (granted st)"

definition bsys_inv :: "'a env \<Rightarrow> 'a bsys \<Rightarrow> bool" where
  "bsys_inv env st \<longleftrightarrow> conc_inv env (squeue st) \<and> (\<exists>n. bsys_count st n) \<and>
     (prod st = PEnq \<longleftrightarrow> epc (squeue st) \<noteq> EIdle) \<and> (cons st = CDeq \<longleftrightarrow> dpc (squeue st) \<noteq> DIdle) \<and>
     (\<forall>fb. dpc (squeue st) = DChk fb \<longrightarrow> frontBlock (members (squeue st)) \<noteq> tailBlock (members (squeue st)))"

lemmas bsys_defs = bsys_count_def sig_of_def unsignalled_def granted_def wait_pc_of_def

lemma bsys_inv_init:
  assumes "bq_rep q vs"
  shows "bsys_inv (bq_env q) (bsys_init q vs)" "env_ok (bq_env q)"
proof -
  obtain env h rw bs where i: "inner q = (env, h, rw)" "env_ok env" "queue_at env h rw bs vs"
    and s: "sema q = \<lparr>m_count = int (length vs), m_sema = 0\<rparr>"
    using assms by (auto simp: bq_rep_def rwq_rep_def)
  have "bsys_count (bsys_init q vs) (int (length vs))"
    by (simp add: bsys_defs bsys_init_def i(1) s conc_init_def posts_def ahead_def)
  moreover have "conc_inv env (conc_init h rw vs)" by (rule conc_inv_init[OF i(3)])
  ultimately show "bsys_inv (bq_env q) (bsys_init q vs)"
    by (auto simp: bsys_inv_def bq_env_def bsys_init_def i(1) conc_init_def)
  show "env_ok (bq_env q)" using i by (simp add: bq_env_def)
qed

subsection \<open>Every step keeps the invariant\<close>

lemma inv_Enqueue:
  assumes env: "env_ok env" and i: "bsys_inv env st" and p: "prod st = PIdle"
  shows "\<exists>st'. bsys_step env (Enqueue m v) st = Some (Inr st') \<and> bsys_inv env st'"
proof -
  from i obtain n where I: "conc_inv env (squeue st)" "bsys_count st n" "epc (squeue st) = EIdle"
    "cons st = CDeq \<longleftrightarrow> dpc (squeue st) \<noteq> DIdle"
    "\<And>fb. dpc (squeue st) = DChk fb \<Longrightarrow> frontBlock (members (squeue st)) \<noteq> tailBlock (members (squeue st))"
    using p unfolding bsys_inv_def by auto
  have s: "conc_step env (CallEnqueue m v) (squeue st) = Some (enq_start m v (squeue st))" by (simp add: I(3))
  obtain q where q: "enq_start m v (squeue st) = Inr q" "conc_inv env q" using conc_step_inv[OF env I(1) s] by auto
  note L = enq_start_logs[OF q(1)]
  have "bsys_count (st\<lparr>squeue := q, prod := PEnq\<rparr>) n" using I(2,3) p L by (simp add: bsys_defs ahead_def)
  then have "bsys_inv env (st\<lparr>squeue := q, prod := PEnq\<rparr>)" using I(4,5) q(2) L by (auto simp: bsys_inv_def)
  then show ?thesis using s q(1) p by (simp add: lift_conc_def)
qed

lemma inv_EnqueueStep:
  assumes env: "env_ok env" and i: "bsys_inv env st" and p: "prod st = PEnq"
  shows "\<exists>st'. bsys_step env EnqueueStep st = Some (Inr st') \<and> bsys_inv env st'"
proof -
  let ?q = "squeue st"
  from i obtain n where I: "conc_inv env ?q" "bsys_count st n" "epc ?q \<noteq> EIdle"
    "cons st = CDeq \<longleftrightarrow> dpc ?q \<noteq> DIdle"
    "\<And>fb. dpc ?q = DChk fb \<Longrightarrow> frontBlock (members ?q) \<noteq> tailBlock (members ?q)"
    using p unfolding bsys_inv_def by auto
  have s: "conc_step env StepEnqueue ?q = Some (enq_step env (epc ?q) ?q)" using I(3) by (auto split: enq_pc.splits)
  obtain q where q: "enq_step env (epc ?q) ?q = Inr q" "conc_inv env q" using conc_step_inv[OF env I(1) s] by auto
  let ?p = "if epc q \<noteq> EIdle then PEnq else if enq_succeeds (epc ?q) then PSignal else PIdle"
  note L = enq_step_logs[OF q(1) I(3)]
  have "bsys_count (st\<lparr>squeue := q, prod := ?p\<rparr>) n"
    using I(2) L p by (auto simp: bsys_defs ahead_def split: if_splits)
  moreover have "frontBlock (members q) \<noteq> tailBlock (members q)" if "dpc q = DChk fb" for fb
    using I(5)[of fb] new_tail_apart[OF I(1)] L that by metis
  ultimately have "bsys_inv env (st\<lparr>squeue := q, prod := ?p\<rparr>)" using I(4) q(2) L by (auto simp: bsys_inv_def)
  then show ?thesis using s q(1) p by (simp add: lift_conc_def)
qed

lemma inv_SignalAdd:
  assumes i: "bsys_inv env st" and p: "prod st = PSignal"
  shows "\<exists>st'. bsys_step env SignalAdd st = Some (Inr st') \<and> bsys_inv env st'"
proof -
  from i obtain n where I: "conc_inv env (squeue st)" "bsys_count st n" "epc (squeue st) = EIdle"
    using p unfolding bsys_inv_def by auto
  have "sem_inv (ssema st) (wait_pc_of (cons st)) SigIdle n" using I(2) p by (simp add: bsys_count_def sig_of_def)
  from signal_add_inv[OF this, of 1] obtain s g
    where s: "signal_add 1 (ssema st) = Inr (s, g)" "sem_inv s (wait_pc_of (cons st)) g (n + 1)" by auto
  let ?st = "st\<lparr>ssema := s, prod := (if g = SigPost then PPost else PIdle)\<rparr>"
  have "bsys_count ?st (n + 1)"
    using I(2,3) s(2) p by (cases g) (simp_all add: bsys_count_def sig_of_def unsignalled_def granted_def ahead_def)
  then have "bsys_inv env ?st" using i p I(3) unfolding bsys_inv_def by auto
  then show ?thesis using s(1) p by simp
qed

lemma inv_SignalPost:
  assumes i: "bsys_inv env st" and p: "prod st = PPost"
  shows "\<exists>st'. bsys_step env SignalPost st = Some (Inr st') \<and> bsys_inv env st'"
proof -
  from i obtain n where I: "bsys_count st n" "epc (squeue st) = EIdle" using p unfolding bsys_inv_def by auto
  have "bsys_count (st\<lparr>ssema := signal_post (ssema st), prod := PIdle\<rparr>) n"
    using I p signal_post_inv by (auto simp: bsys_count_def sig_of_def unsignalled_def granted_def)
  then show ?thesis using i p I(2) unfolding bsys_inv_def by auto
qed

lemma inv_start:
  assumes i: "bsys_inv env st" and c: "cons st = CIdle"
  shows "bsys_inv env (st\<lparr>cons := CWait (TryLoad t)\<rparr>)"
  using i c by (auto simp: bsys_inv_def bsys_defs)

lemma inv_WaitStep:
  assumes i: "bsys_inv env st" and c: "cons st = CWait w" and s: "wait_step a (ssema st) w = Some (s, w')"
  shows "bsys_inv env (st\<lparr>ssema := s, cons := after_wait w'\<rparr>)"
proof -
  from i obtain n where I: "bsys_count st n" "dpc (squeue st) = DIdle" using c unfolding bsys_inv_def by auto
  have "sem_inv (ssema st) w (sig_of (prod st)) n" using I(1) c by (simp add: bsys_count_def wait_pc_of_def)
  then have "sem_inv s w' (sig_of (prod st)) (n - grants w')" by (rule wait_step_inv[OF _ s])
  then have "bsys_count (st\<lparr>ssema := s, cons := after_wait w'\<rparr>) (n - grants w')"
    using I c by (cases w') (auto simp: bsys_count_def after_wait_def wait_pc_of_def grants_def granted_def unsignalled_def)
  then show ?thesis using i c I(2) unfolding bsys_inv_def by (cases w') (auto simp: after_wait_def)
qed

lemma inv_Dequeue:
  assumes env: "env_ok env" and i: "bsys_inv env st" and p: "cons st = CTake"
  shows "\<exists>st'. bsys_step env Dequeue st = Some (Inr st') \<and> bsys_inv env st'"
proof -
  from i obtain n where I: "conc_inv env (squeue st)" "bsys_count st n" "dpc (squeue st) = DIdle"
    "prod st = PEnq \<longleftrightarrow> epc (squeue st) \<noteq> EIdle" using p unfolding bsys_inv_def by auto
  have s: "conc_step env CallDequeue (squeue st) = Some (deq_start (squeue st))" by (simp add: I(3))
  obtain q where q: "deq_start (squeue st) = Inr q" "conc_inv env q" using conc_step_inv[OF env I(1) s] by auto
  note L = deq_start_logs[OF q(1)]
  have "bsys_count (st\<lparr>squeue := q, cons := CDeq\<rparr>) n" using I(2) p L by (simp add: bsys_defs)
  then have "bsys_inv env (st\<lparr>squeue := q, cons := CDeq\<rparr>)" using I(4) q(2) L by (auto simp: bsys_inv_def)
  then show ?thesis using s q(1) p by (simp add: lift_conc_def)
qed

text \<open>The last step of a granted dequeue is the one that takes an element.\<close>

lemma inv_DequeueStep:
  assumes env: "env_ok env" and i: "bsys_inv env st" and p: "cons st = CDeq"
  shows "\<exists>st'. bsys_step env DequeueStep st = Some (Inr st') \<and> bsys_inv env st'"
proof -
  let ?q = "squeue st"
  from i obtain n where I: "conc_inv env ?q" "bsys_count st n" "dpc ?q \<noteq> DIdle" "prod st = PEnq \<longleftrightarrow> epc ?q \<noteq> EIdle"
    "\<And>fb. dpc ?q = DChk fb \<Longrightarrow> frontBlock (members ?q) \<noteq> tailBlock (members ?q)"
    using p unfolding bsys_inv_def by auto
  have s: "conc_step env StepDequeue ?q = Some (deq_step (dpc ?q) ?q)" using I(3) by (auto split: deq_pc.splits)
  obtain q where q: "deq_step (dpc ?q) ?q = Inr q" "conc_inv env q" using conc_step_inv[OF env I(1) s] by auto
  note L = deq_step_logs[OF q(1) I(3)]
  have d: "deq_succeeds (dpc ?q)" if "dpc q = DIdle"
    using L that I(5) front_of_DChk[OF I(1)] by metis
  have "0 \<le> n" using I(2) by (auto simp: bsys_count_def intro: sem_inv_nonneg)
  then have "length (out_log ?q) + published (epc ?q) < length (in_log ?q)"
    using I(2) p by (auto simp: bsys_count_def granted_def unsignalled_def split: if_splits)
  then have f: "frontBlock (members q) \<noteq> tailBlock (members q)" if "dpc q = DChk fb" for fb
    using granted_not_at_end[OF I(1), of fb q] L that q(1) by metis
  let ?st = "st\<lparr>squeue := q, cons := (if dpc q \<noteq> DIdle then CDeq else CIdle)\<rparr>"
  have "bsys_count ?st n" using I(2) p L d by (auto simp: bsys_defs split: if_splits)
  then have "bsys_inv env ?st" using I(4) q(2) L f by (auto simp: bsys_inv_def)
  moreover have "st\<lparr>squeue := q\<rparr> = st\<lparr>squeue := q, cons := CDeq\<rparr>" using p by simp
  ultimately show ?thesis using s q(1) p d by (cases "dpc q = DIdle") (simp_all add: lift_conc_def)
qed

lemma bsys_step_inv:
  assumes env: "env_ok env" and i: "bsys_inv env st" and s: "bsys_step env e st = Some r"
  shows "\<exists>st'. r = Inr st' \<and> bsys_inv env st'"
proof (cases e)
  case (Enqueue m v)
  then have p: "prod st = PIdle" using s by (auto split: if_splits)
  then show ?thesis using s inv_Enqueue[OF env i p, of m v] Enqueue by auto
next
  case EnqueueStep
  then have p: "prod st = PEnq" using s by (auto split: if_splits)
  then show ?thesis using s inv_EnqueueStep[OF env i p] EnqueueStep by auto
next
  case SignalAdd
  then have p: "prod st = PSignal" using s by (auto split: if_splits)
  then show ?thesis using s inv_SignalAdd[OF i p] SignalAdd by auto
next
  case SignalPost
  then have p: "prod st = PPost" using s by (auto split: if_splits)
  then show ?thesis using s inv_SignalPost[OF i p] SignalPost by auto
next
  case Dequeue
  then have p: "cons st = CTake" using s by (auto split: if_splits)
  then show ?thesis using s inv_Dequeue[OF env i p] Dequeue by auto
next
  case DequeueStep
  then have p: "cons st = CDeq" using s by (auto split: if_splits)
  then show ?thesis using s inv_DequeueStep[OF env i p] DequeueStep by auto
next
  case (WaitStep a)
  then show ?thesis using s inv_WaitStep[OF i] by (auto split: cons_pc.splits)
qed (use s inv_start[OF i] in \<open>auto split: if_splits\<close>)

lemma bsys_reach_inv: "bsys_reach env st0 st \<Longrightarrow> env_ok env \<Longrightarrow> bsys_inv env st0 \<Longrightarrow> bsys_inv env st"
  by (induction rule: bsys_reach.induct) (use bsys_step_inv in fastforce)+

lemma bsys_reachable:
  assumes "bq_rep q vs" "bsys_reach (bq_env q) (bsys_init q vs) st"
  shows "bsys_inv (bq_env q) st" "env_ok (bq_env q)"
  using bsys_reach_inv[OF assms(2) bsys_inv_init(2,1)[OF assms(1)]] bsys_inv_init(2)[OF assms(1)] by auto

subsection \<open>Progress of the producer\<close>

text \<open>An upper bound on the steps of its own that the producer still takes before its call returns.\<close>

definition prod_rank :: "'a bsys \<Rightarrow> nat" where
  "prod_rank st = (case prod st of PIdle \<Rightarrow> 0 | PPost \<Rightarrow> 1 | PSignal \<Rightarrow> 2 | PEnq \<Rightarrow> 2 + erank (epc (squeue st)))"

definition prod_event :: "'a bsys \<Rightarrow> 'a bevent" where
  "prod_event st = (case prod st of PPost \<Rightarrow> SignalPost | PSignal \<Rightarrow> SignalAdd | _ \<Rightarrow> EnqueueStep)"

lemma producer_advances:
  assumes env: "env_ok env" and i: "bsys_inv env st" and p: "prod st \<noteq> PIdle"
  shows "\<exists>st'. bsys_step env (prod_event st) st = Some (Inr st') \<and> prod_rank st' < prod_rank st \<and> cons st' = cons st"
proof (cases "prod st")
  case PEnq
  let ?q = "squeue st"
  have I: "conc_inv env ?q" "epc ?q \<noteq> EIdle" using i PEnq unfolding bsys_inv_def by auto
  have s: "conc_step env StepEnqueue ?q = Some (enq_step env (epc ?q) ?q)" using I(2) by (auto split: enq_pc.splits)
  obtain q where q: "enq_step env (epc ?q) ?q = Inr q" using conc_step_inv[OF env I(1) s] by auto
  have "erank (epc q) < erank (epc ?q)" using enq_step_rank[OF q I(2)] by blast
  then show ?thesis using s q PEnq by (simp add: prod_event_def prod_rank_def lift_conc_def)
next
  case PSignal
  from inv_SignalAdd[OF i this] obtain st' where "bsys_step env SignalAdd st = Some (Inr st')" by blast
  moreover from this have "prod_rank st' < 2 \<and> cons st' = cons st"
    using PSignal by (auto simp: prod_rank_def split: if_splits sum.splits)
  ultimately show ?thesis using PSignal by (auto simp: prod_event_def prod_rank_def[of st] simp del: bsys_step.simps)
qed (use p in \<open>simp_all add: prod_event_def prod_rank_def\<close>)

subsection \<open>Runs\<close>

primrec bsys_run :: "'a env \<Rightarrow> 'a bevent list \<Rightarrow> 'a bsys \<Rightarrow> 'a bsys res option" where
  "bsys_run env [] st = Some (Inr st)"
| "bsys_run env (e # es) st = (case bsys_step env e st of Some (Inr st') \<Rightarrow> bsys_run env es st' | r \<Rightarrow> r)"

lemma bsys_run_reach:
  "bsys_run env es st = Some (Inr st') \<Longrightarrow> bsys_reach env st0 st \<Longrightarrow> bsys_reach env st0 st'"
proof (induction es arbitrary: st)
  case (Cons e es)
  then show ?case using reach_step[of env st0 st e] by (auto split: option.splits sum.splits)
qed simp

text \<open>A waiter that finds nothing spins its ten thousand rounds and then blocks.\<close>

lemma spin_reach:
  assumes "bsys_reach env st0 (st\<lparr>cons := CWait (Spin (int n) t)\<rparr>)" "m_count (ssema st) = 0"
  shows "bsys_reach env st0 (st\<lparr>cons := CWait (SlowDec t)\<rparr>)"
  using assms(1)
proof (induction n)
  case 0
  then show ?case by (rule reach_step[of _ _ _ "WaitStep Granted"]) (simp add: after_wait_def)
next
  case (Suc n)
  have "bsys_reach env st0 (st\<lparr>cons := CWait (Spin (int n) t)\<rparr>)"
    by (rule reach_step[OF Suc.prems, of "WaitStep Granted"]) (simp add: after_wait_def assms(2))
  then show ?case by (rule Suc.IH)
qed

lemma wait_blocks:
  assumes "bsys_reach env st0 st" "cons st = CIdle" "m_count (ssema st) = 0"
  shows "bsys_reach env st0 (st\<lparr>ssema := (ssema st)\<lparr>m_count := - 1\<rparr>, cons := CWait (KWait t)\<rparr>)"
proof -
  have "bsys_reach env st0 (st\<lparr>cons := CWait (TryLoad (Some t))\<rparr>)"
    by (rule reach_step[OF assms(1), of "StartWait t"]) (simp add: assms(2))
  then have "bsys_reach env st0 (st\<lparr>cons := CWait (Spin (int 10000) t)\<rparr>)"
    by (rule reach_step[of _ _ _ "WaitStep Granted"]) (simp add: assms(3) after_wait_def)
  then have "bsys_reach env st0 (st\<lparr>cons := CWait (SlowDec t)\<rparr>)" by (rule spin_reach) (rule assms(3))
  then show ?thesis
    by (rule reach_step[of _ _ _ "WaitStep Granted"]) (simp add: assms(3) after_wait_def Let_def)
qed

lemma demo_bq_env [simp]: "bq_env demo_bq = demo_env"
  by (simp add: bq_env_def demo_bq_def)

definition demo_idle :: "nat bsys" where
  "demo_idle = \<lparr>squeue = conc_init demo_heap demo_rwq [], ssema = \<lparr>m_count = 0, m_sema = 0\<rparr>, prod = PIdle, cons = CIdle\<rparr>"

lemma demo_idle_init: "bsys_init demo_bq [] = demo_idle"
  by (simp add: bsys_init_def demo_bq_def demo_idle_def)

lemmas demo_run_simps = conc_init_def enq_start_def deq_start_def enq_return_def deq_return_def arena_heap_def
  demo_rwq_def arena_block_def get_block_def advance_def construct_at_def move_out_def Let_def lift_conc_def
  enq_succeeds_def deq_succeeds_def signal_add_def signal_post_def Semaphore_signal_eq after_wait_def

lemma four_empty_slots: "replicate 4 None = [None, None, None, None]"
  by (simp add: numeral_eq_Suc)

text \<open>The consumer is blocked in the kernel, the producer has put in an element and signalled it.\<close>

lemma demo_woken:
  "\<exists>st. bsys_reach (bq_env demo_bq) (bsys_init demo_bq []) st \<and> cons st = CWait (KWait (- 1)) \<and> prod st = PIdle \<and>
     in_log (squeue st) = [7] \<and> out_log (squeue st) = []"
proof -
  let ?s = "demo_idle\<lparr>ssema := \<lparr>m_count = - 1, m_sema = 0\<rparr>, cons := CWait (KWait (- 1))\<rparr>"
  have s: "bsys_reach demo_env demo_idle ?s"
    using wait_blocks[OF reach_init, of demo_idle _ "- 1"] by (simp add: demo_idle_def)
  have "\<exists>st. bsys_run demo_env [Enqueue CannotAlloc 7, EnqueueStep, EnqueueStep, SignalAdd, SignalPost] ?s = Some (Inr st) \<and>
      cons st = CWait (KWait (- 1)) \<and> prod st = PIdle \<and> in_log (squeue st) = [7] \<and> out_log (squeue st) = []"
    by (simp add: demo_idle_def demo_run_simps four_empty_slots)
  then obtain st where "bsys_run demo_env [Enqueue CannotAlloc 7, EnqueueStep, EnqueueStep, SignalAdd, SignalPost] ?s = Some (Inr st)"
    "cons st = CWait (KWait (- 1)) \<and> prod st = PIdle \<and> in_log (squeue st) = [7] \<and> out_log (squeue st) = []" by blast
  with bsys_run_reach[OF this(1) s] show ?thesis unfolding demo_bq_env demo_idle_init by blast
qed

text \<open>The consumer has been granted the element and is inside the dequeue, while the producer is
  about to publish a second one.\<close>

lemma demo_both_inside:
  "\<exists>st. bsys_reach (bq_env demo_bq) (bsys_init demo_bq []) st \<and> cons st = CDeq \<and> prod st = PEnq \<and>
     in_log (squeue st) = [7] \<and> out_log (squeue st) = []"
proof -
  have "\<exists>st. bsys_run demo_env [Enqueue CannotAlloc 7, EnqueueStep, EnqueueStep, SignalAdd, StartTry, WaitStep Granted,
        WaitStep Granted, Enqueue CannotAlloc 8, EnqueueStep, Dequeue, DequeueStep] demo_idle = Some (Inr st) \<and>
      cons st = CDeq \<and> prod st = PEnq \<and> in_log (squeue st) = [7] \<and> out_log (squeue st) = []"
    by (simp add: demo_idle_def demo_run_simps four_empty_slots)
  then obtain st where "bsys_run demo_env [Enqueue CannotAlloc 7, EnqueueStep, EnqueueStep, SignalAdd, StartTry, WaitStep Granted,
        WaitStep Granted, Enqueue CannotAlloc 8, EnqueueStep, Dequeue, DequeueStep] demo_idle = Some (Inr st)"
    "cons st = CDeq \<and> prod st = PEnq \<and> in_log (squeue st) = [7] \<and> out_log (squeue st) = []" by blast
  with bsys_run_reach[OF this(1) reach_init] show ?thesis unfolding demo_bq_env demo_idle_init by blast
qed

lemma demo_trying:
  "bsys_reach (bq_env demo_bq) (bsys_init demo_bq []) (demo_idle\<lparr>cons := CWait (TryLoad None)\<rparr>)"
  unfolding demo_idle_init by (rule reach_step[OF reach_init, where e = StartTry]) (simp add: demo_idle_def)

subsection \<open>Theorems\<close>

text \<open>C4: in every interleaving of a producer and a consumer on a \<^verbatim>\<open>BlockingReaderWriterQueue\<close>, down to
  the single accesses to the queue inside and to the semaphore, no step fails: the assertions of the
  queue, \<^verbatim>\<open>oldCount >= -1\<close> of \<^verbatim>\<open>signal\<close> and \<^verbatim>\<open>success\<close> after a granted wait hold. The consumer has received
  a prefix of what the producer put in.\<close>

theorem blocking_queue_safe:
  assumes "bq_rep q vs" and "bsys_reach (bq_env q) (bsys_init q vs) st"
  shows "bsys_step (bq_env q) e st \<noteq> Some (Inl err) \<and>
    (\<exists>waiting. in_log (squeue st) = out_log (squeue st) @ waiting)"
proof -
  note i = bsys_reachable[OF assms]
  have "\<exists>waiting. in_log (squeue st) = out_log (squeue st) @ waiting"
    using i(1) by (auto simp: bsys_inv_def conc_inv_def conc_at_def)
  moreover have "bsys_step (bq_env q) e st \<noteq> Some (Inl err)" using bsys_step_inv[OF i(2,1), of e] by force
  ultimately show ?thesis by blast
qed

theorem blocking_queue_safe_witness:
  "\<exists>st. cons st = CDeq \<and> prod st = PEnq \<and> in_log (squeue st) = [7] \<and>
    bsys_step demo_env DequeueStep st \<noteq> Some (Inl AssertFailed) \<and>
    (\<exists>waiting. in_log (squeue st) = out_log (squeue st) @ waiting)"
proof -
  obtain st where st: "bsys_reach (bq_env demo_bq) (bsys_init demo_bq []) st" "cons st = CDeq" "prod st = PEnq"
    "in_log (squeue st) = [7]" using demo_both_inside by blast
  from blocking_queue_safe[OF demo_bq_rep st(1), of DequeueStep AssertFailed] st(2-4) show ?thesis
    unfolding demo_bq_env by blast
qed

text \<open>No wake-up is lost. When the consumer is blocked in the kernel, the producer is idle and
  an element waits, the kernel semaphore is up and the consumer proceeds to take the element.\<close>

theorem blocking_queue_wakes:
  assumes "bq_rep q vs" and "bsys_reach (bq_env q) (bsys_init q vs) st" and "cons st = CWait (KWait t)"
    and "prod st = PIdle" and "in_log (squeue st) \<noteq> out_log (squeue st)"
  shows "\<exists>st'. bsys_step (bq_env q) (WaitStep Granted) st = Some (Inr st') \<and> cons st' = CTake"
proof -
  note i = bsys_reachable[OF assms(1,2)]
  then obtain n where n: "bsys_count st n" "epc (squeue st) = EIdle" using assms(4) unfolding bsys_inv_def by auto
  obtain ws where w: "in_log (squeue st) = out_log (squeue st) @ ws"
    using i(1) by (auto simp: bsys_inv_def conc_inv_def conc_at_def)
  have v: "sem_inv (ssema st) (KWait t) SigIdle n" "int (length ws) = n"
    using n w unfolding bsys_defs assms(3,4) by (simp_all add: ahead_def)
  then have "0 < n" using assms(5) w by auto
  from no_lost_wakeup[OF v(1) this] show ?thesis using assms(3) by (simp add: after_wait_def)
qed

theorem blocking_queue_wakes_witness:
  "\<exists>st. bsys_reach demo_env demo_idle st \<and> cons st = CWait (KWait (- 1)) \<and> in_log (squeue st) = [7] \<and>
    (\<exists>st'. bsys_step demo_env (WaitStep Granted) st = Some (Inr st') \<and> cons st' = CTake)"
proof -
  obtain st where st: "bsys_reach (bq_env demo_bq) (bsys_init demo_bq []) st" "cons st = CWait (KWait (- 1))" "prod st = PIdle"
    "in_log (squeue st) = [7]" "out_log (squeue st) = []" using demo_woken by blast
  with blocking_queue_wakes[OF demo_bq_rep st(1-3)] show ?thesis by (auto simp: demo_idle_init)
qed

text \<open>C32: a wait gives up only when there is nothing to deliver: at the step with which a
  \<^verbatim>\<open>try_dequeue\<close> or a timed wait returns false, every element put in has been received, except
  possibly one that the producer has not signalled yet.\<close>

theorem blocking_queue_gives_up_only_empty:
  assumes "bq_rep q vs" and "bsys_reach (bq_env q) (bsys_init q vs) st" and "cons st = CWait w"
    and "bsys_step (bq_env q) (WaitStep a) st = Some (Inr st')" and "cons st' = CIdle"
  shows "length (in_log (squeue st)) =
    length (out_log (squeue st)) + (if prod st = PSignal \<or> ahead (epc (squeue st)) then 1 else 0)"
proof -
  obtain n where "bsys_count st n" using bsys_reachable(1)[OF assms(1,2)] unfolding bsys_inv_def by auto
  then have v: "sem_inv (ssema st) w (sig_of (prod st)) n"
    "int (length (in_log (squeue st))) = int (length (out_log (squeue st))) + n + int (unsignalled st)"
    unfolding bsys_count_def wait_pc_of_def granted_def assms(3) by simp_all
  obtain s' w' where w: "wait_step a (ssema st) w = Some (s', w')" "st' = st\<lparr>ssema := s', cons := after_wait w'\<rparr>"
    using assms(3,4) by auto
  then have "w' = Done False" using assms(5) by (cases w') (auto simp: after_wait_def split: if_splits)
  with w(1) have "n = 0" using wait_false[OF v(1)] by simp
  then show ?thesis using v(2) by (simp add: unsignalled_def split: if_splits)
qed

theorem blocking_queue_gives_up_only_empty_witness:
  "length (in_log (squeue (demo_idle\<lparr>cons := CWait (TryLoad None)\<rparr>))) =
   length (out_log (squeue (demo_idle\<lparr>cons := CWait (TryLoad None)\<rparr>))) +
     (if prod (demo_idle\<lparr>cons := CWait (TryLoad None)\<rparr>) = PSignal \<or>
         ahead (epc (squeue (demo_idle\<lparr>cons := CWait (TryLoad None)\<rparr>))) then 1 else 0)"
  by (rule blocking_queue_gives_up_only_empty[OF demo_bq_rep demo_trying, of "TryLoad None" Granted demo_idle])
    (simp_all add: demo_idle_def after_wait_def)

text \<open>C17: an enqueue with its signal is wait-free: whatever the consumer does, the producer can take
  its next step, and its call returns after at most eight of them.\<close>

theorem blocking_enqueue_wait_free:
  assumes "bq_rep q vs" and "bsys_reach (bq_env q) (bsys_init q vs) st" and "prod st \<noteq> PIdle"
  shows "(\<exists>st'. bsys_step (bq_env q) (prod_event st) st = Some (Inr st') \<and> prod_rank st' < prod_rank st \<and>
      cons st' = cons st) \<and> prod_rank st \<le> 8"
proof -
  have "erank (epc (squeue st)) \<le> 6" by (cases "epc (squeue st)") simp_all
  then have "prod_rank st \<le> 8" by (cases "prod st") (simp_all add: prod_rank_def)
  then show ?thesis using producer_advances[OF bsys_reachable(2,1)[OF assms(1,2)] assms(3)] by blast
qed

theorem blocking_enqueue_wait_free_witness:
  "\<exists>st st'. cons st = CDeq \<and> prod st = PEnq \<and> bsys_step demo_env EnqueueStep st = Some (Inr st') \<and>
    prod_rank st' < prod_rank st"
proof -
  obtain st where st: "bsys_reach (bq_env demo_bq) (bsys_init demo_bq []) st" "cons st = CDeq" "prod st = PEnq"
    using demo_both_inside by blast
  from blocking_enqueue_wait_free[OF demo_bq_rep st(1)] st(2,3) show ?thesis
    by (auto simp: prod_event_def simp del: bsys_step.simps)
qed

text \<open>C16: whenever both threads are between calls, queue and semaphore together are again a
  well-formed blocking queue, which holds exactly what was put in and not yet received.\<close>

theorem blocking_queue_quiescent:
  assumes "bq_rep q vs" and "bsys_reach (bq_env q) (bsys_init q vs) st" and "prod st = PIdle" and "cons st = CIdle"
  shows "\<exists>waiting. bq_rep \<lparr>inner = (bq_env q, mem (squeue st), members (squeue st)), sema = ssema st\<rparr> waiting \<and>
    in_log (squeue st) = out_log (squeue st) @ waiting"
proof -
  note i = bsys_reachable[OF assms(1,2)]
  from i(1) obtain n G bs vss k where I: "conc_at (bq_env q) (squeue st) G bs vss k" "bsys_count st n"
    "epc (squeue st) = EIdle" "dpc (squeue st) = DIdle"
    using assms(3,4) unfolding bsys_inv_def conc_inv_def by auto
  have l: "in_log (squeue st) = out_log (squeue st) @ concat vss" using I(1) unfolding conc_at_def by blast
  have "queue_at (bq_env q) (mem (squeue st)) (members (squeue st)) bs (concat vss)" by (rule conc_quiet[OF I(1,3,4)])
  moreover have "ssema st = \<lparr>m_count = int (length (concat vss)), m_sema = 0\<rparr>"
    using I(2,3) l assms(3,4) by (cases "ssema st") (simp add: bsys_defs posts_def ahead_def)
  ultimately show ?thesis using l i(2) by (auto simp: bq_rep_def rwq_rep_def)
qed

theorem blocking_queue_quiescent_witness:
  "\<exists>waiting. bq_rep \<lparr>inner = (demo_env, mem (squeue demo_idle), members (squeue demo_idle)), sema = ssema demo_idle\<rparr> waiting \<and>
    in_log (squeue demo_idle) = out_log (squeue demo_idle) @ waiting"
  using blocking_queue_quiescent[OF demo_bq_rep reach_init, unfolded demo_idle_init] by (simp add: demo_idle_def)

end
