(* ===== verification/Blocking_Tso.thy ===== *)
theory Blocking_Tso
  imports Rwq_Tso_Queue Blocking_Conc
begin

text \<open>
  The \<^verbatim>\<open>BlockingReaderWriterQueue\<close> of \<open>Blocking_Conc\<close> on the machine of \<open>Rwq_Tso\<close>. The queue inside is the one whose
  stores are buffered. \<^verbatim>\<open>fetch_add\<close> of \<^verbatim>\<open>weak_atomic\<close> is a locked instruction on x86: it is taken
  with the thread's own buffer empty and acts on the memory, so the count of the semaphore is never buffered.
\<close>

subsection \<open>The composed system\<close>

record 'a tbsys =
  tqueue :: "'a tso"
  tsema :: lsem
  tprod :: prod_pc
  tcons :: cons_pc

fun locked :: "wait_pc \<Rightarrow> bool" where
  "locked TryDec = True" | "locked SpinDec = True" | "locked (SlowDec t) = True" | "locked Readd = True"
| "locked Redec = True" | "locked _ = False"

datatype 'a tbevent = Act "'a bevent" | FlushProducer | FlushConsumer

definition lift_tso :: "'a tso res option \<Rightarrow> ('a tso \<Rightarrow> 'a tbsys res) \<Rightarrow> 'a tbsys res option" where
  "lift_tso r f = map_option (\<lambda>x. bindE x f) r"

fun tb_act :: "'a env \<Rightarrow> 'a bevent \<Rightarrow> 'a tbsys \<Rightarrow> 'a tbsys res option" where
  "tb_act env (Enqueue m v) st =
     (if tprod st \<noteq> PIdle then None
      else lift_tso (tso_step env (CallEnq m v) (tqueue st)) (\<lambda>q. Inr (st\<lparr>tqueue := q, tprod := PEnq\<rparr>)))"
| "tb_act env EnqueueStep st =
     (if tprod st \<noteq> PEnq then None
      else lift_tso (tso_step env StepEnq (tqueue st)) (\<lambda>q.
        Inr (st\<lparr>tqueue := q,
                tprod := (if epc (main q) \<noteq> EIdle then PEnq
                          else if enq_succeeds (epc (main (tqueue st))) then PSignal else PIdle)\<rparr>)))"
| "tb_act env SignalAdd st =
     (if tprod st \<noteq> PSignal \<or> ebuf (tqueue st) \<noteq> [] then None
      else Some (bindE (signal_add 1 (tsema st)) (\<lambda>(s, g).
           Inr (st\<lparr>tsema := s, tprod := (if g = SigPost then PPost else PIdle)\<rparr>))))"
| "tb_act env SignalPost st =
     (if tprod st \<noteq> PPost then None else Some (Inr (st\<lparr>tsema := signal_post (tsema st), tprod := PIdle\<rparr>)))"
| "tb_act env StartTry st = (if tcons st \<noteq> CIdle then None else Some (Inr (st\<lparr>tcons := CWait (TryLoad None)\<rparr>)))"
| "tb_act env (StartWait t) st =
     (if tcons st \<noteq> CIdle then None else Some (Inr (st\<lparr>tcons := CWait (TryLoad (Some t))\<rparr>)))"
| "tb_act env (WaitStep a) st =
     (case tcons st of
        CWait w \<Rightarrow> if locked w \<and> dbuf (tqueue st) \<noteq> [] then None
                   else map_option (\<lambda>(s, w'). Inr (st\<lparr>tsema := s, tcons := after_wait w'\<rparr>)) (wait_step a (tsema st) w)
      | _ \<Rightarrow> None)"
| "tb_act env Dequeue st =
     (if tcons st \<noteq> CTake then None
      else lift_tso (tso_step env CallDeq (tqueue st)) (\<lambda>q. Inr (st\<lparr>tqueue := q, tcons := CDeq\<rparr>)))"
| "tb_act env DequeueStep st =
     (if tcons st \<noteq> CDeq then None
      else lift_tso (tso_step env StepDeq (tqueue st)) (\<lambda>q.
        if dpc (main q) \<noteq> DIdle then Inr (st\<lparr>tqueue := q\<rparr>)
        else if deq_succeeds (dpc (main (tqueue st))) then Inr (st\<lparr>tqueue := q, tcons := CIdle\<rparr>)
        else Inl AssertFailed))"

fun tb_step :: "'a env \<Rightarrow> 'a tbevent \<Rightarrow> 'a tbsys \<Rightarrow> 'a tbsys res option" where
  "tb_step env (Act e) st = tb_act env e st"
| "tb_step env FlushProducer st = lift_tso (tso_step env FlushEnq (tqueue st)) (\<lambda>q. Inr (st\<lparr>tqueue := q\<rparr>))"
| "tb_step env FlushConsumer st = lift_tso (tso_step env FlushDeq (tqueue st)) (\<lambda>q. Inr (st\<lparr>tqueue := q\<rparr>))"

definition tb_init :: "'a bq \<Rightarrow> 'a list \<Rightarrow> 'a tbsys" where
  "tb_init q vs = (case inner q of (env, h, rw) \<Rightarrow>
     \<lparr>tqueue = tso_init h rw vs, tsema = sema q, tprod = PIdle, tcons = CIdle\<rparr>)"

inductive tb_reach :: "'a env \<Rightarrow> 'a tbsys \<Rightarrow> 'a tbsys \<Rightarrow> bool" for env st0 where
  tb_start: "tb_reach env st0 st0"
| tb_next: "tb_reach env st0 st \<Longrightarrow> tb_step env e st = Some (Inr st') \<Longrightarrow> tb_reach env st0 st'"

subsection \<open>The invariant\<close>

text \<open>The threads' registers and the semaphore, as a state of \<open>Blocking_Conc\<close>.\<close>

definition tb_view :: "'a tbsys \<Rightarrow> 'a bsys" where
  "tb_view st = \<lparr>squeue = main (tqueue st), ssema = tsema st, prod = tprod st, cons = tcons st\<rparr>"

lemma tb_view_sel [simp]:
  "squeue (tb_view st) = main (tqueue st)" "ssema (tb_view st) = tsema st" "prod (tb_view st) = tprod st"
  "cons (tb_view st) = tcons st"
  by (simp_all add: tb_view_def)

text \<open>The elements that the consumer can reach in a state: all but the one in a block that is not the tail block yet.\<close>

definition reached :: "'a conc \<Rightarrow> int" where
  "reached s = int (length (in_log s)) - int (published (epc s))"

text \<open>
  Of the state in the shared memory: every element signalled and not yet taken can be reached. Of the
  state that the consumer sees: when it was granted an element and found the front block empty, it is not
  at the end.
\<close>

definition tb_at :: "'a env \<Rightarrow> 'a tbsys \<Rightarrow> 'a conc \<Rightarrow> 'a conc list \<Rightarrow> 'a conc list \<Rightarrow> 'a conc \<Rightarrow> 'a conc \<Rightarrow> int \<Rightarrow> bool" where
  "tb_at env st s es ds se sd n \<longleftrightarrow> tso_at env (tqueue st) s es ds se sd \<and> bsys_count (tb_view st) n \<and>
     (tprod st = PEnq \<longleftrightarrow> epc se \<noteq> EIdle) \<and> (tcons st = CDeq \<longleftrightarrow> dpc sd \<noteq> DIdle) \<and>
     int (length (out_log sd)) + n + int (granted (tb_view st)) \<le> reached s \<and>
     (\<forall>fb. dpc sd = DChk fb \<longrightarrow> frontBlock (members sd) \<noteq> tailBlock (members sd))"

definition tb_inv :: "'a env \<Rightarrow> 'a tbsys \<Rightarrow> bool" where
  "tb_inv env st \<longleftrightarrow> (\<exists>s es ds se sd n. tb_at env st s es ds se sd n)"

lemma tb_invI: "tb_at env st s es ds se sd n \<Longrightarrow> tb_inv env st"
  unfolding tb_inv_def by blast

lemma tb_atD:
  assumes "tb_at env st s es ds se sd n"
  shows "tso_at env (tqueue st) s es ds se sd" "bsys_count (tb_view st) n" "tprod st = PEnq \<longleftrightarrow> epc se \<noteq> EIdle"
    "tcons st = CDeq \<longleftrightarrow> dpc sd \<noteq> DIdle" "int (length (out_log sd)) + n + int (granted (tb_view st)) \<le> reached s"
    "\<And>fb. dpc sd = DChk fb \<Longrightarrow> frontBlock (members sd) \<noteq> tailBlock (members sd)"
  using assms unfolding tb_at_def by blast+

lemma tb_inv_init:
  assumes "bq_rep q vs"
  shows "tb_inv (bq_env q) (tb_init q vs)" "env_ok (bq_env q)"
proof -
  obtain env h rw bs where i: "inner q = (env, h, rw)" "env_ok env" "queue_at env h rw bs vs"
    and s: "sema q = \<lparr>m_count = int (length vs), m_sema = 0\<rparr>"
    using assms by (auto simp: bq_rep_def rwq_rep_def)
  let ?s = "conc_init h rw vs"
  have "tso_at env (tso_init h rw vs) ?s [] [] ?s ?s" using conc_inv_init[OF i(3)] by (simp add: tso_at_def tso_init_def)
  then have "tb_at env (tb_init q vs) ?s [] [] ?s ?s (int (length vs))"
    by (simp add: tb_at_def tb_init_def i(1) s bsys_defs tso_init_def conc_init_def posts_def ahead_def reached_def)
  then show "tb_inv (bq_env q) (tb_init q vs)" by (auto simp: bq_env_def i(1) intro: tb_invI)
  show "env_ok (bq_env q)" using i by (simp add: bq_env_def)
qed

subsection \<open>What can be reached only grows\<close>

lemma reached_edge:
  assumes "enq_edge env s e t"
  shows "reached s \<le> reached t" "enq_stores (epc s) e = [] \<Longrightarrow> reached t = reached s"
proof -
  have t: "t = eapp (epc s) e s" using assms unfolding enq_edge_def by blast
  have "reached s \<le> reached t \<and> (enq_stores (epc s) e = [] \<longrightarrow> reached t = reached s)"
  proof (cases "enq_reads (epc s)")
    case True
    have e: "equiet (epc e)" "in_log e = in_log s" using assms[unfolded enq_edge_def if_P[OF True]] by blast+
    have "\<not> ahead (epc s)" using True by (cases "epc s") (simp_all add: ahead_def)
    moreover have "\<not> ahead (epc e)" using e(1) by (cases "epc e") (simp_all add: ahead_def)
    ultimately show ?thesis using e(2) unfolding t by (simp add: reached_def)
  next
    case False
    have r: "enq_run env s t" using assms[unfolded enq_edge_def if_not_P[OF False]] by blast
    show ?thesis
    proof (cases "epc s = EIdle")
      case True
      then obtain m v where "enq_start m v s = Inr t" using r by (auto simp: enq_run_def)
      from enq_start_logs(1,4)[OF this] show ?thesis using True by (simp add: reached_def ahead_def)
    next
      case n: False
      then have "enq_step env (epc s) s = Inr t" using r by (simp add: enq_run_def)
      from enq_step_logs[OF this n] have "reached s \<le> reached t" by (auto simp: reached_def split: if_splits)
      moreover have "enq_stores (epc s) e \<noteq> []" using False n by (cases "epc s") auto
      ultimately show ?thesis by blast
    qed
  qed
  then show "reached s \<le> reached t" "enq_stores (epc s) e = [] \<Longrightarrow> reached t = reached s" by blast+
qed

lemma reached_path: "path (enq_edge env) s es t \<Longrightarrow> reached s \<le> reached t"
  by (induction es arbitrary: s) (use reached_edge(1) in fastforce)+

lemma reached_drained: "path (enq_edge env) s es t \<Longrightarrow> epend (epc s) es = [] \<Longrightarrow> reached t = reached s"
proof (induction es arbitrary: s)
  case (Cons e es)
  then obtain s1 where s1: "enq_edge env s e s1" "path (enq_edge env) s1 es t" by auto
  have "epc s1 = epc e" using enq_edge_eq[OF s1(1)] by simp
  then show ?case using Cons.IH[OF s1(2)] Cons.prems(2) reached_edge(2)[OF s1(1)] by simp
qed simp

lemma not_at_end_edge:
  assumes e: "enq_edge env s e t" and n: "frontBlock (members s) \<noteq> tailBlock (members s)"
  shows "frontBlock (members t) \<noteq> tailBlock (members t)"
proof (cases "\<exists>nb. epc s = ETail nb")
  case True
  then obtain nb where pc: "epc s = ETail nb" by blast
  then have "nb \<noteq> frontBlock (members s)" using e new_tail_apart unfolding enq_edge_def by blast
  then show ?thesis using enq_edge_eq[OF e] pc by simp
next
  case False
  then have "frontBlock (members t) = frontBlock (members s) \<and> tailBlock (members t) = tailBlock (members s)"
    unfolding enq_edge_eq[OF e] by (cases "epc s") (auto split: enq_pc.split)
  then show ?thesis using n by simp
qed

lemma not_at_end_path:
  "path (enq_edge env) s es t \<Longrightarrow> frontBlock (members s) \<noteq> tailBlock (members s) \<Longrightarrow> frontBlock (members t) \<noteq> tailBlock (members t)"
  by (rule path_inv[where P = "\<lambda>s. frontBlock (members s) \<noteq> tailBlock (members s)"]) (use not_at_end_edge in blast)+

subsection \<open>Every step keeps the invariant\<close>

lemma tb_atI:
  assumes "tso_at env (tqueue st) s es ds se sd" "bsys_count (tb_view st) n" "tprod st = PEnq \<longleftrightarrow> epc se \<noteq> EIdle"
    "tcons st = CDeq \<longleftrightarrow> dpc sd \<noteq> DIdle" "int (length (out_log sd)) + n + int (granted (tb_view st)) \<le> reached s"
    "\<And>fb. dpc sd = DChk fb \<Longrightarrow> frontBlock (members sd) \<noteq> tailBlock (members sd)"
  shows "tb_inv env st"
  using assms unfolding tb_inv_def tb_at_def by blast

lemmas tb_defs = bsys_defs tb_view_sel

lemma tb_Enqueue:
  assumes env: "env_ok env" and i: "tb_at env st s es ds se sd n" and p: "tprod st = PIdle"
  shows "\<exists>st'. tb_act env (Enqueue m v) st = Some (Inr st') \<and> tb_inv env st'"
proof -
  note I = tb_atD[OF i] and pcs = tso_pcs[OF tb_atD(1)[OF i]]
  have e: "epc se = EIdle" using I(3) p by simp
  then obtain t q where t: "enq_start m v se = Inr t" "tso_step env (CallEnq m v) (tqueue st) = Some (Inr q)"
    "tso_at env q s (es @ [t]) ds t sd" using tso_call_enq[OF env I(1)] pcs(1) by metis
  note L = enq_start_logs[OF t(1)] and pcs' = tso_pcs[OF t(3)]
  let ?st = "st\<lparr>tqueue := q, tprod := PEnq\<rparr>"
  have "bsys_count (tb_view ?st) n" using I(2) p L pcs pcs' e by (simp add: tb_defs ahead_def)
  moreover have "granted (tb_view ?st) = granted (tb_view st)" by (simp add: granted_def)
  ultimately have "tb_inv env ?st" using I(4,5,6) t(3) L(5) by (intro tb_atI[where n = n and s = s and se = t and sd = sd]) simp_all
  then show ?thesis using t(2) p by (simp add: lift_tso_def del: tso_step.simps)
qed

lemma tb_EnqueueStep:
  assumes env: "env_ok env" and i: "tb_at env st s es ds se sd n" and p: "tprod st = PEnq"
  shows "\<exists>st'. tb_act env EnqueueStep st = Some (Inr st') \<and> tb_inv env st'"
proof -
  note I = tb_atD[OF i] and pcs = tso_pcs[OF tb_atD(1)[OF i]]
  have e: "epc se \<noteq> EIdle" using I(3) p by simp
  then obtain t q where t: "enq_step env (epc se) se = Inr t" "tso_step env StepEnq (tqueue st) = Some (Inr q)"
    "tso_at env q s (es @ [t]) ds t sd" using tso_step_enq[OF env I(1)] pcs(1) by metis
  note L = enq_step_logs[OF t(1) e] and pcs' = tso_pcs[OF t(3)]
  let ?p = "if epc t \<noteq> EIdle then PEnq else if enq_succeeds (epc se) then PSignal else PIdle"
  let ?st = "st\<lparr>tqueue := q, tprod := ?p\<rparr>"
  have "bsys_count (tb_view ?st) n" using I(2) p L pcs pcs' by (auto simp: tb_defs ahead_def split: if_splits)
  moreover have "granted (tb_view ?st) = granted (tb_view st)" by (simp add: granted_def)
  ultimately have "tb_inv env ?st" using I(4,5,6) t(3) by (intro tb_atI[where n = n and s = s and se = t and sd = sd]) (simp_all split: if_splits)
  then show ?thesis using t(2) p pcs(1) pcs'(1)
    by (cases "epc t = EIdle"; cases "enq_succeeds (epc se)") (simp_all add: lift_tso_def del: tso_step.simps)
qed

text \<open>When the producer signals, its buffer is empty and the consumer can reach the element.\<close>

lemma tb_SignalAdd:
  assumes i: "tb_at env st s es ds se sd n" and p: "tprod st = PSignal" "ebuf (tqueue st) = []"
  shows "\<exists>st'. tb_act env SignalAdd st = Some (Inr st') \<and> tb_inv env st'"
proof -
  note I = tb_atD[OF i] and D = tso_atD[OF tb_atD(1)[OF i]] and pcs = tso_pcs[OF tb_atD(1)[OF i]]
  have e: "epc se = EIdle" using I(3) p by simp
  have "sem_inv (tsema st) (wait_pc_of (tcons st)) SigIdle n" using I(2) p by (simp add: bsys_count_def sig_of_def)
  from signal_add_inv[OF this, of 1] obtain m g
    where s: "signal_add 1 (tsema st) = Inr (m, g)" "sem_inv m (wait_pc_of (tcons st)) g (n + 1)" by auto
  let ?st = "st\<lparr>tsema := m, tprod := (if g = SigPost then PPost else PIdle)\<rparr>"
  have "bsys_count (tb_view ?st) (n + 1)"
    using I(2) e s(2) p pcs(1) by (cases g) (simp_all add: bsys_count_def sig_of_def unsignalled_def granted_def ahead_def)
  moreover have "int (length (out_log sd)) + (n + 1) + int (granted (tb_view ?st)) \<le> reached s"
  proof -
    have "reached s = int (length (in_log se))"
      using reached_drained[OF D(2)] D(6) p(2) e by (simp add: reached_def ahead_def)
    then show ?thesis using I(2) p pcs by (simp add: tb_defs)
  qed
  ultimately have "tb_inv env ?st" using I(1,4,6) e by (intro tb_atI[where n = "n + 1" and s = s and se = se and sd = sd]) simp_all
  then show ?thesis using s(1) p by simp
qed

lemma tb_SignalPost:
  assumes i: "tb_at env st s es ds se sd n" and p: "tprod st = PPost"
  shows "\<exists>st'. tb_act env SignalPost st = Some (Inr st') \<and> tb_inv env st'"
proof -
  note I = tb_atD[OF i]
  let ?st = "st\<lparr>tsema := signal_post (tsema st), tprod := PIdle\<rparr>"
  have "bsys_count (tb_view ?st) n"
    using I(2) p signal_post_inv by (auto simp: bsys_count_def sig_of_def unsignalled_def granted_def)
  moreover have "granted (tb_view ?st) = granted (tb_view st)" by (simp add: granted_def)
  ultimately have "tb_inv env ?st" using I(1,3-6) p by (intro tb_atI[where n = n and s = s and se = se and sd = sd]) simp_all
  then show ?thesis using p by simp
qed

lemma tb_start_wait:
  assumes i: "tb_at env st s es ds se sd n" and c: "tcons st = CIdle"
  shows "tb_inv env (st\<lparr>tcons := CWait (TryLoad t)\<rparr>)"
  using tb_atD[OF i] c by (intro tb_atI[where n = n and s = s and se = se and sd = sd]) (simp_all add: bsys_defs)

lemma tb_WaitStep:
  assumes i: "tb_at env st s es ds se sd n" and c: "tcons st = CWait w" and m: "wait_step a (tsema st) w = Some (m, w')"
  shows "tb_inv env (st\<lparr>tsema := m, tcons := after_wait w'\<rparr>)"
proof -
  note I = tb_atD[OF i]
  let ?st = "st\<lparr>tsema := m, tcons := after_wait w'\<rparr>"
  have "sem_inv (tsema st) w (sig_of (tprod st)) n" using I(2) c by (simp add: bsys_count_def wait_pc_of_def)
  then have "sem_inv m w' (sig_of (tprod st)) (n - grants w')" by (rule wait_step_inv[OF _ m])
  then have "bsys_count (tb_view ?st) (n - grants w')"
    using I(2) c by (cases w') (auto simp: bsys_count_def after_wait_def wait_pc_of_def grants_def granted_def unsignalled_def)
  moreover have "int (length (out_log sd)) + (n - grants w') + int (granted (tb_view ?st)) \<le> reached s"
    using I(5) c by (cases w') (auto simp: granted_def after_wait_def grants_def)
  moreover have "dpc sd = DIdle" using I(4) c by simp
  ultimately show ?thesis using I(1,3)
    by (intro tb_atI[where n = "n - grants w'" and s = s and se = se and sd = sd]) (cases w'; simp add: after_wait_def)+
qed

lemma tb_Dequeue:
  assumes env: "env_ok env" and i: "tb_at env st s es ds se sd n" and p: "tcons st = CTake"
  shows "\<exists>st'. tb_act env Dequeue st = Some (Inr st') \<and> tb_inv env st'"
proof -
  note I = tb_atD[OF i] and pcs = tso_pcs[OF tb_atD(1)[OF i]]
  have d: "dpc sd = DIdle" using I(4) p by simp
  then obtain u q where u: "deq_start sd = Inr u" "tso_step env CallDeq (tqueue st) = Some (Inr q)"
    "tso_at env q s es (ds @ [u]) se u" using tso_call_deq[OF env I(1)] pcs(2) by metis
  note L = deq_start_logs[OF u(1)] and pcs' = tso_pcs[OF u(3)]
  let ?st = "st\<lparr>tqueue := q, tcons := CDeq\<rparr>"
  have "bsys_count (tb_view ?st) n" using I(2) p L pcs pcs' by (simp add: tb_defs)
  moreover have "granted (tb_view ?st) = granted (tb_view st)" using p by (simp add: granted_def)
  moreover have "dpc u \<noteq> DChk fb" for fb by (rule L(5))
  ultimately have "tb_inv env ?st" using I(3,5) u(3) L(1-4)
    by (intro tb_atI[where n = n and s = s and se = se and sd = u]) (simp_all, blast)
  then show ?thesis using u(2) p by (simp add: lift_tso_def del: tso_step.simps)
qed

lemma tb_DequeueStep:
  assumes env: "env_ok env" and i: "tb_at env st s es ds se sd n" and p: "tcons st = CDeq"
  shows "\<exists>st'. tb_act env DequeueStep st = Some (Inr st') \<and> tb_inv env st'"
proof -
  note I = tb_atD[OF i] and D = tso_atD[OF tb_atD(1)[OF i]] and pcs = tso_pcs[OF tb_atD(1)[OF i]]
  have d0: "dpc sd \<noteq> DIdle" using I(4) p by simp
  then obtain u q where u: "deq_step (dpc sd) sd = Inr u" "tso_step env StepDeq (tqueue st) = Some (Inr q)"
    "tso_at env q s es (ds @ [u]) se u" using tso_step_deq[OF env I(1)] pcs(2) by metis
  note L = deq_step_logs[OF u(1) d0] and pcs' = tso_pcs[OF u(3)]
  have d: "deq_succeeds (dpc sd)" if "dpc u = DIdle"
    using L that I(6) front_of_DChk[OF D(5)] by metis
  have "0 \<le> n" using I(2) by (auto simp: bsys_count_def intro: sem_inv_nonneg)
  moreover have "reached s = reached sd" using deq_path_keeps[OF D(3)] by (simp add: reached_def)
  ultimately have lt: "length (out_log sd) + published (epc sd) < length (in_log sd)"
    using I(5) p by (auto simp: reached_def granted_def split: if_splits)
  have f: "frontBlock (members u) \<noteq> tailBlock (members u)" if c: "dpc u = DChk fb" for fb
  proof -
    have "dpc sd = DTail fb" "members u = members sd" using L c by blast+
    then show ?thesis using granted_not_at_end[OF D(5) _ _ c lt] u(1) by simp
  qed
  let ?st = "st\<lparr>tqueue := q, tcons := (if dpc u \<noteq> DIdle then CDeq else CIdle)\<rparr>"
  have "bsys_count (tb_view ?st) n" using I(2) p L d pcs pcs' by (auto simp: tb_defs split: if_splits)
  moreover have "int (length (out_log u)) + n + int (granted (tb_view ?st)) \<le> reached s"
    using I(5) p L d by (auto simp: granted_def split: if_splits)
  ultimately have "tb_inv env ?st" using I(3) u(3) f by (intro tb_atI[where n = n and s = s and se = se and sd = u]) simp_all
  moreover have "st\<lparr>tqueue := q\<rparr> = st\<lparr>tqueue := q, tcons := CDeq\<rparr>" using p by simp
  ultimately show ?thesis using u(2) p d pcs(2) pcs'(2)
    by (cases "dpc u = DIdle") (simp_all add: lift_tso_def del: tso_step.simps)
qed

lemma tb_FlushProducer:
  assumes i: "tb_at env st s es ds se sd n" and b: "ebuf (tqueue st) = w # ws"
  shows "tb_inv env (st\<lparr>tqueue := (tqueue st)\<lparr>main := commit w (main (tqueue st)), ebuf := ws\<rparr>\<rparr>)" (is "tb_inv env ?st")
proof -
  note I = tb_atD[OF i]
  obtain s' es1 es' sd' where f: "path (enq_edge env) s es1 s'" "path (enq_edge env) sd es1 sd'"
    "tso_at env (tqueue ?st) s' es' ds se sd'" using flush_enq_path[OF I(1) b] by auto
  note k = enq_path_keeps[OF f(2)]
  have "bsys_count (tb_view ?st) n" using I(2) by (simp add: bsys_count_def granted_def unsignalled_def)
  moreover have "granted (tb_view ?st) = granted (tb_view st)" by (simp add: granted_def)
  moreover have "frontBlock (members sd') \<noteq> tailBlock (members sd')" if "dpc sd' = DChk fb" for fb
    using not_at_end_path[OF f(2)] I(6)[of fb] that k by simp
  moreover have "tcons st = CDeq \<longleftrightarrow> dpc sd' \<noteq> DIdle" "out_log sd' = out_log sd" using I(4) k by simp_all
  ultimately show ?thesis using I(3,5) f(3) reached_path[OF f(1)]
    by (intro tb_atI[where n = n and s = s' and se = se and sd = sd']) simp_all
qed

lemma tb_FlushConsumer:
  assumes i: "tb_at env st s es ds se sd n" and b: "dbuf (tqueue st) = w # ws"
  shows "tb_inv env (st\<lparr>tqueue := (tqueue st)\<lparr>main := commit w (main (tqueue st)), dbuf := ws\<rparr>\<rparr>)" (is "tb_inv env ?st")
proof -
  note I = tb_atD[OF i]
  obtain s' ds1 ds' se' where f: "path (deq_edge env) s ds1 s'" "path (deq_edge env) se ds1 se'"
    "tso_at env (tqueue ?st) s' es ds' se' sd" using flush_deq_path[OF I(1) b] by auto
  note k = deq_path_keeps[OF f(1)] deq_path_keeps[OF f(2)]
  have "bsys_count (tb_view ?st) n" using I(2) by (simp add: bsys_count_def granted_def unsignalled_def)
  moreover have "granted (tb_view ?st) = granted (tb_view st)" by (simp add: granted_def)
  moreover have "reached s' = reached s" using k by (simp add: reached_def)
  ultimately show ?thesis using I(3-6) f(3) k by (intro tb_atI[where n = n and s = s' and se = se' and sd = sd]) simp_all
qed

lemma tb_step_inv:
  assumes env: "env_ok env" and inv: "tb_inv env st" and r: "tb_step env e st = Some r"
  shows "\<exists>st'. r = Inr st' \<and> tb_inv env st'"
proof -
  obtain s es ds se sd n where i: "tb_at env st s es ds se sd n" using inv by (auto simp: tb_inv_def)
  show ?thesis
  proof (cases e)
    case (Act a)
    then have a: "tb_act env a st = Some r" using r by simp
    show ?thesis
    proof (cases a)
      case (Enqueue m v)
      then have p: "tprod st = PIdle" using a by (auto split: if_splits)
      then show ?thesis using a tb_Enqueue[OF env i p, of m v] Enqueue by auto
    next
      case EnqueueStep
      then have p: "tprod st = PEnq" using a by (auto split: if_splits)
      then show ?thesis using a tb_EnqueueStep[OF env i p] EnqueueStep by auto
    next
      case SignalAdd
      then have p: "tprod st = PSignal" "ebuf (tqueue st) = []" using a by (auto split: if_splits)
      then show ?thesis using a tb_SignalAdd[OF i p] SignalAdd by auto
    next
      case SignalPost
      then have p: "tprod st = PPost" using a by (auto split: if_splits)
      then show ?thesis using a tb_SignalPost[OF i p] SignalPost by auto
    next
      case Dequeue
      then have p: "tcons st = CTake" using a by (auto split: if_splits)
      then show ?thesis using a tb_Dequeue[OF env i p] Dequeue by auto
    next
      case DequeueStep
      then have p: "tcons st = CDeq" using a by (auto split: if_splits)
      then show ?thesis using a tb_DequeueStep[OF env i p] DequeueStep by auto
    next
      case (WaitStep x)
      then show ?thesis using a tb_WaitStep[OF i] by (auto split: cons_pc.splits if_splits)
    qed (use a tb_start_wait[OF i] in \<open>auto split: if_splits\<close>)
  next
    case FlushProducer
    then obtain w ws where b: "ebuf (tqueue st) = w # ws" using r by (auto simp: lift_tso_def split: list.splits)
    then show ?thesis using r FlushProducer tb_FlushProducer[OF i b] by (auto simp: lift_tso_def)
  next
    case FlushConsumer
    then obtain w ws where b: "dbuf (tqueue st) = w # ws" using r by (auto simp: lift_tso_def split: list.splits)
    then show ?thesis using r FlushConsumer tb_FlushConsumer[OF i b] by (auto simp: lift_tso_def)
  qed
qed

lemma tb_reach_inv: "tb_reach env st0 st \<Longrightarrow> env_ok env \<Longrightarrow> tb_inv env st0 \<Longrightarrow> tb_inv env st"
  by (induction rule: tb_reach.induct) (use tb_step_inv in fastforce)+

lemma tb_reachable:
  assumes "bq_rep q vs" "tb_reach (bq_env q) (tb_init q vs) st"
  shows "tb_inv (bq_env q) st" "env_ok (bq_env q)"
  using tb_reach_inv[OF assms(2) tb_inv_init(2,1)[OF assms(1)]] tb_inv_init(2)[OF assms(1)] by auto

lemma tb_queue:
  assumes "tb_inv env st"
  shows "\<exists>w n. conc_inv env w \<and> bsys_count (tb_view st) n \<and> epc w = epc (main (tqueue st)) \<and> dpc w = dpc (main (tqueue st)) \<and>
    in_log w = in_log (main (tqueue st)) \<and> out_log w = out_log (main (tqueue st)) \<and>
    (tprod st = PEnq \<longleftrightarrow> epc w \<noteq> EIdle) \<and> (tcons st = CDeq \<longleftrightarrow> dpc w \<noteq> DIdle) \<and>
    (ebuf (tqueue st) = [] \<longrightarrow> dbuf (tqueue st) = [] \<longrightarrow> w = main (tqueue st))"
proof -
  obtain s es ds se sd n where i: "tb_at env st s es ds se sd n" using assms by (auto simp: tb_inv_def)
  note I = tb_atD[OF i]
  from tso_corner[OF tso_invI[OF I(1)]] obtain w where "conc_inv env w" "epc w = epc (main (tqueue st))" "dpc w = dpc (main (tqueue st))"
    "in_log w = in_log (main (tqueue st))" "out_log w = out_log (main (tqueue st))"
    "ebuf (tqueue st) = [] \<longrightarrow> dbuf (tqueue st) = [] \<longrightarrow> w = main (tqueue st)" by blast
  then show ?thesis using I(2-4) tso_pcs[OF I(1)] by auto
qed

subsection \<open>Runs\<close>

primrec tb_run :: "'a env \<Rightarrow> 'a tbevent list \<Rightarrow> 'a tbsys \<Rightarrow> 'a tbsys res option" where
  "tb_run env [] st = Some (Inr st)"
| "tb_run env (e # es) st = (case tb_step env e st of Some (Inr st') \<Rightarrow> tb_run env es st' | r \<Rightarrow> r)"

lemma tb_run_reach:
  "tb_run env es st = Some (Inr st') \<Longrightarrow> tb_reach env st0 st \<Longrightarrow> tb_reach env st0 st'"
proof (induction es arbitrary: st)
  case (Cons e es)
  then show ?case using tb_next[of env st0 st e] by (auto split: option.splits sum.splits)
qed simp

lemma tb_spin_reach:
  assumes "tb_reach env st0 (st\<lparr>tcons := CWait (Spin (int n) t)\<rparr>)" "m_count (tsema st) = 0" "dbuf (tqueue st) = []"
  shows "tb_reach env st0 (st\<lparr>tcons := CWait (SlowDec t)\<rparr>)"
  using assms(1)
proof (induction n)
  case 0
  then show ?case by (rule tb_next[of _ _ _ "Act (WaitStep Granted)"]) (simp add: after_wait_def)
next
  case (Suc n)
  have "tb_reach env st0 (st\<lparr>tcons := CWait (Spin (int n) t)\<rparr>)"
    by (rule tb_next[OF Suc.prems, of "Act (WaitStep Granted)"]) (simp add: after_wait_def assms(2))
  then show ?case by (rule Suc.IH)
qed

lemma tb_wait_blocks:
  assumes "tb_reach env st0 st" "tcons st = CIdle" "m_count (tsema st) = 0" "dbuf (tqueue st) = []"
  shows "tb_reach env st0 (st\<lparr>tsema := (tsema st)\<lparr>m_count := - 1\<rparr>, tcons := CWait (KWait t)\<rparr>)"
proof -
  have "tb_reach env st0 (st\<lparr>tcons := CWait (TryLoad (Some t))\<rparr>)"
    by (rule tb_next[OF assms(1), of "Act (StartWait t)"]) (simp add: assms(2))
  then have "tb_reach env st0 (st\<lparr>tcons := CWait (Spin (int 10000) t)\<rparr>)"
    by (rule tb_next[of _ _ _ "Act (WaitStep Granted)"]) (simp add: assms(3) after_wait_def)
  then have "tb_reach env st0 (st\<lparr>tcons := CWait (SlowDec t)\<rparr>)" by (rule tb_spin_reach) (rule assms(3,4))+
  then show ?thesis
    by (rule tb_next[of _ _ _ "Act (WaitStep Granted)"]) (simp add: assms(3,4) after_wait_def Let_def)
qed

definition demo_tb :: "nat tbsys" where
  "demo_tb = \<lparr>tqueue = tso_init demo_heap demo_rwq [], tsema = \<lparr>m_count = 0, m_sema = 0\<rparr>, tprod = PIdle, tcons = CIdle\<rparr>"

lemma demo_tb_init: "tb_init demo_bq [] = demo_tb"
  by (simp add: tb_init_def demo_bq_def demo_tb_def)

lemmas demo_tb_simps = demo_run_simps tso_init_def lift_tso_def tso_enq_def tso_deq_def set_slot_def enq_regs_def deq_regs_def
  at_cell_def

text \<open>The consumer has been granted the element 7 and is inside the dequeue; the store of a second element and one of
  the consumer's are in the buffers.\<close>

lemma demo_tb_inside:
  "\<exists>st. tb_reach (bq_env demo_bq) (tb_init demo_bq []) st \<and> tcons st = CDeq \<and> tprod st = PEnq \<and>
     in_log (main (tqueue st)) = [7] \<and> ebuf (tqueue st) \<noteq> [] \<and> dbuf (tqueue st) \<noteq> []"
proof -
  let ?es = "[Act (Enqueue CannotAlloc 7), Act EnqueueStep, Act EnqueueStep, FlushProducer, FlushProducer, Act SignalAdd,
    Act StartTry, Act (WaitStep Granted), Act (WaitStep Granted), Act (Enqueue CannotAlloc 8), Act EnqueueStep, Act Dequeue,
    Act DequeueStep, Act DequeueStep]"
  have "\<exists>st. tb_run demo_env ?es demo_tb = Some (Inr st) \<and> tcons st = CDeq \<and> tprod st = PEnq \<and>
     in_log (main (tqueue st)) = [7] \<and> ebuf (tqueue st) \<noteq> [] \<and> dbuf (tqueue st) \<noteq> []"
    by (simp add: demo_tb_def demo_tb_simps four_empty_slots)
  then obtain st where "tb_run demo_env ?es demo_tb = Some (Inr st)" "tcons st = CDeq \<and> tprod st = PEnq \<and>
     in_log (main (tqueue st)) = [7] \<and> ebuf (tqueue st) \<noteq> [] \<and> dbuf (tqueue st) \<noteq> []" by blast
  with tb_run_reach[OF this(1) tb_start] show ?thesis unfolding demo_bq_env demo_tb_init by blast
qed

lemma demo_tb_woken:
  "\<exists>st. tb_reach (bq_env demo_bq) (tb_init demo_bq []) st \<and> tcons st = CWait (KWait (- 1)) \<and> tprod st = PIdle \<and>
     in_log (main (tqueue st)) = [7] \<and> out_log (main (tqueue st)) = []"
proof -
  let ?s = "demo_tb\<lparr>tsema := \<lparr>m_count = - 1, m_sema = 0\<rparr>, tcons := CWait (KWait (- 1))\<rparr>"
  let ?es = "[Act (Enqueue CannotAlloc 7), Act EnqueueStep, Act EnqueueStep, FlushProducer, FlushProducer, Act SignalAdd, Act SignalPost]"
  have s: "tb_reach demo_env demo_tb ?s"
    using tb_wait_blocks[OF tb_start, of demo_tb _ "- 1"] by (simp add: demo_tb_def tso_init_def)
  have "\<exists>st. tb_run demo_env ?es ?s = Some (Inr st) \<and>
      tcons st = CWait (KWait (- 1)) \<and> tprod st = PIdle \<and> in_log (main (tqueue st)) = [7] \<and> out_log (main (tqueue st)) = []"
    by (simp add: demo_tb_def demo_tb_simps four_empty_slots)
  then obtain st where "tb_run demo_env ?es ?s = Some (Inr st)"
    "tcons st = CWait (KWait (- 1)) \<and> tprod st = PIdle \<and> in_log (main (tqueue st)) = [7] \<and> out_log (main (tqueue st)) = []" by blast
  with tb_run_reach[OF this(1) s] show ?thesis unfolding demo_bq_env demo_tb_init by blast
qed

subsection \<open>Sequentially consistent memory\<close>

text \<open>A state of \<open>Blocking_Conc\<close> as one whose buffers are empty.\<close>

definition emb :: "'a bsys \<Rightarrow> 'a tbsys" where
  "emb b = \<lparr>tqueue = unbuffered (squeue b), tsema = ssema b, tprod = prod b, tcons = cons b\<rparr>"

lemma emb_sel [simp]:
  "tqueue (emb b) = unbuffered (squeue b)" "tsema (emb b) = ssema b" "tprod (emb b) = prod b" "tcons (emb b) = cons b"
  by (simp_all add: emb_def)

lemma emb_unbuffered: "tqueue st = unbuffered q \<Longrightarrow> st = emb \<lparr>squeue = q, ssema = tsema st, prod = tprod st, cons = tcons st\<rparr>"
  by (cases st) (simp add: emb_def)

lemma tb_flush_producer:
  "tb_reach env st0 st \<Longrightarrow> ebuf (tqueue st) = [] \<or> (\<exists>w. ebuf (tqueue st) = [w]) \<Longrightarrow>
    tb_reach env st0 (st\<lparr>tqueue := (tqueue st)\<lparr>main := drain (ebuf (tqueue st)) (main (tqueue st)), ebuf := []\<rparr>\<rparr>)"
  using tb_next[of env st0 st FlushProducer] by (cases st; cases "tqueue st") (auto simp: lift_tso_def)

lemma tb_flush_consumer:
  "tb_reach env st0 st \<Longrightarrow> dbuf (tqueue st) = [] \<or> (\<exists>w. dbuf (tqueue st) = [w]) \<Longrightarrow>
    tb_reach env st0 (st\<lparr>tqueue := (tqueue st)\<lparr>main := drain (dbuf (tqueue st)) (main (tqueue st)), dbuf := []\<rparr>\<rparr>)"
  using tb_next[of env st0 st FlushConsumer] by (cases st; cases "tqueue st") (auto simp: lift_tso_def)

text \<open>A step of the queue inside, whose store is flushed at once.\<close>

lemma emb_enq:
  assumes env: "env_ok env" and i: "conc_inv env q" and r: "enq_run env q q'"
    and st: "tb_reach env st0 st" "tqueue st = \<lparr>main = enq_regs q' q, ebuf = enq_stores (epc q) q', dbuf = []\<rparr>"
  shows "tb_reach env st0 (emb \<lparr>squeue = q', ssema = tsema st, prod = tprod st, cons = tcons st\<rparr>)"
proof -
  have "drain (enq_stores (epc q) q') (enq_regs q' q) = q'"
    using enq_edge_eq[OF enq_run_edge[OF env i r]] by (simp add: drain_regs)
  then have "tqueue (st\<lparr>tqueue := (tqueue st)\<lparr>main := drain (ebuf (tqueue st)) (main (tqueue st)), ebuf := []\<rparr>\<rparr>) = unbuffered q'"
    using st(2) by simp
  from emb_unbuffered[OF this] tb_flush_producer[OF st(1)] show ?thesis
    using st(2) enq_stores_one[of "epc q" q'] by auto
qed

lemma emb_deq:
  assumes env: "env_ok env" and i: "conc_inv env q" and r: "deq_run q q'"
    and st: "tb_reach env st0 st" "tqueue st = \<lparr>main = deq_regs q' q, ebuf = [], dbuf = deq_stores (dpc q) q'\<rparr>"
  shows "tb_reach env st0 (emb \<lparr>squeue = q', ssema = tsema st, prod = tprod st, cons = tcons st\<rparr>)"
proof -
  have "drain (deq_stores (dpc q) q') (deq_regs q' q) = q'"
    using deq_edge_eq[OF deq_run_edge[OF env i r]] by (simp add: drain_regs)
  then have "tqueue (st\<lparr>tqueue := (tqueue st)\<lparr>main := drain (dbuf (tqueue st)) (main (tqueue st)), dbuf := []\<rparr>\<rparr>) = unbuffered q'"
    using st(2) by simp
  from emb_unbuffered[OF this] tb_flush_consumer[OF st(1)] show ?thesis
    using st(2) deq_stores_one[of "dpc q" q'] by auto
qed

lemma emb_step:
  assumes env: "env_ok env" and i: "conc_inv env (squeue b)" and s: "bsys_step env e b = Some (Inr b')"
    and r: "tb_reach env st0 (emb b)"
  shows "tb_reach env st0 (emb b')"
proof (cases e)
  case (Enqueue m v)
  then obtain q where q: "prod b = PIdle" "epc (squeue b) = EIdle" "enq_start m v (squeue b) = Inr q" "b' = b\<lparr>squeue := q, prod := PEnq\<rparr>"
    using s by (auto simp: lift_conc_def split: if_splits enq_pc.splits sum.splits)
  let ?st = "(emb b)\<lparr>tqueue := \<lparr>main = enq_regs q (squeue b), ebuf = enq_stores (epc (squeue b)) q, dbuf = []\<rparr>, tprod := PEnq\<rparr>"
  have "tb_reach env st0 ?st"
    by (rule tb_next[OF r, of "Act (Enqueue m v)"]) (simp add: q(1-3) lift_tso_def tso_enq_def)
  from emb_enq[OF env i _ this, of q] show ?thesis using q by (cases b) (simp add: enq_run_def exI[of _ m] exI[of _ v])
next
  case EnqueueStep
  then obtain q where q: "prod b = PEnq" "epc (squeue b) \<noteq> EIdle" "enq_step env (epc (squeue b)) (squeue b) = Inr q"
    "b' = b\<lparr>squeue := q, prod := (if epc q \<noteq> EIdle then PEnq else if enq_succeeds (epc (squeue b)) then PSignal else PIdle)\<rparr>"
    using s by (cases "epc (squeue b)"; cases "enq_step env (epc (squeue b)) (squeue b)")
      (simp_all add: lift_conc_def del: enq_step.simps split: if_splits)
  let ?st = "(emb b)\<lparr>tqueue := \<lparr>main = enq_regs q (squeue b), ebuf = enq_stores (epc (squeue b)) q, dbuf = []\<rparr>,
    tprod := (if epc q \<noteq> EIdle then PEnq else if enq_succeeds (epc (squeue b)) then PSignal else PIdle)\<rparr>"
  have "tso_step env StepEnq (unbuffered (squeue b)) = Some (tso_enq (enq_step env (epc (squeue b))) (unbuffered (squeue b)))"
    using q(2) by (auto split: enq_pc.splits)
  then have t: "tb_step env (Act EnqueueStep) (emb b) = Some (Inr ?st)"
    using q(1,3) by (simp add: lift_tso_def tso_enq_def del: tso_step.simps)
  have "enq_run env (squeue b) q" using q(2,3) by (simp add: enq_run_def)
  from emb_enq[OF env i this tb_next[OF r t]] show ?thesis unfolding q(4) by (cases b) simp
next
  case Dequeue
  then obtain q where q: "cons b = CTake" "dpc (squeue b) = DIdle" "deq_start (squeue b) = Inr q" "b' = b\<lparr>squeue := q, cons := CDeq\<rparr>"
    using s by (auto simp: lift_conc_def split: if_splits deq_pc.splits sum.splits)
  let ?st = "(emb b)\<lparr>tqueue := \<lparr>main = deq_regs q (squeue b), ebuf = [], dbuf = deq_stores (dpc (squeue b)) q\<rparr>, tcons := CDeq\<rparr>"
  have "tb_reach env st0 ?st"
    by (rule tb_next[OF r, of "Act Dequeue"]) (simp add: q(1-3) lift_tso_def tso_deq_def)
  from emb_deq[OF env i _ this, of q] show ?thesis using q by (cases b) (simp add: deq_run_def)
next
  case DequeueStep
  then obtain q where q: "cons b = CDeq" "dpc (squeue b) \<noteq> DIdle" "deq_step (dpc (squeue b)) (squeue b) = Inr q"
    "dpc q \<noteq> DIdle \<or> deq_succeeds (dpc (squeue b))"
    "b' = b\<lparr>squeue := q, cons := (if dpc q \<noteq> DIdle then CDeq else CIdle)\<rparr>"
    using s by (cases "dpc (squeue b)"; cases "deq_step (dpc (squeue b)) (squeue b)"; cases b)
      (simp_all add: lift_conc_def del: deq_step.simps split: if_splits)
  let ?st = "(emb b)\<lparr>tqueue := \<lparr>main = deq_regs q (squeue b), ebuf = [], dbuf = deq_stores (dpc (squeue b)) q\<rparr>,
    tcons := (if dpc q \<noteq> DIdle then CDeq else CIdle)\<rparr>"
  have "tso_step env StepDeq (unbuffered (squeue b)) = Some (tso_deq (deq_step (dpc (squeue b))) (unbuffered (squeue b)))"
    using q(2) by (auto split: deq_pc.splits)
  then have "tb_step env (Act DequeueStep) (emb b) = Some (Inr ?st)"
    using q(1,3,4) by (cases b) (simp add: lift_tso_def tso_deq_def emb_def del: tso_step.simps)
  from emb_deq[OF env i _ tb_next[OF r this], of q] show ?thesis using q by (cases b) (simp add: deq_run_def)
next
  case SignalAdd
  then have "tb_step env (Act SignalAdd) (emb b) = Some (Inr (emb b'))"
    using s by (cases "signal_add 1 (ssema b)"; cases "prod b = PSignal") (auto simp: emb_def)
  from tb_next[OF r this] show ?thesis .
next
  case SignalPost
  then have "tb_step env (Act SignalPost) (emb b) = Some (Inr (emb b'))" using s by (auto simp: emb_def split: if_splits)
  from tb_next[OF r this] show ?thesis .
next
  case StartTry
  then have "tb_step env (Act StartTry) (emb b) = Some (Inr (emb b'))" using s by (auto simp: emb_def split: if_splits)
  from tb_next[OF r this] show ?thesis .
next
  case (StartWait t)
  then have "tb_step env (Act (StartWait t)) (emb b) = Some (Inr (emb b'))" using s by (auto simp: emb_def split: if_splits)
  from tb_next[OF r this] show ?thesis .
next
  case (WaitStep a)
  then have "tb_step env (Act (WaitStep a)) (emb b) = Some (Inr (emb b'))"
    using s by (auto simp: emb_def split: if_splits cons_pc.splits)
  from tb_next[OF r this] show ?thesis .
qed

subsection \<open>Theorems\<close>

text \<open>C3: the \<^verbatim>\<open>BlockingReaderWriterQueue\<close> is correct on a machine that buffers stores (x86-TSO): however late the
  stores of the queue inside reach the memory, no step of the producer or of the consumer fails; in
  particular a consumer that was granted an element finds it, as \<^verbatim>\<open>assert(success)\<close> asks. What it has
  received is a prefix of what was put in.\<close>

theorem tso_blocking_safe:
  assumes "bq_rep q vs" and "tb_reach (bq_env q) (tb_init q vs) st"
  shows "tb_step (bq_env q) e st \<noteq> Some (Inl err) \<and>
    (\<exists>waiting. in_log (main (tqueue st)) = out_log (main (tqueue st)) @ waiting)"
proof -
  note i = tb_reachable[OF assms]
  obtain w where w: "conc_inv (bq_env q) w" "in_log w = in_log (main (tqueue st))" "out_log w = out_log (main (tqueue st))"
    using tb_queue[OF i(1)] by blast
  then have "\<exists>waiting. in_log (main (tqueue st)) = out_log (main (tqueue st)) @ waiting"
    by (auto simp: conc_inv_def conc_at_def)
  moreover have "tb_step (bq_env q) e st \<noteq> Some (Inl err)" using tb_step_inv[OF i(2,1), of e] by force
  ultimately show ?thesis by blast
qed

theorem tso_blocking_safe_witness:
  "\<exists>st. tcons st = CDeq \<and> tprod st = PEnq \<and> ebuf (tqueue st) \<noteq> [] \<and> dbuf (tqueue st) \<noteq> [] \<and>
    tb_step demo_env (Act DequeueStep) st \<noteq> Some (Inl AssertFailed) \<and>
    (\<exists>waiting. in_log (main (tqueue st)) = out_log (main (tqueue st)) @ waiting)"
proof -
  obtain st where st: "tb_reach (bq_env demo_bq) (tb_init demo_bq []) st" "tcons st = CDeq" "tprod st = PEnq"
    "ebuf (tqueue st) \<noteq> []" "dbuf (tqueue st) \<noteq> []" using demo_tb_inside by blast
  from tso_blocking_safe[OF demo_bq_rep st(1), of "Act DequeueStep" AssertFailed] st(2-5) show ?thesis
    unfolding demo_bq_env by blast
qed

text \<open>C9: no wake-up is lost with buffered stores either: when the consumer is blocked in the kernel, the producer is
  idle and an element waits, the kernel semaphore is up and the consumer proceeds to take the element,
  whatever is still in the buffers.\<close>

theorem tso_blocking_wakes:
  assumes "bq_rep q vs" and "tb_reach (bq_env q) (tb_init q vs) st" and "tcons st = CWait (KWait t)"
    and "tprod st = PIdle" and "in_log (main (tqueue st)) \<noteq> out_log (main (tqueue st))"
  shows "\<exists>st'. tb_step (bq_env q) (Act (WaitStep Granted)) st = Some (Inr st') \<and> tcons st' = CTake"
proof -
  let ?m = "main (tqueue st)"
  obtain w n where w: "conc_inv (bq_env q) w" "bsys_count (tb_view st) n" "epc ?m = EIdle" "in_log w = in_log ?m" "out_log w = out_log ?m"
    using tb_queue[OF tb_reachable(1)[OF assms(1,2)]] assms(4) by auto
  then obtain ws where ws: "in_log ?m = out_log ?m @ ws" by (auto simp: conc_inv_def conc_at_def)
  have v: "sem_inv (tsema st) (KWait t) SigIdle n" "int (length ws) = n"
    using w(2,3) ws unfolding bsys_defs tb_view_sel assms(3,4) by (simp_all add: ahead_def)
  then have "0 < n" using assms(5) ws by auto
  from no_lost_wakeup[OF v(1) this] show ?thesis using assms(3) by (simp add: after_wait_def)
qed

theorem tso_blocking_wakes_witness:
  "\<exists>st. tb_reach demo_env demo_tb st \<and> tcons st = CWait (KWait (- 1)) \<and> in_log (main (tqueue st)) = [7] \<and>
    (\<exists>st'. tb_step demo_env (Act (WaitStep Granted)) st = Some (Inr st') \<and> tcons st' = CTake)"
proof -
  obtain st where st: "tb_reach (bq_env demo_bq) (tb_init demo_bq []) st" "tcons st = CWait (KWait (- 1))" "tprod st = PIdle"
    "in_log (main (tqueue st)) = [7]" "out_log (main (tqueue st)) = []" using demo_tb_woken by blast
  with tso_blocking_wakes[OF demo_bq_rep st(1-3)] show ?thesis by (auto simp: demo_tb_init)
qed



text \<open>Once the buffers are empty and both threads are between calls, queue and semaphore together are again a
  well-formed blocking queue, which holds exactly what was put in and not yet received.\<close>

theorem tso_blocking_quiescent:
  assumes "bq_rep q vs" and "tb_reach (bq_env q) (tb_init q vs) st" and "tprod st = PIdle" and "tcons st = CIdle"
    and "ebuf (tqueue st) = []" and "dbuf (tqueue st) = []"
  shows "\<exists>waiting. bq_rep \<lparr>inner = (bq_env q, mem (main (tqueue st)), members (main (tqueue st))), sema = tsema st\<rparr> waiting \<and>
    in_log (main (tqueue st)) = out_log (main (tqueue st)) @ waiting"
proof -
  let ?m = "main (tqueue st)"
  note i = tb_reachable[OF assms(1,2)]
  obtain n where I: "conc_inv (bq_env q) ?m" "bsys_count (tb_view st) n" "epc ?m = EIdle" "dpc ?m = DIdle"
    using tb_queue[OF i(1)] assms(3-6) by auto
  obtain G bs vss k where c: "conc_at (bq_env q) ?m G bs vss k" using I(1) by (auto simp: conc_inv_def)
  have l: "in_log ?m = out_log ?m @ concat vss" using c unfolding conc_at_def by blast
  have "queue_at (bq_env q) (mem ?m) (members ?m) bs (concat vss)" by (rule conc_quiet[OF c I(3,4)])
  moreover have "tsema st = \<lparr>m_count = int (length (concat vss)), m_sema = 0\<rparr>"
    using I(2,3) l assms(3,4) by (cases "tsema st") (simp add: bsys_defs posts_def ahead_def)
  ultimately show ?thesis using l i(2) by (auto simp: bq_rep_def rwq_rep_def)
qed

theorem tso_blocking_quiescent_witness:
  "\<exists>waiting. bq_rep \<lparr>inner = (demo_env, mem (main (tqueue demo_tb)), members (main (tqueue demo_tb))), sema = tsema demo_tb\<rparr> waiting \<and>
    in_log (main (tqueue demo_tb)) = out_log (main (tqueue demo_tb)) @ waiting"
  using tso_blocking_quiescent[OF demo_bq_rep tb_start, unfolded demo_tb_init] by (simp add: demo_tb_def tso_init_def)

end
