(* ===== verification/Semaphore_Ports.thy ===== *)
theory Semaphore_Ports
  imports Semaphore "HOL-Library.Signed_Division"
begin

text \<open>
  The wrappers of \<^verbatim>\<open>atomicops.h\<close> around the semaphores of Windows and of Mach, next to the POSIX wrapper of
  \<open>Semaphore\<close>; and the contract of a counting semaphore that the queue relies on, as a locale that is
  interpreted on the three of them as far as they keep it.
\<close>

subsection \<open>Windows\<close>

text \<open>
  \<open>None\<close> is the null handle that a failed \<^verbatim>\<open>CreateSemaphoreW\<close> returns, \<open>Some k\<close> a semaphore of count \<open>k\<close>.
  \<open>posted ms\<close> is how often other threads release it within \<open>ms\<close> milliseconds; no result is a call that
  blocks for good.
\<close>

definition maxLong :: nat where "maxLong = 0x7fffffff"
definition infinite :: "32 word" where "infinite = 0xffffffff"
definition RC_WAIT_TIMEOUT :: nat where "RC_WAIT_TIMEOUT = 0x102"
definition WAIT_FAILED :: nat where "WAIT_FAILED = 0xffffffff"

definition WaitForSingleObject :: "nat option \<Rightarrow> 32 word \<Rightarrow> (32 word \<Rightarrow> nat) \<Rightarrow> (nat \<times> nat option) option" where
  "WaitForSingleObject h ms posted = (case h of
     None \<Rightarrow> Some (WAIT_FAILED, None)
   | Some k \<Rightarrow>
       if 0 < k + posted ms then Some (0, Some (k + posted ms - 1))
       else if ms = infinite then None else Some (RC_WAIT_TIMEOUT, Some k))"

definition ReleaseSemaphore :: "nat option \<Rightarrow> int \<Rightarrow> nat option" where
  "ReleaseSemaphore h count = (case h of
     None \<Rightarrow> None
   | Some k \<Rightarrow> if count \<le> 0 \<or> int maxLong < int k + count then Some k else Some (k + nat count))"

definition Win_Semaphore_ctor :: "bool \<Rightarrow> int \<Rightarrow> nat option res" where
  "Win_Semaphore_ctor created initialCount =
     bindE (assertE (0 \<le> initialCount)) (\<lambda>_. Inr (if created \<and> initialCount \<le> int maxLong then Some (nat initialCount) else None))"

definition Win_Semaphore_wait :: "nat option \<Rightarrow> (32 word \<Rightarrow> nat) \<Rightarrow> nat option option" where
  "Win_Semaphore_wait h posted = map_option snd (WaitForSingleObject h infinite posted)"

definition Win_Semaphore_try_wait :: "nat option \<Rightarrow> (bool \<times> nat option) option" where
  "Win_Semaphore_try_wait h =
     map_option (\<lambda>(rc, h'). (rc \<noteq> RC_WAIT_TIMEOUT, h')) (WaitForSingleObject h 0 (\<lambda>_. 0))"

text \<open>The timeout in milliseconds is cut to the 32 bits of \<^verbatim>\<open>unsigned long\<close>.\<close>

definition win_timeout :: "64 word \<Rightarrow> 32 word" where
  "win_timeout usecs = ucast (usecs div 1000)"

definition Win_Semaphore_timed_wait :: "nat option \<Rightarrow> 64 word \<Rightarrow> (32 word \<Rightarrow> nat) \<Rightarrow> (bool \<times> nat option) option" where
  "Win_Semaphore_timed_wait h usecs posted =
     map_option (\<lambda>(rc, h'). (rc \<noteq> RC_WAIT_TIMEOUT, h')) (WaitForSingleObject h (win_timeout usecs) posted)"

definition Win_Semaphore_signal :: "int \<Rightarrow> nat option \<Rightarrow> nat option" where
  "Win_Semaphore_signal count h = ReleaseSemaphore h count"

subsection \<open>Mach\<close>

datatype kern_return = KERN_SUCCESS | KERN_OPERATION_TIMED_OUT | KERN_ABORTED

record mach_timespec =
  mach_sec :: "32 word"
  mach_nsec :: int

text \<open>The kernel may abort a wait at any time; \<open>posted\<close> is as above.\<close>

definition semaphore_wait :: "bool \<Rightarrow> nat \<Rightarrow> nat \<Rightarrow> (kern_return \<times> nat) option" where
  "semaphore_wait aborted posted k =
     (if aborted then Some (KERN_ABORTED, k)
      else if k + posted = 0 then None else Some (KERN_SUCCESS, k + posted - 1))"

definition semaphore_timedwait :: "bool \<Rightarrow> (mach_timespec \<Rightarrow> nat) \<Rightarrow> mach_timespec \<Rightarrow> nat \<Rightarrow> kern_return \<times> nat" where
  "semaphore_timedwait aborted posted ts k =
     (if aborted then (KERN_ABORTED, k)
      else if k + posted ts = 0 then (KERN_OPERATION_TIMED_OUT, k) else (KERN_SUCCESS, k + posted ts - 1))"

definition Mach_Semaphore_ctor :: "int \<Rightarrow> nat res" where
  "Mach_Semaphore_ctor initialCount = bindE (assertE (0 \<le> initialCount)) (\<lambda>_. Inr (nat initialCount))"

text \<open>The result of \<^verbatim>\<open>semaphore_wait\<close> is not looked at.\<close>

definition Mach_Semaphore_wait :: "bool \<Rightarrow> nat \<Rightarrow> nat \<Rightarrow> nat option" where
  "Mach_Semaphore_wait aborted posted k = map_option snd (semaphore_wait aborted posted k)"

definition mach_deadline :: "int \<Rightarrow> mach_timespec" where
  "mach_deadline timeout_usecs =
     \<lparr>mach_sec = word_of_int (timeout_usecs sdiv 1000000), mach_nsec = (timeout_usecs smod 1000000) * 1000\<rparr>"

definition Mach_Semaphore_timed_wait :: "bool \<Rightarrow> (mach_timespec \<Rightarrow> nat) \<Rightarrow> int \<Rightarrow> nat \<Rightarrow> bool \<times> nat" where
  "Mach_Semaphore_timed_wait aborted posted timeout_usecs k =
     (case semaphore_timedwait aborted posted (mach_deadline timeout_usecs) k of
        (rc, k') \<Rightarrow> (rc \<noteq> KERN_OPERATION_TIMED_OUT \<and> rc \<noteq> KERN_ABORTED, k'))"

definition Mach_Semaphore_try_wait :: "bool \<Rightarrow> nat \<Rightarrow> bool \<times> nat" where
  "Mach_Semaphore_try_wait aborted k = Mach_Semaphore_timed_wait aborted (\<lambda>_. 0) 0 k"

primrec Mach_Semaphore_signal :: "nat \<Rightarrow> nat \<Rightarrow> nat" where
  "Mach_Semaphore_signal 0 k = k"
| "Mach_Semaphore_signal (Suc n) k = Mach_Semaphore_signal n (k + 1)"

subsection \<open>Counting semaphores\<close>

text \<open>
  What a program does with a semaphore, one call after the other; an environment \<open>e\<close> goes with every
  call that may wait. The results are those of the waits; no result is a call that blocks for good.
\<close>

datatype 'e sem_op = Wait 'e | TryWait 'e | Signal nat

fun run_ops :: "('e \<Rightarrow> 's \<Rightarrow> 's option) \<Rightarrow> ('e \<Rightarrow> 's \<Rightarrow> bool \<times> 's) \<Rightarrow> (nat \<Rightarrow> 's \<Rightarrow> 's) \<Rightarrow> 'e sem_op list \<Rightarrow> 's \<Rightarrow> (bool list \<times> 's) option" where
  "run_ops w t g [] s = Some ([], s)"
| "run_ops w t g (Wait e # ops) s = Option.bind (w e s) (\<lambda>s1. map_option (\<lambda>(rs, s2). (True # rs, s2)) (run_ops w t g ops s1))"
| "run_ops w t g (TryWait e # ops) s = (case t e s of (b, s1) \<Rightarrow> map_option (\<lambda>(rs, s2). (b # rs, s2)) (run_ops w t g ops s1))"
| "run_ops w t g (Signal n # ops) s = run_ops w t g ops (g n s)"

fun signals :: "'e sem_op list \<Rightarrow> nat" where
  "signals [] = 0"
| "signals (Signal n # ops) = n + signals ops"
| "signals (x # ops) = signals ops"

definition taken :: "bool list \<Rightarrow> nat" where
  "taken rs = length (filter id rs)"

lemma taken_simps [simp]: "taken [] = 0" "taken (b # rs) = (if b then 1 else 0) + taken rs"
  by (simp_all add: taken_def)

text \<open>The contract: a wait that returns has taken one unit; a signal within the limit adds its units.\<close>

locale counting_semaphore =
  fixes count :: "'s \<Rightarrow> nat" and sound :: "'s \<Rightarrow> bool" and limit :: nat
    and w :: "'e \<Rightarrow> 's \<Rightarrow> 's option" and t :: "'e \<Rightarrow> 's \<Rightarrow> bool \<times> 's" and g :: "nat \<Rightarrow> 's \<Rightarrow> 's"
  assumes wait_takes: "sound s \<Longrightarrow> w e s = Some s' \<Longrightarrow> sound s' \<and> count s = Suc (count s')"
    and try_takes: "sound s \<Longrightarrow> t e s = (b, s') \<Longrightarrow> sound s' \<and> count s = count s' + (if b then 1 else 0)"
    and signal_adds: "sound s \<Longrightarrow> count s + n \<le> limit \<Longrightarrow> sound (g n s) \<and> count (g n s) = count s + n"
begin

text \<open>No unit is lost and none is taken twice.\<close>

lemma run_balance:
  "sound s \<Longrightarrow> count s + signals ops \<le> limit \<Longrightarrow> run_ops w t g ops s = Some (rs, s') \<Longrightarrow>
    sound s' \<and> count s' + taken rs = count s + signals ops"
proof (induction ops arbitrary: s rs)
  case (Cons x ops)
  show ?case
  proof (cases x)
    case (Wait e)
    then obtain s1 rs1 where s1: "w e s = Some s1" "run_ops w t g ops s1 = Some (rs1, s')" "rs = True # rs1"
      using Cons.prems(3) by (cases "w e s") auto
    then show ?thesis using wait_takes[OF Cons.prems(1) s1(1)] Cons.IH[of s1 rs1] Cons.prems(2) Wait by auto
  next
    case (TryWait e)
    obtain b s1 where t: "t e s = (b, s1)" by fastforce
    then obtain rs1 where s1: "run_ops w t g ops s1 = Some (rs1, s')" "rs = b # rs1" using Cons.prems(3) TryWait by auto
    then show ?thesis using try_takes[OF Cons.prems(1) t] Cons.IH[of s1 rs1] Cons.prems(2) TryWait by auto
  next
    case (Signal n)
    then show ?thesis using signal_adds[of s n] Cons.IH[of "g n s" rs] Cons.prems by auto
  qed
qed simp

end

text \<open>An exact semaphore blocks only at zero, and a try fails only there: its results are those of a
  counter.\<close>

fun counter_run :: "'e sem_op list \<Rightarrow> nat \<Rightarrow> (bool list \<times> nat) option" where
  "counter_run [] k = Some ([], k)"
| "counter_run (Wait e # ops) k = (if k = 0 then None else map_option (\<lambda>(rs, k'). (True # rs, k')) (counter_run ops (k - 1)))"
| "counter_run (TryWait e # ops) k = map_option (\<lambda>(rs, k'). ((0 < k) # rs, k')) (counter_run ops (k - 1))"
| "counter_run (Signal n # ops) k = counter_run ops (k + n)"

locale exact_semaphore = counting_semaphore +
  assumes wait_ready: "sound s \<Longrightarrow> w e s = None \<longleftrightarrow> count s = 0"
    and try_ready: "sound s \<Longrightarrow> fst (t e s) \<longleftrightarrow> 0 < count s"
begin

lemma run_counter:
  "sound s \<Longrightarrow> count s + signals ops \<le> limit \<Longrightarrow>
    map_option (\<lambda>(rs, s'). (rs, count s')) (run_ops w t g ops s) = counter_run ops (count s)"
proof (induction ops arbitrary: s)
  case (Cons x ops)
  show ?case
  proof (cases x)
    case (Wait e)
    show ?thesis
    proof (cases "w e s")
      case None
      then show ?thesis using wait_ready[OF Cons.prems(1), of e] Wait by simp
    next
      case (Some s1)
      then have "count s = Suc (count s1)" "sound s1" using wait_takes[OF Cons.prems(1) Some] by auto
      then show ?thesis using Some Cons.IH[of s1] Cons.prems(2) Wait
        by (auto simp: option.map_comp o_def split_beta simp flip: Cons.IH)
    qed
  next
    case (TryWait e)
    obtain b s1 where t: "t e s = (b, s1)" by fastforce
    have b: "b \<longleftrightarrow> 0 < count s" using try_ready[OF Cons.prems(1), of e] t by simp
    have "count s1 = count s - 1" "sound s1" using try_takes[OF Cons.prems(1) t] b by auto
    then have i: "counter_run ops (count s - 1) = map_option (\<lambda>(rs, s'). (rs, count s')) (run_ops w t g ops s1)"
      using Cons.IH[of s1] Cons.prems(2) TryWait by simp
    show ?thesis using t b TryWait i by (simp add: option.map_comp o_def split_beta)
  next
    case (Signal n)
    then show ?thesis using signal_adds[of s n] Cons.IH[of "g n s"] Cons.prems by auto
  qed
qed simp

end

subsection \<open>The wrappers keep the contract\<close>

text \<open>POSIX: the environment is the number of interruptions. Windows has none.\<close>

definition posix_run :: "nat sem_op list \<Rightarrow> nat \<Rightarrow> (bool list \<times> nat) option" where
  "posix_run = run_ops (\<lambda>e. Semaphore_wait e 0) Semaphore_try_wait Semaphore_signal"

definition win_run :: "nat sem_op list \<Rightarrow> nat option \<Rightarrow> (bool list \<times> nat option) option" where
  "win_run = run_ops (\<lambda>e h. Win_Semaphore_wait h (\<lambda>_. 0)) (\<lambda>e h. the (Win_Semaphore_try_wait h)) (\<lambda>n. Win_Semaphore_signal (int n))"

text \<open>Mach, as long as no wait is aborted; the environment says which tries are.\<close>

definition mach_run :: "bool sem_op list \<Rightarrow> nat \<Rightarrow> (bool list \<times> nat) option" where
  "mach_run = run_ops (\<lambda>e. Mach_Semaphore_wait False 0) Mach_Semaphore_try_wait Mach_Semaphore_signal"

lemma Mach_Semaphore_signal_eq: "Mach_Semaphore_signal n k = k + n"
  by (induction n arbitrary: k) simp_all

lemma Win_try_total: "Win_Semaphore_try_wait (Some k) = Some (0 < k, Some (k - 1))"
  by (simp add: Win_Semaphore_try_wait_def WaitForSingleObject_def RC_WAIT_TIMEOUT_def infinite_def)

lemmas win_defs = Win_Semaphore_wait_def Win_Semaphore_signal_def ReleaseSemaphore_def WaitForSingleObject_def Win_try_total

interpretation posix: exact_semaphore "\<lambda>k. k" "\<lambda>_. True" n "\<lambda>e. Semaphore_wait e 0" Semaphore_try_wait Semaphore_signal for n
  by unfold_locales (auto simp: Semaphore_wait_eq Semaphore_try_wait_eq Semaphore_signal_eq split: if_splits)

interpretation windows: exact_semaphore the "\<lambda>h. h \<noteq> None" maxLong
    "\<lambda>e h. Win_Semaphore_wait h (\<lambda>_. 0)" "\<lambda>e h. the (Win_Semaphore_try_wait h)" "\<lambda>n. Win_Semaphore_signal (int n)"
  by unfold_locales (auto simp: win_defs split: if_splits)

interpretation mach: counting_semaphore "\<lambda>k. k" "\<lambda>_. True" n "\<lambda>e. Mach_Semaphore_wait False 0" Mach_Semaphore_try_wait Mach_Semaphore_signal for n
  by unfold_locales
    (auto simp: Mach_Semaphore_wait_def semaphore_wait_def Mach_Semaphore_try_wait_def Mach_Semaphore_timed_wait_def
      semaphore_timedwait_def Mach_Semaphore_signal_eq split: if_splits)

subsection \<open>Theorems\<close>

text \<open>C27: The POSIX and the Windows semaphore are the same counting semaphore: every sequence of waits, tries and signals that
  stays within the limit of Windows gives the results of a counter on both, however often the calls
  of POSIX are interrupted, and leaves the same count.\<close>

theorem posix_windows_alike:
  assumes "k + signals ops \<le> maxLong"
  shows "posix_run ops k = counter_run ops k \<and>
    map_option (\<lambda>(rs, h). (rs, the h)) (win_run ops (Some k)) = counter_run ops k"
  using posix.run_counter[of k ops maxLong] windows.run_counter[of "Some k" ops] assms
  by (simp add: posix_run_def win_run_def option.map_id0)

theorem posix_windows_alike_witness:
  "posix_run [Signal 2, Wait 3, TryWait 1, TryWait 0] 0 = Some ([True, True, False], 0) \<and>
   map_option (\<lambda>(rs, h). (rs, the h)) (win_run [Signal 2, Wait 3, TryWait 1, TryWait 0] (Some 0)) = Some ([True, True, False], 0)"
  using posix_windows_alike[of 0 "[Signal 2, Wait 3, TryWait 1, TryWait 0]"] by (simp add: maxLong_def)

text \<open>C28: No unit of a Mach semaphore is lost or taken twice while no \<^verbatim>\<open>wait\<close> is aborted, whichever tries are; an aborted
  \<^verbatim>\<open>wait\<close> returns like one that succeeded, without having taken a unit, where the POSIX wrapper tries
  again.\<close>

theorem mach_wait_aborted:
  "(\<forall>ops k. case mach_run ops k of None \<Rightarrow> True | Some (rs, k') \<Rightarrow> k' + taken rs = k + signals ops) \<and>
   Mach_Semaphore_wait True posted k = Some k \<and> Mach_Semaphore_try_wait True k = (False, k) \<and>
   Semaphore_wait intr posted k = (if k + posted = 0 then None else Some (k + posted - 1))"
proof (intro conjI allI)
  fix ops :: "bool sem_op list" and k :: nat
  show "case mach_run ops k of None \<Rightarrow> True | Some (rs, k') \<Rightarrow> k' + taken rs = k + signals ops"
    using mach.run_balance[of k ops "k + signals ops"] by (auto simp: mach_run_def split: option.splits)
qed (simp_all add: Mach_Semaphore_wait_def semaphore_wait_def Mach_Semaphore_try_wait_def Mach_Semaphore_timed_wait_def
      semaphore_timedwait_def Semaphore_wait_eq)

text \<open>Timeouts of the ports: Windows waits for the whole milliseconds modulo 2^32, so a timeout below a millisecond polls,
  one of 2^32 - 1 milliseconds blocks for good when no signal comes, and a longer one is cut short; on
  a null handle the wait reports success. Mach gets a normalised time, exact below 2^32 seconds.\<close>

theorem port_timeouts:
  "unat (win_timeout usecs) = unat usecs div 1000 mod 2 ^ 32 \<and>
   (Win_Semaphore_timed_wait (Some 0) usecs (\<lambda>_. 0) = None \<longleftrightarrow> unat usecs div 1000 mod 2 ^ 32 = 2 ^ 32 - 1) \<and>
   Win_Semaphore_timed_wait None usecs posted = Some (True, None) \<and>
   (0 \<le> t \<and> t < 2 ^ 32 * 1000000 \<longrightarrow>
      0 \<le> mach_nsec (mach_deadline t) \<and> mach_nsec (mach_deadline t) < 1000000000 \<and>
      uint (mach_sec (mach_deadline t)) * 1000000000 + mach_nsec (mach_deadline t) = t * 1000)"
proof (intro conjI impI)
  show u: "unat (win_timeout usecs) = unat usecs div 1000 mod 2 ^ 32"
    by (simp add: win_timeout_def unsigned_ucast_eq take_bit_eq_mod unat_div_distrib)
  have "win_timeout usecs = infinite \<longleftrightarrow> unat (win_timeout usecs) = 2 ^ 32 - 1"
    by (simp add: infinite_def word_unat_eq_iff)
  then show "Win_Semaphore_timed_wait (Some 0) usecs (\<lambda>_. 0) = None \<longleftrightarrow> unat usecs div 1000 mod 2 ^ 32 = 2 ^ 32 - 1"
    using u by (simp add: Win_Semaphore_timed_wait_def WaitForSingleObject_def)
  show "Win_Semaphore_timed_wait None usecs posted = Some (True, None)"
    by (simp add: Win_Semaphore_timed_wait_def WaitForSingleObject_def WAIT_FAILED_def RC_WAIT_TIMEOUT_def)
  assume t: "0 \<le> t \<and> t < 2 ^ 32 * 1000000"
  have d: "t sdiv 1000000 = t div 1000000" "t smod 1000000 = t mod 1000000" using t
    by (simp_all add: signed_divide_int_def signed_modulo_int_def sgn_if)
  have "0 \<le> t div 1000000" "t div 1000000 < 2 ^ 32" using t by linarith+
  then have "uint (word_of_int (t div 1000000) :: 32 word) = t div 1000000" by (simp add: uint_word_of_int)
  moreover have "t div 1000000 * 1000000000 + t mod 1000000 * 1000 = t * 1000" using div_mult_mod_eq[of t 1000000] by linarith
  ultimately show "0 \<le> mach_nsec (mach_deadline t)" "mach_nsec (mach_deadline t) < 1000000000"
    "uint (mach_sec (mach_deadline t)) * 1000000000 + mach_nsec (mach_deadline t) = t * 1000"
    by (simp_all add: mach_deadline_def d)
qed

theorem port_timeouts_witness:
  "unat (win_timeout 500) = 0 \<and> uint (mach_sec (mach_deadline 2500000)) * 1000000000 + mach_nsec (mach_deadline 2500000) = 2500000000"
  using port_timeouts[of 500 "\<lambda>_. 0" 2500000] by simp

end
