(* ===== verification/Log_Message.thy ===== *)
theory Log_Message
  imports Cpu_Time
begin

text \<open>
  The data of the logger, \<^verbatim>\<open>logger.hpp\<close> and the first half of \<^verbatim>\<open>logger.cpp\<close>: items and messages,
  their constructors, the stream operators that append text or a number to a message, and the
  text a message is printed as. A member that a constructor leaves uninitialised is an
  argument (\<open>indeterminate\<close>): the lemmas hold whatever its value. Strings hold no terminating
  zero, \<^verbatim>\<open>std::string\<close> and \<^verbatim>\<open>const char *\<close> are both lists of characters.
\<close>

subsection \<open>Items and messages\<close>

record LogItem =
  item_name :: string
  item_data :: string

definition LogItem_ctor :: "string \<Rightarrow> LogItem" where
  "LogItem_ctor nm = \<lparr>item_name = nm, item_data = ''''\<rparr>"

record LogMessage =
  filename :: string
  function_name :: string
  line_no :: int
  log_level :: int
  when_logged :: timespec
  items :: "LogItem list"

definition LOG_INFO :: int where
  "LOG_INFO = 3"

definition LogMessage_ctor :: "timespec \<Rightarrow> string \<Rightarrow> string \<Rightarrow> int \<Rightarrow> int \<Rightarrow> LogMessage" where
  "LogMessage_ctor indeterminate fl fn lno lvl =
     \<lparr>filename = fl, function_name = fn, line_no = lno, log_level = lvl, when_logged = indeterminate, items = []\<rparr>"

text \<open>The copy constructor names every member but \<^verbatim>\<open>when\<close>, which stays uninitialised.\<close>

definition LogMessage_copy :: "timespec \<Rightarrow> LogMessage \<Rightarrow> LogMessage" where
  "LogMessage_copy indeterminate orig =
     \<lparr>filename = filename orig, function_name = function_name orig, line_no = line_no orig,
      log_level = log_level orig, when_logged = indeterminate, items = items orig\<rparr>"

definition LogMessage_set :: "string \<Rightarrow> string \<Rightarrow> int \<Rightarrow> int \<Rightarrow> LogMessage \<Rightarrow> LogMessage" where
  "LogMessage_set fl fn lno lvl lm = lm\<lparr>filename := fl, function_name := fn, line_no := lno, log_level := lvl\<rparr>"

subsection \<open>Numbers in a stream\<close>

definition digit :: "nat \<Rightarrow> char" where
  "digit d = char_of (48 + d)"

fun show_nat :: "nat \<Rightarrow> string" where
  "show_nat n = (if n < 10 then [digit n] else show_nat (n div 10) @ [digit (n mod 10)])"

declare show_nat.simps [simp del]

definition show_int :: "int \<Rightarrow> string" where
  "show_int i = (if i < 0 then CHR ''-'' # show_nat (nat (- i)) else show_nat (nat i))"

subsection \<open>Stream operators\<close>

definition log_text :: "LogMessage \<Rightarrow> string \<Rightarrow> LogMessage" where
  "log_text lm m = (let msg = LogItem_ctor ''msg'' in lm\<lparr>items := items lm @ [msg\<lparr>item_data := m\<rparr>]\<rparr>)"

definition log_int :: "LogMessage \<Rightarrow> int \<Rightarrow> LogMessage" where
  "log_int lm m = (let msg = LogItem_ctor ''msg'' in lm\<lparr>items := items lm @ [msg\<lparr>item_data := show_int m\<rparr>]\<rparr>)"

definition print_LogItem :: "string \<Rightarrow> LogItem \<Rightarrow> string" where
  "print_LogItem os li = os @ item_name li @ '' '' @ item_data li"

definition newline :: char where
  "newline = CHR 0x0A"

definition print_when :: "timespec \<Rightarrow> string" where
  "print_when w = show_int (tv_sec w) @ ''.'' @ show_int (tv_nsec w)"

definition print_LogMessage :: "string \<Rightarrow> LogMessage \<Rightarrow> string" where
  "print_LogMessage os lm =
     foldl (\<lambda>o' i. print_LogItem o' i @ '' '')
       (os @ print_when (when_logged lm) @ '': '' @ filename lm @ '':'' @ show_int (line_no lm) @ '' '')
       (items lm) @ [newline]"

subsection \<open>Reading numbers back\<close>

definition read_digit :: "char \<Rightarrow> nat" where
  "read_digit c = of_char c - 48"

definition read_nat :: "string \<Rightarrow> nat" where
  "read_nat s = foldl (\<lambda>a c. 10 * a + read_digit c) 0 s"

definition read_int :: "string \<Rightarrow> int" where
  "read_int s = (case s of [] \<Rightarrow> 0 | c # cs \<Rightarrow> if c = CHR ''-'' then - int (read_nat cs) else int (read_nat s))"

lemma read_digit [simp]: "d < 10 \<Longrightarrow> read_digit (digit d) = d"
  by (simp add: read_digit_def digit_def)

definition is_digit :: "char \<Rightarrow> bool" where
  "is_digit c \<longleftrightarrow> 48 \<le> (of_char c :: nat) \<and> (of_char c :: nat) < 58"

lemma is_digit_digit: "d < 10 \<Longrightarrow> is_digit (digit d)"
  by (simp add: is_digit_def digit_def)

lemma show_nat_digits: "c \<in> set (show_nat n) \<Longrightarrow> is_digit c"
proof (induction n rule: show_nat.induct)
  case (1 n)
  show ?case
  proof (cases "n < 10")
    case True
    then show ?thesis using 1(2) by (simp add: show_nat.simps[of n] is_digit_digit)
  next
    case False
    then show ?thesis using 1 is_digit_digit[of "n mod 10"] by (auto simp: show_nat.simps[of n])
  qed
qed

lemma show_nat_nonempty [simp]: "show_nat n \<noteq> []"
  by (subst show_nat.simps) simp

lemma read_show_nat [simp]: "read_nat (show_nat n) = n"
proof (induction n rule: show_nat.induct)
  case (1 n)
  show ?case
  proof (cases "n < 10")
    case True
    then show ?thesis by (subst show_nat.simps) (simp add: read_nat_def)
  next
    case False
    then show ?thesis using 1 by (subst show_nat.simps) (simp add: read_nat_def)
  qed
qed

lemma not_digit: "\<not> is_digit CHR ''-''" "\<not> is_digit CHR ''.''" "\<not> is_digit CHR '':''" "\<not> is_digit newline"
  by (simp_all add: is_digit_def newline_def)

lemma read_show_int [simp]: "read_int (show_int i) = i"
proof (cases "i < 0")
  case True
  then show ?thesis by (simp add: show_int_def read_int_def)
next
  case False
  obtain c cs where s: "show_nat (nat i) = c # cs" by (cases "show_nat (nat i)") simp_all
  then have "c \<noteq> CHR ''-''" using show_nat_digits[of c "nat i"] not_digit by auto
  then show ?thesis using False s read_show_nat[of "nat i"] by (simp add: show_int_def read_int_def)
qed

lemma show_int_inj [simp]: "show_int i = show_int j \<longleftrightarrow> i = j"
  by (metis read_show_int)

lemma show_int_chars: "c \<in> set (show_int i) \<Longrightarrow> is_digit c \<or> c = CHR ''-''"
  using show_nat_digits by (auto simp: show_int_def split: if_splits)

subsection \<open>Shape of the printed text\<close>

lemma print_LogMessage_eq:
  "print_LogMessage os lm =
     os @ print_when (when_logged lm) @ '': '' @ filename lm @ '':'' @ show_int (line_no lm) @ '' '' @
     concat (map (\<lambda>i. item_name i @ '' '' @ item_data i @ '' '') (items lm)) @ [newline]"
proof -
  have "foldl (\<lambda>o' i. print_LogItem o' i @ '' '') x is =
      x @ concat (map (\<lambda>i. item_name i @ '' '' @ item_data i @ '' '') is)" for x "is"
    by (induction "is" arbitrary: x) (simp_all add: print_LogItem_def)
  then show ?thesis by (simp add: print_LogMessage_def)
qed

definition one_line :: "LogMessage \<Rightarrow> bool" where
  "one_line lm \<longleftrightarrow> newline \<notin> set (filename lm) \<and>
     (\<forall>i \<in> set (items lm). newline \<notin> set (item_name i) \<and> newline \<notin> set (item_data i))"

lemma newline_not_in_show_int: "newline \<notin> set (show_int i)"
  using show_int_chars[of newline i] not_digit by (auto simp: newline_def)

lemma print_when_inj: "print_when v = print_when w \<longleftrightarrow> tv_sec v = tv_sec w \<and> tv_nsec v = tv_nsec w"
proof
  have sep: "CHR ''.'' \<notin> set (show_int i)" for i using show_int_chars[of "CHR ''.''" i] not_digit by auto
  assume "print_when v = print_when w"
  then have e: "show_int (tv_sec v) @ CHR ''.'' # show_int (tv_nsec v) =
      show_int (tv_sec w) @ CHR ''.'' # show_int (tv_nsec w)" by (simp add: print_when_def)
  have "takeWhile (\<lambda>c. c \<noteq> CHR ''.'') (show_int i @ CHR ''.'' # s) = show_int i" for i s
    using sep[of i] by (subst takeWhile_append2) auto
  with e have "show_int (tv_sec v) = show_int (tv_sec w)" by metis
  then show "tv_sec v = tv_sec w \<and> tv_nsec v = tv_nsec w" using e by simp
qed (simp add: print_when_def)

subsection \<open>Theorems\<close>


text \<open>A message without line breaks in its texts is printed as exactly one line, whose time
  stamp determines the logged time; the nanoseconds are not padded, so that five nanoseconds
  after second 1 is printed as \<^verbatim>\<open>1.5\<close>.\<close>

theorem message_is_one_line:
  assumes "one_line lm"
  shows "\<exists>line. print_LogMessage os lm = os @ line @ [newline] \<and> newline \<notin> set line \<and>
    (\<exists>rest. line = print_when (when_logged lm) @ '': '' @ rest) \<and>
    (print_when v = print_when w \<longleftrightarrow> tv_sec v = tv_sec w \<and> tv_nsec v = tv_nsec w) \<and>
    print_when \<lparr>tv_sec = 1, tv_nsec = 5\<rparr> = ''1.5''"
proof -
  let ?rest = "filename lm @ '':'' @ show_int (line_no lm) @ '' '' @
      concat (map (\<lambda>i. item_name i @ '' '' @ item_data i @ '' '') (items lm))"
  have "newline \<notin> set (print_when (when_logged lm) @ '': '' @ ?rest)"
    using assms newline_not_in_show_int by (auto simp: one_line_def print_when_def newline_def)
  moreover have "print_when \<lparr>tv_sec = 1, tv_nsec = 5\<rparr> = ''1.5''"
    by (simp add: print_when_def show_int_def show_nat.simps digit_def char_of_def bit_0)
  ultimately show ?thesis using print_when_inj
    by (intro exI[of _ "print_when (when_logged lm) @ '': '' @ ?rest"]) (auto simp: print_LogMessage_eq)
qed

theorem message_is_one_line_witness:
  "\<exists>line. print_LogMessage '''' (LogMessage_ctor \<lparr>tv_sec = 1, tv_nsec = 5\<rparr> ''a.cpp'' ''f'' 7 LOG_INFO) = '''' @ line @ [newline] \<and>
    newline \<notin> set line"
proof -
  let ?lm = "LogMessage_ctor \<lparr>tv_sec = 1, tv_nsec = 5\<rparr> ''a.cpp'' ''f'' 7 LOG_INFO"
  have "one_line ?lm" by (simp add: one_line_def LogMessage_ctor_def newline_def)
  from message_is_one_line[OF this, of "''''" "\<lparr>tv_sec = 1, tv_nsec = 5\<rparr>" "\<lparr>tv_sec = 1, tv_nsec = 5\<rparr>"] show ?thesis by blast
qed

end
