(* ===== verification/Logger.thy ===== *)
theory Logger
  imports Log_Message Blocking_Queue
begin

text \<open>
  The producing side of \<^verbatim>\<open>logger.cpp\<close>, with \<^verbatim>\<open>uvmutex.cpp\<close>: one \<^verbatim>\<open>ThreadLogger\<close> per thread, created
  and registered by the first message of the thread, and \<^verbatim>\<open>real_log_msg\<close>, which puts a copy of
  the message into the queue of the calling thread. A \<^verbatim>\<open>shared_ptr\<close> to a message is the address
  of the message together with the message, which nobody changes once it is queued.

  The allocator of the queues, the addresses that \<^verbatim>\<open>new\<close> returns, the clock, the process id and
  the value of uninitialised members are arguments, in \<open>log_env\<close>.
\<close>

subsection \<open>State\<close>

type_synonym tid = nat
type_synonym msg_ptr = "addr \<times> LogMessage"

record ThreadLogger =
  closed :: bool
  messages :: "msg_ptr bq"

record thread_locals =
  tl_logger :: addr
  tl_initialized :: bool
  tl_closer :: "addr option"

record log_sys =
  logger_mutex :: "tid option"
  loggers :: "addr list"
  logger_at :: "addr \<rightharpoonup> ThreadLogger"
  locals :: "tid \<Rightarrow> thread_locals"

record log_env =
  queue_env :: "msg_ptr env"
  new_logger :: "log_sys \<Rightarrow> addr"
  new_msg :: "log_sys \<Rightarrow> addr"
  clock :: timespec
  indeterminate :: timespec
  getpid :: int
  this_file :: string

subsection \<open>UvMutex\<close>

text \<open>The mutex is not recursive; \<open>None\<close> is a thread that waits for it.\<close>

definition UvMutex_lock :: "tid \<Rightarrow> log_sys \<Rightarrow> log_sys option" where
  "UvMutex_lock t st = (case logger_mutex st of None \<Rightarrow> Some (st\<lparr>logger_mutex := Some t\<rparr>) | Some _ \<Rightarrow> None)"

definition UvMutex_unlock :: "log_sys \<Rightarrow> log_sys" where
  "UvMutex_unlock st = st\<lparr>logger_mutex := None\<rparr>"

subsection \<open>Thread loggers\<close>

definition ThreadLogger_ctor :: "log_env \<Rightarrow> ThreadLogger res" where
  "ThreadLogger_ctor E =
     bindE (BlockingReaderWriterQueue_ctor (queue_env E) 15 Map.empty) (\<lambda>(r, h).
       case r of None \<Rightarrow> Inl BadAlloc | Some q \<Rightarrow> Inr \<lparr>closed = False, messages = q\<rparr>)"

definition get_logger :: "log_sys \<Rightarrow> addr \<Rightarrow> ThreadLogger res" where
  "get_logger st p = (case logger_at st p of None \<Rightarrow> Inl BadPointer | Some L \<Rightarrow> Inr L)"

text \<open>\<^verbatim>\<open>new ThreadLogger()\<close>, assigned to the thread-local pointer, and the thread-local \<^verbatim>\<open>LogCloser\<close>.\<close>

definition create_logger :: "log_env \<Rightarrow> tid \<Rightarrow> log_sys \<Rightarrow> log_sys res" where
  "create_logger E t st =
     (let p = new_logger E st in
      if p = nullptr then Inl BadAlloc
      else bindE (ThreadLogger_ctor E) (\<lambda>L.
        Inr (st\<lparr>logger_at := (logger_at st)(p \<mapsto> L),
                locals := (locals st)(t := (locals st t)\<lparr>tl_logger := p, tl_closer := Some p\<rparr>)\<rparr>)))"

text \<open>The destructor of \<^verbatim>\<open>LogCloser\<close>, run when the thread ends.\<close>

definition LogCloser_dtor :: "tid \<Rightarrow> log_sys \<Rightarrow> log_sys res" where
  "LogCloser_dtor t st =
     (case tl_closer (locals st t) of
        None \<Rightarrow> Inr st
      | Some p \<Rightarrow> bindE (get_logger st p) (\<lambda>L. Inr (st\<lparr>logger_at := (logger_at st)(p \<mapsto> L\<lparr>closed := True\<rparr>)\<rparr>)))"

definition register_logger :: "tid \<Rightarrow> log_sys \<Rightarrow> log_sys" where
  "register_logger t st =
     st\<lparr>loggers := loggers st @ [tl_logger (locals st t)],
        locals := (locals st)(t := (locals st t)\<lparr>tl_initialized := True\<rparr>)\<rparr>"

text \<open>The message of \<^verbatim>\<open>log_info\<close> in \<^verbatim>\<open>get_thread_logger\<close>.\<close>

definition first_message :: "log_env \<Rightarrow> LogMessage" where
  "first_message E =
     log_text (log_int (log_text
       (LogMessage_ctor (indeterminate E) (this_file E) ''ThreadLogger* get_thread_logger()'' 69 LOG_INFO)
       ''New logger for thread with pid '') (getpid E)) '' started''"

definition enqueue_message :: "log_env \<Rightarrow> addr \<Rightarrow> LogMessage \<Rightarrow> log_sys \<Rightarrow> (LogMessage \<times> log_sys) res" where
  "enqueue_message E logger item st =
     (let item' = item\<lparr>when_logged := clock E\<rparr>;
          newmsg = (new_msg E st, LogMessage_copy (indeterminate E) item')
      in bindE (get_logger st logger) (\<lambda>L.
         bindE (b_enqueue CanAlloc newmsg (messages L)) (\<lambda>(ok, q).
         Inr (item', st\<lparr>logger_at := (logger_at st)(logger \<mapsto> L\<lparr>messages := q\<rparr>)\<rparr>))))"

text \<open>
  \<^verbatim>\<open>get_thread_logger\<close> and \<^verbatim>\<open>real_log_msg\<close> call each other: the first message of a thread is
  logged, with the mutex held, before the call that caused it goes on. In \<open>get_thread_logger\<close> this
  call of \<^verbatim>\<open>real_log_msg\<close> is written out; \<open>get_thread_logger_calls\<close> below folds it back. The recursion
  ends because the thread is initialised by then.
\<close>

function get_thread_logger :: "log_env \<Rightarrow> tid \<Rightarrow> log_sys \<Rightarrow> (addr \<times> log_sys) res option" where
  "get_thread_logger E t st =
     (if tl_initialized (locals st t) then Some (Inr (tl_logger (locals st t), st))
      else case create_logger E t st of
        Inl e \<Rightarrow> Some (Inl e)
      | Inr st1 \<Rightarrow>
          case UvMutex_lock t st1 of
            None \<Rightarrow> None
          | Some st2 \<Rightarrow>
              case get_thread_logger E t (register_logger t st2) of
                None \<Rightarrow> None
              | Some (Inl e) \<Rightarrow> Some (Inl e)
              | Some (Inr (logger, st3)) \<Rightarrow>
                  case enqueue_message E logger (first_message E) st3 of
                    Inl e \<Rightarrow> Some (Inl e)
                  | Inr (_, st4) \<Rightarrow> Some (Inr (tl_logger (locals st4 t), UvMutex_unlock st4)))"
  by pat_completeness auto

termination
  by (relation "measure (\<lambda>(E, t, st). if tl_initialized (locals st t) then 0 else 1)") (auto simp: register_logger_def)

definition real_log_msg :: "log_env \<Rightarrow> tid \<Rightarrow> LogMessage \<Rightarrow> log_sys \<Rightarrow> (LogMessage \<times> log_sys) res option" where
  "real_log_msg E t item st =
     (case get_thread_logger E t st of
        None \<Rightarrow> None
      | Some (Inl e) \<Rightarrow> Some (Inl e)
      | Some (Inr (logger, st1)) \<Rightarrow> Some (enqueue_message E logger item st1))"

declare get_thread_logger.simps [simp del]

lemma get_thread_logger_calls:
  "get_thread_logger E t st =
     (if tl_initialized (locals st t) then Some (Inr (tl_logger (locals st t), st))
      else case create_logger E t st of
        Inl e \<Rightarrow> Some (Inl e)
      | Inr st1 \<Rightarrow>
          case UvMutex_lock t st1 of
            None \<Rightarrow> None
          | Some st2 \<Rightarrow>
              case real_log_msg E t (first_message E) (register_logger t st2) of
                None \<Rightarrow> None
              | Some (Inl e) \<Rightarrow> Some (Inl e)
              | Some (Inr (_, st3)) \<Rightarrow> Some (Inr (tl_logger (locals st3 t), UvMutex_unlock st3)))"
  by (subst get_thread_logger.simps) (simp add: real_log_msg_def split: option.split sum.split prod.split)

text \<open>The macro \<^verbatim>\<open>log_messsage\<close>: a message built from the streamed arguments, then logged.\<close>

datatype log_arg = Text string | Num int

definition stream_arg :: "LogMessage \<Rightarrow> log_arg \<Rightarrow> LogMessage" where
  "stream_arg lm a = (case a of Text s \<Rightarrow> log_text lm s | Num i \<Rightarrow> log_int lm i)"

definition log_messsage ::
  "log_env \<Rightarrow> tid \<Rightarrow> string \<Rightarrow> string \<Rightarrow> int \<Rightarrow> int \<Rightarrow> log_arg list \<Rightarrow> log_sys \<Rightarrow> (LogMessage \<times> log_sys) res option" where
  "log_messsage E t fl fn lno lvl args st =
     real_log_msg E t (foldl stream_arg (LogMessage_ctor (indeterminate E) fl fn lno lvl) args) st"

subsection \<open>Invariant\<close>

text \<open>
  \<open>log_rep st vs\<close>: the registered loggers are distinct and their queues hold the messages \<open>vs\<close>;
  every initialised thread owns a registered logger, and no two threads share one.
\<close>

definition log_env_ok :: "log_env \<Rightarrow> bool" where
  "log_env_ok E \<longleftrightarrow> env_ok (queue_env E) \<and>
     (\<forall>st. new_logger E st = nullptr \<or> new_logger E st \<notin> set (loggers st) \<and> logger_at st (new_logger E st) = None)"

definition queues_ok :: "log_sys \<Rightarrow> (addr \<Rightarrow> msg_ptr list) \<Rightarrow> bool" where
  "queues_ok st vs \<longleftrightarrow> (\<forall>p \<in> set (loggers st). \<exists>L. logger_at st p = Some L \<and> bq_rep (messages L) (vs p))"

definition owners_ok :: "log_sys \<Rightarrow> bool" where
  "owners_ok st \<longleftrightarrow>
     (\<forall>t. tl_initialized (locals st t) \<longrightarrow>
        tl_logger (locals st t) \<in> set (loggers st) \<and> tl_closer (locals st t) = Some (tl_logger (locals st t))) \<and>
     inj_on (\<lambda>t. tl_logger (locals st t)) {t. tl_initialized (locals st t)}"

definition log_rep :: "log_sys \<Rightarrow> (addr \<Rightarrow> msg_ptr list) \<Rightarrow> bool" where
  "log_rep st vs \<longleftrightarrow> distinct (loggers st) \<and> queues_ok st vs \<and> owners_ok st"

lemma LogMessage_copy_when [simp]: "LogMessage_copy w (m\<lparr>when_logged := c\<rparr>) = LogMessage_copy w m"
  by (simp add: LogMessage_copy_def)

lemma ThreadLogger_ctor_ok:
  assumes "env_ok (queue_env E)"
  shows "ThreadLogger_ctor E = Inl BadAlloc \<or>
    (\<exists>q. ThreadLogger_ctor E = Inr \<lparr>closed = False, messages = q\<rparr> \<and> bq_rep q [])"
proof -
  obtain r h where "BlockingReaderWriterQueue_ctor (queue_env E) 15 Map.empty = Inr (r, h)"
    "case r of None \<Rightarrow> \<exists>sz. size_ok (queue_env E) sz \<and> alloc_fails (queue_env E) sz h | Some q \<Rightarrow> bq_rep q []"
    using BlockingReaderWriterQueue_ctor_ok[OF assms, of Map.empty 15] by (auto simp: heap_ok_def)
  then show ?thesis by (cases r) (simp_all add: ThreadLogger_ctor_def)
qed

lemma queues_ok_upd:
  assumes "queues_ok st vs" "p \<in> set (loggers st)" "bq_rep (messages L) ws"
  shows "queues_ok (st\<lparr>logger_at := (logger_at st)(p \<mapsto> L)\<rparr>) (vs(p := ws))"
  using assms by (auto simp: queues_ok_def)

text \<open>\<open>queued E st p item st'\<close>: the copy of the message is at the end of the queue of \<open>p\<close>, or the
  allocator has refused a block for it.\<close>

definition queued :: "log_env \<Rightarrow> log_sys \<Rightarrow> (addr \<Rightarrow> msg_ptr list) \<Rightarrow> addr \<Rightarrow> LogMessage \<Rightarrow> log_sys \<Rightarrow>
    (addr \<Rightarrow> msg_ptr list) \<Rightarrow> bool" where
  "queued E st vs p item st' vs' \<longleftrightarrow>
     log_rep st' vs' \<and> loggers st' = loggers st \<and> locals st' = locals st \<and> logger_mutex st' = logger_mutex st \<and>
     (\<exists>L. logger_at st' = (logger_at st)(p \<mapsto> L) \<and>
       (vs' = vs(p := vs p @ [(new_msg E st, LogMessage_copy (indeterminate E) item)]) \<or>
        vs' = vs \<and> out_of_memory (messages L)))"

lemma enqueue_message_ok:
  assumes r: "log_rep st vs" and p: "p \<in> set (loggers st)"
  shows "\<exists>st' vs'. enqueue_message E p item st = Inr (item\<lparr>when_logged := clock E\<rparr>, st') \<and> queued E st vs p item st' vs'"
proof -
  let ?m = "(new_msg E st, LogMessage_copy (indeterminate E) item)"
  obtain L where L: "logger_at st p = Some L" "bq_rep (messages L) (vs p)"
    using r p by (auto simp: log_rep_def queues_ok_def)
  obtain ok q where e: "b_enqueue CanAlloc ?m (messages L) = Inr (ok, q)"
    "bq_rep q (if ok then vs p @ [?m] else vs p)" using bq.enq_law[OF L(2)] by blast
  let ?L = "L\<lparr>messages := q\<rparr>"
  let ?st = "st\<lparr>logger_at := (logger_at st)(p \<mapsto> ?L)\<rparr>"
  let ?vs = "vs(p := if ok then vs p @ [?m] else vs p)"
  have "log_rep ?st ?vs"
    using r queues_ok_upd[OF _ p, of vs ?L] e(2) by (simp add: log_rep_def owners_ok_def)
  moreover have "out_of_memory q" if "\<not> ok" using b_enqueue_refused[OF L(2)] e(1) that by auto
  ultimately have "queued E st vs p item ?st ?vs"
    by (cases ok) (auto simp: queued_def intro!: exI[of _ ?L])
  then show ?thesis using L(1) e(1)
    by (intro exI[of _ ?st] exI[of _ ?vs]) (simp add: enqueue_message_def get_logger_def)
qed

text \<open>The fast path: an initialised thread logs without the mutex.\<close>

lemma get_thread_logger_again:
  "tl_initialized (locals st t) \<Longrightarrow> get_thread_logger E t st = Some (Inr (tl_logger (locals st t), st))"
  by (simp add: get_thread_logger_calls)

lemma real_log_msg_again:
  "tl_initialized (locals st t) \<Longrightarrow>
   real_log_msg E t item st = Some (enqueue_message E (tl_logger (locals st t)) item st)"
  by (simp add: real_log_msg_def get_thread_logger_again)

lemma owner_registered: "log_rep st vs \<Longrightarrow> tl_initialized (locals st t) \<Longrightarrow> tl_logger (locals st t) \<in> set (loggers st)"
  by (simp add: log_rep_def owners_ok_def)

text \<open>The slow path: the logger is created and registered, then the first message is queued.\<close>

definition registered :: "tid \<Rightarrow> addr \<Rightarrow> log_sys \<Rightarrow> log_sys \<Rightarrow> bool" where
  "registered t p st st' \<longleftrightarrow> p \<notin> set (loggers st) \<and> loggers st' = loggers st @ [p] \<and>
     locals st' = (locals st)(t := \<lparr>tl_logger = p, tl_initialized = True, tl_closer = Some p\<rparr>) \<and>
     (\<forall>x. x \<noteq> p \<longrightarrow> logger_at st' x = logger_at st x)"

lemma create_logger_ok:
  assumes E: "log_env_ok E" and r: "log_rep st vs" and i: "\<not> tl_initialized (locals st t)"
  shows "create_logger E t st = Inl BadAlloc \<or>
    (\<exists>st1. create_logger E t st = Inr st1 \<and> logger_mutex st1 = logger_mutex st \<and>
      log_rep (register_logger t st1) (vs(new_logger E st := [])) \<and> registered t (new_logger E st) st (register_logger t st1))"
proof (cases "create_logger E t st")
  case (Inl e)
  then show ?thesis using ThreadLogger_ctor_ok[of E] E by (auto simp: create_logger_def log_env_ok_def Let_def split: if_splits)
next
  case (Inr st1)
  let ?p = "new_logger E st"
  have p: "?p \<notin> set (loggers st)" "logger_at st ?p = None"
    using E Inr by (auto simp: log_env_ok_def create_logger_def Let_def split: if_splits)
  obtain q where q: "ThreadLogger_ctor E = Inr \<lparr>closed = False, messages = q\<rparr>" "bq_rep q []"
    using ThreadLogger_ctor_ok[of E] E Inr by (auto simp: create_logger_def log_env_ok_def Let_def split: if_splits)
  define L where "L = \<lparr>closed = False, messages = q\<rparr>"
  then have L: "bq_rep (messages L) []" "st1 = st\<lparr>logger_at := (logger_at st)(?p \<mapsto> L),
      locals := (locals st)(t := (locals st t)\<lparr>tl_logger := ?p, tl_closer := Some ?p\<rparr>)\<rparr>"
    using q Inr by (auto simp: create_logger_def Let_def split: if_splits)
  have "queues_ok (register_logger t st1) (vs(?p := []))"
    using r p L by (auto simp: log_rep_def queues_ok_def register_logger_def)
  moreover have "owners_ok (register_logger t st1)"
    using r p L(2) i by (auto simp: log_rep_def owners_ok_def register_logger_def inj_on_def)
  ultimately have "log_rep (register_logger t st1) (vs(?p := []))"
    using r p L(2) by (simp add: log_rep_def register_logger_def)
  moreover have "registered t ?p st (register_logger t st1)"
    using p L(2) by (auto simp: registered_def register_logger_def)
  ultimately show ?thesis using Inr L(2) by auto
qed

text \<open>\<open>opened E t st vs p st' vs'\<close>: the thread got its logger \<open>p\<close>, with the first message in its queue
  unless the allocator refused a block, and the mutex is free again.\<close>

definition opened :: "log_env \<Rightarrow> tid \<Rightarrow> log_sys \<Rightarrow> (addr \<Rightarrow> msg_ptr list) \<Rightarrow> addr \<Rightarrow> log_sys \<Rightarrow>
    (addr \<Rightarrow> msg_ptr list) \<Rightarrow> bool" where
  "opened E t st vs p st' vs' \<longleftrightarrow>
     registered t p st st' \<and> logger_mutex st' = None \<and> log_rep st' vs' \<and> (\<forall>x. x \<noteq> p \<longrightarrow> vs' x = vs x) \<and>
     ((\<exists>a. vs' p = [(a, LogMessage_copy (indeterminate E) (first_message E))]) \<or>
      vs' p = [] \<and> (\<exists>L. logger_at st' p = Some L \<and> out_of_memory (messages L)))"

lemma log_rep_mutex [simp]: "log_rep (st\<lparr>logger_mutex := m\<rparr>) vs = log_rep st vs"
  by (simp add: log_rep_def queues_ok_def owners_ok_def)

lemma register_logger_mutex [simp]:
  "register_logger t (st\<lparr>logger_mutex := m\<rparr>) = (register_logger t st)\<lparr>logger_mutex := m\<rparr>"
  by (simp add: register_logger_def)

lemma get_thread_logger_first:
  assumes E: "log_env_ok E" and r: "log_rep st vs" and i: "\<not> tl_initialized (locals st t)" and m: "logger_mutex st = None"
  shows "get_thread_logger E t st = Some (Inl BadAlloc) \<or>
    (\<exists>p st' vs'. get_thread_logger E t st = Some (Inr (p, st')) \<and> opened E t st vs p st' vs')"
proof (cases "create_logger E t st = Inl BadAlloc")
  case True
  then show ?thesis using i by (simp add: get_thread_logger_calls)
next
  case False
  let ?p = "new_logger E st"
  obtain st1 where c: "create_logger E t st = Inr st1" "logger_mutex st1 = None"
    "log_rep (register_logger t st1) (vs(?p := []))" "registered t ?p st (register_logger t st1)"
    using create_logger_ok[OF E r i] False m by auto
  let ?st2 = "(register_logger t st1)\<lparr>logger_mutex := Some t\<rparr>"
  have t: "locals ?st2 t = \<lparr>tl_logger = ?p, tl_initialized = True, tl_closer = Some ?p\<rparr>" "?p \<in> set (loggers ?st2)"
    using c(4) by (simp_all add: registered_def)
  obtain st3 vs' where e: "enqueue_message E ?p (first_message E) ?st2 =
      Inr ((first_message E)\<lparr>when_logged := clock E\<rparr>, st3)" "queued E ?st2 (vs(?p := [])) ?p (first_message E) st3 vs'"
    using enqueue_message_ok[of ?st2 "vs(?p := [])" ?p] c(3) t(2) by (metis log_rep_mutex)
  have l: "UvMutex_lock t st1 = Some (st1\<lparr>logger_mutex := Some t\<rparr>)" using c(2) by (simp add: UvMutex_lock_def)
  have "real_log_msg E t (first_message E) ?st2 = Some (Inr ((first_message E)\<lparr>when_logged := clock E\<rparr>, st3))"
    using real_log_msg_again[of ?st2 t E] e(1) unfolding t(1) by simp
  then have g: "get_thread_logger E t st = Some (Inr (?p, UvMutex_unlock st3))"
    using i c(1) l e(2) t(1) by (simp add: get_thread_logger_calls queued_def)
  have "opened E t st vs ?p (UvMutex_unlock st3) vs'"
    using e(2) c(4) by (auto simp: opened_def queued_def UvMutex_unlock_def registered_def)
  with g show ?thesis by blast
qed

lemma get_thread_logger_waits:
  assumes "log_env_ok E" "log_rep st vs" "\<not> tl_initialized (locals st t)" "logger_mutex st = Some u"
  shows "get_thread_logger E t st = Some (Inl BadAlloc) \<or> get_thread_logger E t st = None"
  using create_logger_ok[OF assms(1-3)] assms(3,4) by (auto simp: get_thread_logger_calls UvMutex_lock_def)

lemma real_log_msg_ok:
  assumes E: "log_env_ok E" and r: "log_rep st vs" and m: "tl_initialized (locals st t) \<or> logger_mutex st = None"
  shows "real_log_msg E t item st = Some (Inl BadAlloc) \<and> \<not> tl_initialized (locals st t) \<or>
    (\<exists>st1 vs1 st' vs'. real_log_msg E t item st = Some (Inr (item\<lparr>when_logged := clock E\<rparr>, st')) \<and>
       (if tl_initialized (locals st t) then st1 = st \<and> vs1 = vs else \<exists>p. opened E t st vs p st1 vs1) \<and>
       queued E st1 vs1 (tl_logger (locals st1 t)) item st' vs')"
proof (cases "tl_initialized (locals st t)")
  case True
  from enqueue_message_ok[OF r owner_registered[OF r True], of E item] show ?thesis
    using True real_log_msg_again[OF True, of E item] by auto
next
  case False
  with m have "logger_mutex st = None" by simp
  from get_thread_logger_first[OF E r False this] consider
      (bad) "get_thread_logger E t st = Some (Inl BadAlloc)"
    | (ok) p st1 vs1 where "get_thread_logger E t st = Some (Inr (p, st1))" "opened E t st vs p st1 vs1" by blast
  then show ?thesis
  proof cases
    case bad
    then show ?thesis using False by (simp add: real_log_msg_def)
  next
    case ok
    have p: "tl_logger (locals st1 t) = p" "p \<in> set (loggers st1)" "log_rep st1 vs1"
      using ok(2) by (simp_all add: opened_def registered_def)
    from enqueue_message_ok[OF p(3,2), of E item] show ?thesis
      using ok False p(1) by (auto simp: real_log_msg_def)
  qed
qed

lemma LogCloser_dtor_ok:
  assumes r: "log_rep st vs" and i: "tl_initialized (locals st t)"
  shows "\<exists>st'. LogCloser_dtor t st = Inr st' \<and> log_rep st' vs \<and> loggers st' = loggers st \<and> locals st' = locals st \<and>
    logger_mutex st' = logger_mutex st \<and>
    (\<exists>L. logger_at st (tl_logger (locals st t)) = Some L \<and>
      logger_at st' = (logger_at st)(tl_logger (locals st t) \<mapsto> L\<lparr>closed := True\<rparr>))"
proof -
  let ?p = "tl_logger (locals st t)"
  have p: "?p \<in> set (loggers st)" "tl_closer (locals st t) = Some ?p"
    using r i by (simp_all add: log_rep_def owners_ok_def)
  then obtain L where L: "logger_at st ?p = Some L" "bq_rep (messages L) (vs ?p)"
    using r by (auto simp: log_rep_def queues_ok_def)
  have "log_rep (st\<lparr>logger_at := (logger_at st)(?p \<mapsto> L\<lparr>closed := True\<rparr>)\<rparr>) vs"
    using r queues_ok_upd[OF _ p(1), of vs "L\<lparr>closed := True\<rparr>" "vs ?p"] L(2)
    by (simp add: log_rep_def owners_ok_def)
  then show ?thesis using p L(1) by (simp add: LogCloser_dtor_def get_logger_def)
qed

subsection \<open>The clock has no influence on what is queued\<close>

lemma enqueue_message_clock:
  "bindE (enqueue_message E p item st) (\<lambda>(_, st'). Inr st') =
   bindE (enqueue_message (E\<lparr>clock := c\<rparr>) p (item\<lparr>when_logged := w\<rparr>) st) (\<lambda>(_, st'). Inr st')"
  by (simp add: enqueue_message_def Let_def bindE_def split: sum.split)

lemma first_message_clock [simp]: "first_message (E\<lparr>clock := c\<rparr>) = first_message E"
  by (simp add: first_message_def)

lemma create_logger_clock [simp]: "create_logger (E\<lparr>clock := c\<rparr>) t st = create_logger E t st"
proof -
  have "ThreadLogger_ctor (E\<lparr>clock := c\<rparr>) = ThreadLogger_ctor E" by (simp add: ThreadLogger_ctor_def)
  then show ?thesis by (simp add: create_logger_def Let_def)
qed

definition no_item :: "(LogMessage \<times> log_sys) res option \<Rightarrow> log_sys res option" where
  "no_item = map_option (\<lambda>r. bindE r (\<lambda>(_, st'). Inr st'))"

lemma no_item_cases:
  "(case x of None \<Rightarrow> None | Some (Inl e) \<Rightarrow> Some (Inl e) | Some (Inr (_, s)) \<Rightarrow> Some (Inr (f s))) =
   (case no_item x of None \<Rightarrow> None | Some (Inl e) \<Rightarrow> Some (Inl e) | Some (Inr s) \<Rightarrow> Some (Inr (f s)))"
  by (simp add: no_item_def bindE_def split: option.split sum.split prod.split)

lemma get_thread_logger_clock: "get_thread_logger (E\<lparr>clock := c\<rparr>) t st = get_thread_logger E t st"
proof (cases "tl_initialized (locals st t)")
  case False
  have i: "tl_initialized (locals (register_logger t s) t)" for s by (simp add: register_logger_def)
  have "no_item (real_log_msg (E\<lparr>clock := c\<rparr>) t (first_message E) (register_logger t s)) =
      no_item (real_log_msg E t (first_message E) (register_logger t s))" for s
    unfolding real_log_msg_again[OF i] no_item_def
    using enqueue_message_clock[of E _ "first_message E" _ c "when_logged (first_message E)"] by simp
  then show ?thesis
    unfolding get_thread_logger_calls[of "E\<lparr>clock := c\<rparr>"] get_thread_logger_calls[of E] no_item_cases
    using False by (simp split: sum.split option.split)
qed (simp add: get_thread_logger_again)

lemma real_log_msg_clock:
  "no_item (real_log_msg (E\<lparr>clock := c\<rparr>) t (item\<lparr>when_logged := w\<rparr>) st) = no_item (real_log_msg E t item st)"
  using enqueue_message_clock[of E _ item _ c w]
  by (simp add: real_log_msg_def get_thread_logger_clock no_item_def split: option.split sum.split prod.split)

subsection \<open>The start of the program\<close>

definition log_init :: log_sys where
  "log_init = \<lparr>logger_mutex = None, loggers = [], logger_at = Map.empty,
     locals = (\<lambda>_. \<lparr>tl_logger = nullptr, tl_initialized = False, tl_closer = None\<rparr>)\<rparr>"

lemma log_init_rep: "log_rep log_init (\<lambda>_. [])"
  by (simp add: log_init_def log_rep_def queues_ok_def owners_ok_def)

definition demo_log_env :: log_env where
  "demo_log_env = \<lparr>queue_env = arena_env,
     new_logger = (\<lambda>st. if 4096 \<notin> set (loggers st) \<and> logger_at st 4096 = None then 4096 else
                        if 8192 \<notin> set (loggers st) \<and> logger_at st 8192 = None then 8192 else nullptr),
     new_msg = (\<lambda>_. 65536), clock = \<lparr>tv_sec = 9, tv_nsec = 1\<rparr>, indeterminate = \<lparr>tv_sec = 0, tv_nsec = 0\<rparr>,
     getpid = 77, this_file = ''logger.cpp''\<rparr>"

lemma demo_log_env_ok: "log_env_ok demo_log_env"
  using arena_env_ok by (simp add: log_env_ok_def demo_log_env_def)

definition demo_item :: LogMessage where
  "demo_item = log_int (LogMessage_ctor \<lparr>tv_sec = 0, tv_nsec = 0\<rparr> ''a.cpp'' ''f'' 7 LOG_INFO) 42"

subsection \<open>Theorems\<close>

text \<open>C19: every thread gets one logger, once. A thread that has one gets it back, without the mutex
  and without any change. A thread that has none, with the mutex free, gets a new logger that is
  registered behind the others, owned by this thread alone, holds the greeting (unless the
  allocator refuses) and is returned by every later call; the loggers and messages of the other
  threads stay as they are and the mutex is released. While another holder keeps the mutex, such
  a thread waits.\<close>

theorem get_thread_logger_once:
  assumes "log_env_ok E" and "log_rep st vs"
  shows "if tl_initialized (locals st t)
     then get_thread_logger E t st = Some (Inr (tl_logger (locals st t), st)) \<and> tl_logger (locals st t) \<in> set (loggers st)
     else if logger_mutex st = None
     then get_thread_logger E t st = Some (Inl BadAlloc) \<or>
       (\<exists>p st' vs'. get_thread_logger E t st = Some (Inr (p, st')) \<and> opened E t st vs p st' vs' \<and>
          get_thread_logger E t st' = Some (Inr (p, st')))
     else get_thread_logger E t st = Some (Inl BadAlloc) \<or> get_thread_logger E t st = None"
proof -
  have again: "get_thread_logger E t st' = Some (Inr (p, st'))" if "opened E t st vs p st' vs'" for p st' vs'
    using that get_thread_logger_again[of st' t E] by (simp add: opened_def registered_def)
  show ?thesis
    using get_thread_logger_again[of st t E] owner_registered[OF assms(2), of t]
      get_thread_logger_first[OF assms, of t] again get_thread_logger_waits[OF assms, of t]
    by (cases "logger_mutex st") auto
qed

theorem get_thread_logger_once_witness:
  "get_thread_logger demo_log_env 1 log_init = Some (Inl BadAlloc) \<or>
   (\<exists>p st' vs'. get_thread_logger demo_log_env 1 log_init = Some (Inr (p, st')) \<and>
      opened demo_log_env 1 log_init (\<lambda>_. []) p st' vs' \<and> get_thread_logger demo_log_env 1 st' = Some (Inr (p, st')))"
  using get_thread_logger_once[OF demo_log_env_ok log_init_rep, of 1] by (simp add: log_init_def)



text \<open>C34: the time of a message does not reach the queue. Whatever the clock shows, and whatever time
  the message carries, logging leaves the same state behind, because the copy constructor does
  not copy the time.\<close>

theorem logged_time_is_lost:
  "no_item (real_log_msg (E\<lparr>clock := c\<rparr>) t (item\<lparr>when_logged := w\<rparr>) st) = no_item (real_log_msg E t item st)"
  by (rule real_log_msg_clock)

end
