(* ===== verification/Log_Consumer.thy ===== *)
theory Log_Consumer
  imports Logger
begin

text \<open>
  The consuming side of \<^verbatim>\<open>logger.cpp\<close>: \<^verbatim>\<open>LogConsumer::consume\<close> drains the queues of all threads, with
  the mutex held, and hands every message to \<^verbatim>\<open>ordered_log\<close>. Other threads go on logging while
  it runs: \<open>arrivals\<close> holds, for every call of \<^verbatim>\<open>try_dequeue\<close> in turn, the enqueues that other
  threads complete just before it. The two \<^verbatim>\<open>std::set\<close>s are lists in the order of the set.
\<close>

subsection \<open>Sets of the standard library\<close>

fun set_insert :: "('a \<Rightarrow> 'a \<Rightarrow> bool) \<Rightarrow> 'a \<Rightarrow> 'a list \<Rightarrow> 'a list" where
  "set_insert lt x [] = [x]"
| "set_insert lt x (y # ys) =
     (if lt x y then x # y # ys else if lt y x then y # set_insert lt x ys else y # ys)"

text \<open>\<^verbatim>\<open>std::set<MsgLoggerPair>\<close> compares pairs member by member, a \<^verbatim>\<open>shared_ptr\<close> by its address. The
  comparison by time that the source defines next to it is not the one the set uses.\<close>

type_synonym MsgLoggerPair = "msg_ptr \<times> addr"

definition MsgLoggerPair_less :: "MsgLoggerPair \<Rightarrow> MsgLoggerPair \<Rightarrow> bool" where
  "MsgLoggerPair_less a b \<longleftrightarrow>
     fst (fst a) < fst (fst b) \<or> \<not> fst (fst b) < fst (fst a) \<and> snd a < snd b"

definition pair_compare :: "MsgLoggerPair \<Rightarrow> MsgLoggerPair \<Rightarrow> bool" where
  "pair_compare a b = timespec_less (when_logged (snd (fst a))) (when_logged (snd (fst b)))"

subsection \<open>The consumer\<close>

record consumer =
  sys :: log_sys
  ordered_next :: "MsgLoggerPair list"
  check_loggers :: "addr list"
  arrivals :: "MsgLoggerPair list list"
  accepted :: "MsgLoggerPair list"
  calls :: "MsgLoggerPair list"
  cerr :: string

fun arrive :: "MsgLoggerPair list \<Rightarrow> consumer \<Rightarrow> consumer res" where
  "arrive [] c = Inr c"
| "arrive ((m, p) # as) c =
     bindE (get_logger (sys c) p) (\<lambda>L.
     bindE (b_enqueue CanAlloc m (messages L)) (\<lambda>(ok, q).
     arrive as (c\<lparr>sys := (sys c)\<lparr>logger_at := (logger_at (sys c))(p \<mapsto> L\<lparr>messages := q\<rparr>)\<rparr>,
                  accepted := (if ok then accepted c @ [(m, p)] else accepted c)\<rparr>)))"

text \<open>One \<^verbatim>\<open>logger->messages.try_dequeue(msg)\<close>, after what arrived in the meantime.\<close>

definition poll_logger :: "addr \<Rightarrow> consumer \<Rightarrow> (msg_ptr option \<times> consumer) res" where
  "poll_logger p c =
     bindE (case arrivals c of [] \<Rightarrow> Inr c | as # rest \<Rightarrow> arrive as (c\<lparr>arrivals := rest\<rparr>)) (\<lambda>c1.
     bindE (get_logger (sys c1) p) (\<lambda>L.
     bindE (b_try_dequeue (messages L)) (\<lambda>(r, q).
     Inr (r, c1\<lparr>sys := (sys c1)\<lparr>logger_at := (logger_at (sys c1))(p \<mapsto> L\<lparr>messages := q\<rparr>)\<rparr>\<rparr>))))"

definition ordered_log :: "string \<Rightarrow> msg_ptr \<Rightarrow> string" where
  "ordered_log err msg = (let o' = print_LogMessage '''' (snd msg) in err @ o')"

text \<open>The loop over \<^verbatim>\<open>check_loggers\<close>; its first argument is what the iterator has still before it.\<close>

fun check_loop :: "addr list \<Rightarrow> consumer \<Rightarrow> consumer res" where
  "check_loop [] c = Inr c"
| "check_loop (logger # is) c =
     bindE (poll_logger logger c) (\<lambda>(r, c1).
       case r of
         None \<Rightarrow> check_loop is c1
       | Some msg \<Rightarrow>
           check_loop is (c1\<lparr>ordered_next := set_insert MsgLoggerPair_less (msg, logger) (ordered_next c1),
                             check_loggers := remove1 logger (check_loggers c1)\<rparr>))"

partial_function (option) consume_while :: "consumer \<Rightarrow> consumer res option" where
  "consume_while c =
     (case ordered_next c of
        [] \<Rightarrow> Some (Inr c)
      | (msg, logger) # rest \<Rightarrow>
          (let c1 = c\<lparr>calls := calls c @ [(msg, logger)], cerr := ordered_log (cerr c) msg,
                      check_loggers := set_insert (<) logger (check_loggers c), ordered_next := rest\<rparr>
           in case check_loop (check_loggers c1) c1 of
                Inl e \<Rightarrow> Some (Inl e)
              | Inr c2 \<Rightarrow> consume_while c2))"

fun consume_for :: "addr list \<Rightarrow> consumer \<Rightarrow> consumer res option" where
  "consume_for [] c = Some (Inr c)"
| "consume_for (logger # ls) c =
     (case poll_logger logger c of
        Inl e \<Rightarrow> Some (Inl e)
      | Inr (r, c1) \<Rightarrow>
          (let c2 = (case r of
                       Some msg \<Rightarrow> c1\<lparr>ordered_next := set_insert MsgLoggerPair_less (msg, logger) (ordered_next c1)\<rparr>
                     | None \<Rightarrow> c1\<lparr>check_loggers := set_insert (<) logger (check_loggers c1)\<rparr>)
           in case consume_while c2 of
                None \<Rightarrow> None
              | Some (Inl e) \<Rightarrow> Some (Inl e)
              | Some (Inr c3) \<Rightarrow> consume_for ls c3))"

definition consume :: "tid \<Rightarrow> MsgLoggerPair list list \<Rightarrow> string \<Rightarrow> log_sys \<Rightarrow> consumer res option" where
  "consume t arr err st =
     (case UvMutex_lock t st of
        None \<Rightarrow> None
      | Some st1 \<Rightarrow>
          map_option (\<lambda>r. bindE r (\<lambda>c. Inr (c\<lparr>sys := UvMutex_unlock (sys c)\<rparr>)))
            (consume_for (loggers st1)
              \<lparr>sys = st1, ordered_next = [], check_loggers = [], arrivals = arr, accepted = [], calls = [], cerr = err\<rparr>))"

subsection \<open>Lemmas on sets and projections\<close>

definition msgs_of :: "addr \<Rightarrow> MsgLoggerPair list \<Rightarrow> msg_ptr list" where
  "msgs_of p xs = map fst (filter (\<lambda>x. snd x = p) xs)"

lemma msgs_of_simps [simp]:
  "msgs_of p [] = []"
  "msgs_of p ((m, q) # xs) = (if q = p then m # msgs_of p xs else msgs_of p xs)"
  "msgs_of p (xs @ ys) = msgs_of p xs @ msgs_of p ys"
  by (simp_all add: msgs_of_def)

lemma msgs_of_absent: "p \<notin> snd ` set xs \<Longrightarrow> msgs_of p xs = []"
  by (force simp: msgs_of_def filter_empty_conv)

lemma MsgLoggerPair_total: "MsgLoggerPair_less a b \<or> MsgLoggerPair_less b a \<or> snd a = snd b"
  unfolding MsgLoggerPair_less_def by auto

lemma set_insert_set:
  assumes "\<And>y. y \<in> set ys \<Longrightarrow> lt x y \<or> lt y x"
  shows "set (set_insert lt x ys) = insert x (set ys)"
  using assms by (induction ys) auto

lemma set_insert_distinct:
  assumes "x \<notin> set ys" "distinct ys" "\<And>y. y \<in> set ys \<Longrightarrow> lt x y \<or> lt y x"
  shows "distinct (set_insert lt x ys)"
  using assms by (induction ys) (auto simp: set_insert_set)

lemma set_insert_map_distinct:
  assumes "snd x \<notin> snd ` set ys" "distinct (map snd ys)" "\<And>y. y \<in> set ys \<Longrightarrow> lt x y \<or> lt y x"
  shows "distinct (map snd (set_insert lt x ys))"
  using assms by (induction ys) (auto simp: set_insert_set)

lemma set_insert_length:
  assumes "\<And>y. y \<in> set ys \<Longrightarrow> lt x y \<or> lt y x"
  shows "length (set_insert lt x ys) = Suc (length ys)"
  using assms by (induction ys) auto

lemma set_insert_msgs_of:
  assumes "snd x \<notin> snd ` set ys" "\<And>y. y \<in> set ys \<Longrightarrow> lt x y \<or> lt y x"
  shows "msgs_of p (set_insert lt x ys) = (if p = snd x then [fst x] else msgs_of p ys)"
  using assms
proof (induction ys)
  case Nil
  then show ?case by (cases x) simp
next
  case (Cons y ys)
  then show ?case by (cases x; cases y) (auto simp: msgs_of_absent)
qed

lemma pair_insert:
  assumes "p \<notin> snd ` set ys"
  shows "set (set_insert MsgLoggerPair_less (m, p) ys) = insert (m, p) (set ys)"
    "distinct (map snd ys) \<Longrightarrow> distinct (map snd (set_insert MsgLoggerPair_less (m, p) ys))"
    "length (set_insert MsgLoggerPair_less (m, p) ys) = Suc (length ys)"
    "msgs_of x (set_insert MsgLoggerPair_less (m, p) ys) = (if x = p then [m] else msgs_of x ys)"
proof -
  have *: "MsgLoggerPair_less (m, p) y \<or> MsgLoggerPair_less y (m, p)" if "y \<in> set ys" for y
    using MsgLoggerPair_total[of "(m, p)" y] assms that by force
  note ins = set_insert_set set_insert_map_distinct set_insert_length set_insert_msgs_of
  show "set (set_insert MsgLoggerPair_less (m, p) ys) = insert (m, p) (set ys)" by (rule ins(1)) (rule *)
  show "distinct (map snd (set_insert MsgLoggerPair_less (m, p) ys))" if "distinct (map snd ys)"
    by (rule ins(2)) (use assms that * in simp_all)
  show "length (set_insert MsgLoggerPair_less (m, p) ys) = Suc (length ys)" by (rule ins(3)) (rule *)
  show "msgs_of x (set_insert MsgLoggerPair_less (m, p) ys) = (if x = p then [m] else msgs_of x ys)"
    using ins(4)[of "(m, p)" ys MsgLoggerPair_less x] assms * by simp
qed

lemma addr_insert:
  assumes "(p :: addr) \<notin> set ys"
  shows "set (set_insert (<) p ys) = insert p (set ys)" "distinct ys \<Longrightarrow> distinct (set_insert (<) p ys)"
proof -
  have *: "p < y \<or> y < p" if "y \<in> set ys" for y using assms that by (metis neq_iff)
  show "set (set_insert (<) p ys) = insert p (set ys)" by (rule set_insert_set) (rule *)
  show "distinct (set_insert (<) p ys)" if "distinct ys"
    by (rule set_insert_distinct) (use assms that * in simp_all)
qed

subsection \<open>Nothing is lost, duplicated or reordered\<close>

text \<open>
  \<open>flow vs0 c vs\<close>: for every logger, what its queue held at the start (\<open>vs0\<close>) and what has arrived
  since is, in this order, what was handed to \<^verbatim>\<open>ordered_log\<close>, what waits in \<^verbatim>\<open>ordered_next\<close>, and what
  the queue holds now (\<open>vs\<close>). \<open>parts V c\<close>: every visited logger is in exactly one of the two sets.
  \<open>drained vs0 S c\<close>: the loggers of \<open>S\<close> have delivered all they held at the start. \<open>weight\<close> is the
  number of messages that can still come.
\<close>

definition flow :: "(addr \<Rightarrow> msg_ptr list) \<Rightarrow> consumer \<Rightarrow> (addr \<Rightarrow> msg_ptr list) \<Rightarrow> bool" where
  "flow vs0 c vs \<longleftrightarrow> queues_ok (sys c) vs \<and>
     (\<forall>as \<in> set (arrivals c). snd ` set as \<subseteq> set (loggers (sys c))) \<and>
     (\<forall>p. vs0 p @ msgs_of p (accepted c) = msgs_of p (calls c) @ msgs_of p (ordered_next c) @ vs p)"

definition parts :: "addr set \<Rightarrow> consumer \<Rightarrow> bool" where
  "parts V c \<longleftrightarrow> distinct (check_loggers c) \<and> distinct (map snd (ordered_next c)) \<and>
     set (check_loggers c) \<inter> snd ` set (ordered_next c) = {} \<and>
     set (check_loggers c) \<union> snd ` set (ordered_next c) = V"

definition drained :: "(addr \<Rightarrow> msg_ptr list) \<Rightarrow> addr set \<Rightarrow> consumer \<Rightarrow> bool" where
  "drained vs0 S c \<longleftrightarrow> (\<forall>p \<in> S. length (vs0 p) \<le> length (msgs_of p (calls c)))"

definition same_sys :: "log_sys \<Rightarrow> log_sys \<Rightarrow> bool" where
  "same_sys st st' \<longleftrightarrow> loggers st' = loggers st \<and> locals st' = locals st \<and> logger_mutex st' = logger_mutex st"

definition weight :: "consumer \<Rightarrow> (addr \<Rightarrow> msg_ptr list) \<Rightarrow> nat" where
  "weight c vs = (\<Sum>p \<in> set (loggers (sys c)). length (vs p)) + length (ordered_next c) + sum_list (map length (arrivals c))"

lemma same_sys_refl [simp]: "same_sys st st"
  by (simp add: same_sys_def)

lemma same_sys_trans: "same_sys a b \<Longrightarrow> same_sys b c \<Longrightarrow> same_sys a c"
  by (simp add: same_sys_def)

lemma same_sys_upd [simp]: "same_sys st (st\<lparr>logger_at := m\<rparr>)" "same_sys st (s\<lparr>logger_at := m\<rparr>) = same_sys st s"
  by (simp_all add: same_sys_def)

lemma sum_length_upd:
  assumes "finite S" "p \<in> S"
  shows "(\<Sum>x \<in> S. length ((vs(p := ws)) x)) + length (vs p) = (\<Sum>x \<in> S. length (vs x)) + length ws"
proof -
  have "(\<Sum>x \<in> S. length ((vs(p := ws)) x)) = length ws + (\<Sum>x \<in> S - {p}. length (vs x))"
    using assms by (subst sum.remove[of S p]) (auto intro: sum.cong)
  moreover have "(\<Sum>x \<in> S. length (vs x)) = length (vs p) + (\<Sum>x \<in> S - {p}. length (vs x))"
    using assms by (rule sum.remove)
  ultimately show ?thesis by simp
qed

lemma arrive_flow:
  assumes "flow vs0 c vs" "snd ` set as \<subseteq> set (loggers (sys c))"
  shows "\<exists>c' vs' st acc. arrive as c = Inr c' \<and> c' = c\<lparr>sys := st, accepted := acc\<rparr> \<and> same_sys (sys c) st \<and>
    flow vs0 c' vs' \<and> weight c' vs' \<le> weight c vs + length as"
  using assms
proof (induction as arbitrary: c vs)
  case Nil
  then show ?case by (intro exI[of _ c] exI[of _ vs] exI[of _ "sys c"] exI[of _ "accepted c"]) simp
next
  case (Cons a as)
  obtain m p where a: "a = (m, p)" by (cases a)
  then have p: "p \<in> set (loggers (sys c))" using Cons.prems(2) by simp
  obtain L where L: "logger_at (sys c) p = Some L" "bq_rep (messages L) (vs p)"
    using Cons.prems(1) p by (auto simp: flow_def queues_ok_def)
  obtain ok q where e: "b_enqueue CanAlloc m (messages L) = Inr (ok, q)"
    "bq_rep q (if ok then vs p @ [m] else vs p)" using bq.enq_law[OF L(2)] by blast
  let ?vs = "vs(p := if ok then vs p @ [m] else vs p)"
  let ?c = "c\<lparr>sys := (sys c)\<lparr>logger_at := (logger_at (sys c))(p \<mapsto> L\<lparr>messages := q\<rparr>)\<rparr>,
      accepted := (if ok then accepted c @ [(m, p)] else accepted c)\<rparr>"
  have "flow vs0 ?c ?vs"
    using Cons.prems(1) queues_ok_upd[OF _ p, of vs "L\<lparr>messages := q\<rparr>"] e(2) by (auto simp: flow_def)
  moreover have "weight ?c ?vs \<le> weight c vs + 1"
    using sum_length_upd[OF _ p, of vs "if ok then vs p @ [m] else vs p"]
    by (cases ok) (simp_all add: weight_def del: fun_upd_apply)
  moreover have "snd ` set as \<subseteq> set (loggers (sys ?c))" using Cons.prems(2) by simp
  ultimately obtain c' vs' st acc where r: "arrive as ?c = Inr c'" "c' = ?c\<lparr>sys := st, accepted := acc\<rparr>"
    "same_sys (sys ?c) st" "flow vs0 c' vs'" "weight c' vs' \<le> weight c vs + 1 + length as"
    using Cons.IH[of ?c ?vs] by (meson add_le_mono1 le_trans)
  have "same_sys (sys c) st" using r(3) by (simp add: same_sys_def)
  moreover have "arrive (a # as) c = Inr c'" using r(1) L(1) e(1) by (simp add: a get_logger_def)
  ultimately show ?case using r by (intro exI[of _ c'] exI[of _ vs'] exI[of _ st] exI[of _ acc]) simp
qed

lemma arrivals_flow:
  assumes f: "flow vs0 c vs"
  shows "\<exists>c1 vs1 st arr acc. (case arrivals c of [] \<Rightarrow> Inr c | as # rest \<Rightarrow> arrive as (c\<lparr>arrivals := rest\<rparr>)) = Inr c1 \<and>
    c1 = c\<lparr>sys := st, arrivals := arr, accepted := acc\<rparr> \<and> same_sys (sys c) st \<and> flow vs0 c1 vs1 \<and> weight c1 vs1 \<le> weight c vs"
proof (cases "arrivals c")
  case Nil
  then show ?thesis using f
    by (intro exI[of _ c] exI[of _ vs] exI[of _ "sys c"] exI[of _ "[]"] exI[of _ "accepted c"]) simp
next
  case (Cons as rest)
  let ?c = "c\<lparr>arrivals := rest\<rparr>"
  have "flow vs0 ?c vs" "snd ` set as \<subseteq> set (loggers (sys ?c))" using f Cons by (auto simp: flow_def)
  from arrive_flow[OF this] obtain c' vs' st acc where a: "arrive as ?c = Inr c'" "c' = ?c\<lparr>sys := st, accepted := acc\<rparr>"
    "same_sys (sys c) st" "flow vs0 c' vs'" "weight c' vs' \<le> weight ?c vs + length as" by auto
  have "weight ?c vs + length as = weight c vs" using Cons by (simp add: weight_def)
  with a Cons show ?thesis
    by (intro exI[of _ c'] exI[of _ vs'] exI[of _ st] exI[of _ rest] exI[of _ acc]) simp
qed

lemma poll_flow:
  assumes f: "flow vs0 c vs" and p: "p \<in> set (loggers (sys c))"
  shows "\<exists>r c' vs' st arr acc. poll_logger p c = Inr (r, c') \<and>
    c' = c\<lparr>sys := st, arrivals := arr, accepted := acc\<rparr> \<and> same_sys (sys c) st \<and>
    (\<forall>as \<in> set arr. snd ` set as \<subseteq> set (loggers st)) \<and> queues_ok st vs' \<and>
    (\<forall>x. vs0 x @ msgs_of x acc = msgs_of x (calls c) @ msgs_of x (ordered_next c) @
       (if x = p then (case r of None \<Rightarrow> [] | Some m \<Rightarrow> [m]) else []) @ vs' x) \<and>
    (r = None \<longrightarrow> vs' p = []) \<and> weight c' vs' + (if r = None then 0 else 1) \<le> weight c vs"
proof -
  obtain c1 vs1 st1 arr acc where c1: "(case arrivals c of [] \<Rightarrow> Inr c | as # rest \<Rightarrow> arrive as (c\<lparr>arrivals := rest\<rparr>)) = Inr c1"
    "c1 = c\<lparr>sys := st1, arrivals := arr, accepted := acc\<rparr>" "same_sys (sys c) st1" "flow vs0 c1 vs1" "weight c1 vs1 \<le> weight c vs"
    using arrivals_flow[OF f] by blast
  have p1: "p \<in> set (loggers (sys c1))" using c1(2,3) p by (simp add: same_sys_def)
  obtain L where L: "logger_at (sys c1) p = Some L" "bq_rep (messages L) (vs1 p)"
    using c1(4) p1 by (auto simp: flow_def queues_ok_def)
  obtain q where e: "b_try_dequeue (messages L) = Inr (first (vs1 p), q)" "bq_rep q (tl (vs1 p))"
    using bq.deq_law[OF L(2)] by blast
  let ?r = "first (vs1 p)" and ?vs = "vs1(p := tl (vs1 p))"
  let ?st = "st1\<lparr>logger_at := (logger_at st1)(p \<mapsto> L\<lparr>messages := q\<rparr>)\<rparr>"
  have "queues_ok ?st ?vs" using c1(2,4) queues_ok_upd[OF _ p1, of vs1 "L\<lparr>messages := q\<rparr>"] e(2) by (auto simp: flow_def)
  moreover have "poll_logger p c = Inr (?r, c1\<lparr>sys := ?st\<rparr>)"
    using c1(1,2) L(1) e(1) by (simp add: poll_logger_def get_logger_def)
  moreover have "weight (c1\<lparr>sys := ?st\<rparr>) ?vs + (if ?r = None then 0 else 1) \<le> weight c vs"
    using sum_length_upd[OF _ p1, of vs1 "tl (vs1 p)"] c1(2,5) by (cases "vs1 p") (simp_all add: weight_def del: fun_upd_apply)
  moreover have "vs0 x @ msgs_of x acc = msgs_of x (calls c) @ msgs_of x (ordered_next c) @
      (if x = p then (case ?r of None \<Rightarrow> [] | Some m \<Rightarrow> [m]) else []) @ ?vs x" for x
    using c1(2,4) by (cases "vs1 p") (auto simp: flow_def)
  moreover have "\<forall>as \<in> set arr. snd ` set as \<subseteq> set (loggers ?st)" using c1(2,4) by (simp add: flow_def)
  ultimately show ?thesis using c1(2,3)
    by (intro exI[of _ ?r] exI[of _ "c1\<lparr>sys := ?st\<rparr>"] exI[of _ ?vs] exI[of _ ?st] exI[of _ arr] exI[of _ acc])
      (cases "vs1 p"; simp)
qed

text \<open>What a poll of a logger that has nothing in \<^verbatim>\<open>ordered_next\<close> gives: either the logger is empty and has
  delivered all it held, or its oldest message can be put into \<^verbatim>\<open>ordered_next\<close>.\<close>

lemma poll_cases:
  assumes f: "flow vs0 c vs" and p: "p \<in> set (loggers (sys c))" and n: "p \<notin> snd ` set (ordered_next c)"
  obtains (empty) c' vs' where "poll_logger p c = Inr (None, c')" "flow vs0 c' vs'" "same_sys (sys c) (sys c')"
      "calls c' = calls c" "ordered_next c' = ordered_next c" "check_loggers c' = check_loggers c"
      "weight c' vs' \<le> weight c vs" "length (vs0 p) \<le> length (msgs_of p (calls c'))"
    | (got) m c' vs' where "poll_logger p c = Inr (Some m, c')" "same_sys (sys c) (sys c')"
      "calls c' = calls c" "ordered_next c' = ordered_next c" "check_loggers c' = check_loggers c"
      "\<And>ck. flow vs0 (c'\<lparr>ordered_next := set_insert MsgLoggerPair_less (m, p) (ordered_next c), check_loggers := ck\<rparr>) vs'"
      "\<And>ck. weight (c'\<lparr>ordered_next := set_insert MsgLoggerPair_less (m, p) (ordered_next c), check_loggers := ck\<rparr>) vs' \<le> weight c vs"
proof -
  obtain r c' vs' st arr acc where P: "poll_logger p c = Inr (r, c')" "c' = c\<lparr>sys := st, arrivals := arr, accepted := acc\<rparr>"
    "same_sys (sys c) st" "\<forall>as \<in> set arr. snd ` set as \<subseteq> set (loggers st)" "queues_ok st vs'"
    "\<And>x. vs0 x @ msgs_of x acc = msgs_of x (calls c) @ msgs_of x (ordered_next c) @
       (if x = p then (case r of None \<Rightarrow> [] | Some m \<Rightarrow> [m]) else []) @ vs' x"
    "r = None \<longrightarrow> vs' p = []" "weight c' vs' + (if r = None then 0 else 1) \<le> weight c vs"
    using poll_flow[OF f p] by blast
  show thesis
  proof (cases r)
    case None
    have "length (vs0 p @ msgs_of p acc) = length (msgs_of p (calls c))"
      using P(6)[of p] P(7) None msgs_of_absent[OF n] by simp
    then have "length (vs0 p) \<le> length (msgs_of p (calls c'))" using P(2) by simp
    moreover have "flow vs0 c' vs'" using P(2,4-6) None by (simp add: flow_def)
    ultimately show thesis using empty[of c' vs'] P None by simp
  next
    case (Some m)
    note ins = pair_insert[OF n]
    show thesis
    proof (rule got[of m c' vs'])
      show "flow vs0 (c'\<lparr>ordered_next := set_insert MsgLoggerPair_less (m, p) (ordered_next c), check_loggers := ck\<rparr>) vs'" for ck
        using P(2,4-6) Some msgs_of_absent[OF n] by (auto simp: flow_def ins(4))
      show "weight (c'\<lparr>ordered_next := set_insert MsgLoggerPair_less (m, p) (ordered_next c), check_loggers := ck\<rparr>) vs' \<le> weight c vs" for ck
        using P(2,8) Some by (simp add: weight_def ins(3))
    qed (use P Some in simp_all)
  qed
qed

text \<open>\<open>settled\<close> gathers what the loops keep between their steps.\<close>

definition settled :: "(addr \<Rightarrow> msg_ptr list) \<Rightarrow> addr set \<Rightarrow> addr set \<Rightarrow> consumer \<Rightarrow> (addr \<Rightarrow> msg_ptr list) \<Rightarrow> bool" where
  "settled vs0 V S c vs \<longleftrightarrow> flow vs0 c vs \<and> parts V c \<and> V \<subseteq> set (loggers (sys c)) \<and> drained vs0 S c"

lemma check_loop_ok:
  assumes "settled vs0 V (set (check_loggers c) - set is) c vs" "distinct is" "set is \<subseteq> set (check_loggers c)"
  shows "\<exists>c' vs'. check_loop is c = Inr c' \<and> settled vs0 V (set (check_loggers c')) c' vs' \<and>
    same_sys (sys c) (sys c') \<and> weight c' vs' \<le> weight c vs"
  using assms
proof (induction "is" arbitrary: c vs)
  case Nil
  then show ?case by auto
next
  case (Cons p "is")
  have f: "flow vs0 c vs" and pt: "parts V c" and V: "V \<subseteq> set (loggers (sys c))"
    and d: "drained vs0 (set (check_loggers c) - set (p # is)) c" using Cons.prems(1) by (simp_all add: settled_def)
  have p: "p \<in> set (loggers (sys c))" "p \<notin> snd ` set (ordered_next c)"
    using Cons.prems(3) pt V by (auto simp: parts_def)
  from f p show ?case
  proof (cases rule: poll_cases)
    case (empty c1 vs1)
    have "settled vs0 V (set (check_loggers c1) - set is) c1 vs1"
      using empty pt V d by (auto simp: settled_def parts_def same_sys_def drained_def)
    with Cons.IH[of c1 vs1] Cons.prems(2,3) empty show ?thesis
      by (auto intro: same_sys_trans le_trans)
  next
    case (got m c1 vs1)
    let ?c = "c1\<lparr>ordered_next := set_insert MsgLoggerPair_less (m, p) (ordered_next c1), check_loggers := remove1 p (check_loggers c1)\<rparr>"
    have "parts V ?c" using pt got pair_insert[OF p(2)] Cons.prems(3) by (auto simp: parts_def)
    then have "settled vs0 V (set (check_loggers ?c) - set is) ?c vs1"
      using got V d pt by (auto simp: settled_def same_sys_def drained_def parts_def)
    moreover have "set is \<subseteq> set (check_loggers ?c)" using got(5) Cons.prems(2,3) pt by (auto simp: parts_def)
    ultimately obtain c' vs' where r: "check_loop is ?c = Inr c'" "settled vs0 V (set (check_loggers c')) c' vs'"
      "same_sys (sys c1) (sys c')" "weight c' vs' \<le> weight ?c vs1" using Cons.IH[of ?c vs1] Cons.prems(2) by auto
    have "weight c' vs' \<le> weight c vs" using r(4) got(7)[of "remove1 p (check_loggers c1)"] got(4) by simp
    then show ?thesis using r got by (auto intro: same_sys_trans)
  qed
qed

lemma pop_first_ok:
  assumes st: "settled vs0 V S c vs" and on: "ordered_next c = (m, p) # rest"
  defines "c1 \<equiv> c\<lparr>calls := calls c @ [(m, p)], cerr := ordered_log (cerr c) m,
      check_loggers := set_insert (<) p (check_loggers c), ordered_next := rest\<rparr>"
  shows "settled vs0 V {} c1 vs" "distinct (check_loggers c1)" "weight c1 vs < weight c vs"
proof -
  have f: "flow vs0 c vs" and pt: "parts V c" and V: "V \<subseteq> set (loggers (sys c))" using st by (simp_all add: settled_def)
  have p: "p \<notin> set (check_loggers c)" using pt on by (auto simp: parts_def)
  show "distinct (check_loggers c1)" using addr_insert[OF p] pt by (simp add: c1_def parts_def)
  have "parts V c1" using pt on addr_insert[OF p] by (auto simp: parts_def c1_def)
  moreover have "vs0 x @ msgs_of x (accepted c) = msgs_of x (calls c1) @ msgs_of x rest @ vs x" for x
  proof -
    have "vs0 x @ msgs_of x (accepted c) = msgs_of x (calls c) @ msgs_of x (ordered_next c) @ vs x"
      using f unfolding flow_def by blast
    then show ?thesis unfolding c1_def on by (cases "p = x") simp_all
  qed
  then have "flow vs0 c1 vs" using f by (simp add: flow_def c1_def)
  ultimately show "settled vs0 V {} c1 vs" using V by (simp add: settled_def drained_def c1_def)
  show "weight c1 vs < weight c vs" by (simp add: weight_def c1_def on)
qed

lemma consume_while_ok:
  assumes "settled vs0 V (set (check_loggers c)) c vs"
  shows "\<exists>c' vs'. consume_while c = Some (Inr c') \<and> settled vs0 V (set (check_loggers c')) c' vs' \<and>
    ordered_next c' = [] \<and> same_sys (sys c) (sys c')"
  using assms
proof (induction "weight c vs" arbitrary: c vs rule: less_induct)
  case less
  show ?case
  proof (cases "ordered_next c")
    case Nil
    then show ?thesis using less.prems by (subst consume_while.simps) auto
  next
    case (Cons x rest)
    obtain m p where x: "x = (m, p)" by (cases x)
    let ?c = "c\<lparr>calls := calls c @ [(m, p)], cerr := ordered_log (cerr c) m,
      check_loggers := set_insert (<) p (check_loggers c), ordered_next := rest\<rparr>"
    note pop = pop_first_ok[OF less.prems, of m p rest, OF Cons[unfolded x]]
    obtain c2 vs2 where r: "check_loop (check_loggers ?c) ?c = Inr c2" "settled vs0 V (set (check_loggers c2)) c2 vs2"
      "same_sys (sys ?c) (sys c2)" "weight c2 vs2 \<le> weight ?c vs"
      using check_loop_ok[of vs0 V ?c "check_loggers ?c" vs] pop(1,2) by auto
    obtain c' vs' where "consume_while c2 = Some (Inr c')" "settled vs0 V (set (check_loggers c')) c' vs'"
      "ordered_next c' = []" "same_sys (sys c2) (sys c')"
      using less.hyps[OF _ r(2)] r(4) pop(3) by (meson le_less_trans)
    then show ?thesis using r(1,3) Cons x
      by (subst consume_while.simps) (auto simp: Let_def intro: same_sys_trans)
  qed
qed

lemma visit_ok:
  assumes st: "settled vs0 V (set (check_loggers c)) c vs" and on: "ordered_next c = []"
    and p: "p \<notin> V" "p \<in> set (loggers (sys c))"
  shows "\<exists>c2 vs2. settled vs0 (insert p V) (set (check_loggers c2)) c2 vs2 \<and> same_sys (sys c) (sys c2) \<and>
    consume_for (p # ls) c =
      (case consume_while c2 of None \<Rightarrow> None | Some (Inl e) \<Rightarrow> Some (Inl e) | Some (Inr c3) \<Rightarrow> consume_for ls c3)"
proof -
  have f: "flow vs0 c vs" and pt: "parts V c" and V: "V \<subseteq> set (loggers (sys c))" and d: "drained vs0 (set (check_loggers c)) c"
    using st by (simp_all add: settled_def)
  have n: "p \<notin> snd ` set (ordered_next c)" "p \<notin> set (check_loggers c)" using p pt by (auto simp: parts_def)
  from f p(2) n(1) show ?thesis
  proof (cases rule: poll_cases)
    case (empty c1 vs1)
    let ?c = "c1\<lparr>check_loggers := set_insert (<) p (check_loggers c1)\<rparr>"
    have "settled vs0 (insert p V) (set (check_loggers ?c)) ?c vs1"
      using empty pt V d p(2) addr_insert[OF n(2)] on
      by (auto simp: settled_def flow_def parts_def drained_def same_sys_def)
    then show ?thesis using empty by (intro exI[of _ ?c] exI[of _ vs1]) simp
  next
    case (got m c1 vs1)
    let ?c = "c1\<lparr>ordered_next := set_insert MsgLoggerPair_less (m, p) (ordered_next c1)\<rparr>"
    have "settled vs0 (insert p V) (set (check_loggers ?c)) ?c vs1"
      using got(6)[of "check_loggers c1"] got(2-5) pt V d p(2) n on pair_insert[OF n(1)]
      by (auto simp: settled_def flow_def parts_def drained_def same_sys_def)
    then show ?thesis using got by (intro exI[of _ ?c] exI[of _ vs1]) simp
  qed
qed

lemma consume_for_ok:
  assumes "settled vs0 V (set (check_loggers c)) c vs" "ordered_next c = []" "distinct ls"
    "set ls \<inter> V = {}" "set ls \<subseteq> set (loggers (sys c))"
  shows "\<exists>c' vs'. consume_for ls c = Some (Inr c') \<and> settled vs0 (V \<union> set ls) (set (check_loggers c')) c' vs' \<and>
    ordered_next c' = [] \<and> same_sys (sys c) (sys c')"
  using assms
proof (induction ls arbitrary: c vs V)
  case Nil
  then show ?case by auto
next
  case (Cons p ls)
  obtain c2 vs2 where c2: "settled vs0 (insert p V) (set (check_loggers c2)) c2 vs2" "same_sys (sys c) (sys c2)"
    "consume_for (p # ls) c = (case consume_while c2 of None \<Rightarrow> None | Some (Inl e) \<Rightarrow> Some (Inl e) | Some (Inr c3) \<Rightarrow> consume_for ls c3)"
    using visit_ok[OF Cons.prems(1,2), of p ls] Cons.prems(4,5) by auto
  obtain c3 vs3 where c3: "consume_while c2 = Some (Inr c3)" "settled vs0 (insert p V) (set (check_loggers c3)) c3 vs3"
    "ordered_next c3 = []" "same_sys (sys c2) (sys c3)" using consume_while_ok[OF c2(1)] by blast
  have "distinct ls" "set ls \<inter> insert p V = {}" "set ls \<subseteq> set (loggers (sys c3))"
    using Cons.prems(3-5) c2(2) c3(4) by (auto simp: same_sys_def)
  from Cons.IH[OF c3(2,3) this] obtain c' vs' where r: "consume_for ls c3 = Some (Inr c')"
    "settled vs0 (insert p V \<union> set ls) (set (check_loggers c')) c' vs'" "ordered_next c' = []" "same_sys (sys c3) (sys c')" by blast
  have "consume_for (p # ls) c = Some (Inr c')" unfolding c2(3) by (simp add: c3(1) r(1))
  moreover have "same_sys (sys c) (sys c')" using c2(2) c3(4) r(4) by (simp add: same_sys_def)
  ultimately show ?case using r(2,3) by auto
qed

lemma consume_ok:
  assumes r: "log_rep st vs" and m: "logger_mutex st = None" and a: "\<forall>as \<in> set arr. snd ` set as \<subseteq> set (loggers st)"
  shows "\<exists>c vs'. consume t arr err st = Some (Inr c) \<and> log_rep (sys c) vs' \<and> same_sys st (sys c) \<and> ordered_next c = [] \<and>
    (\<forall>p. vs p @ msgs_of p (accepted c) = msgs_of p (calls c) @ vs' p) \<and>
    (\<forall>p \<in> set (loggers st). length (vs p) \<le> length (msgs_of p (calls c)))"
proof -
  let ?st = "st\<lparr>logger_mutex := Some t\<rparr>"
  let ?c = "\<lparr>sys = ?st, ordered_next = [], check_loggers = [], arrivals = arr, accepted = [], calls = [], cerr = err\<rparr>"
  have "settled vs {} (set (check_loggers ?c)) ?c vs"
    using r a by (simp add: settled_def flow_def parts_def drained_def log_rep_def queues_ok_def)
  from consume_for_ok[OF this, of "loggers st"] obtain c vs' where c: "consume_for (loggers st) ?c = Some (Inr c)"
    "settled vs (set (loggers st)) (set (check_loggers c)) c vs'" "ordered_next c = []" "same_sys ?st (sys c)"
    using r by (auto simp: log_rep_def)
  let ?r = "c\<lparr>sys := UvMutex_unlock (sys c)\<rparr>"
  have "consume t arr err st = Some (Inr ?r)" using c(1) m by (simp add: consume_def UvMutex_lock_def)
  moreover have "same_sys st (sys ?r)" using c(4) m by (simp add: same_sys_def UvMutex_unlock_def)
  moreover have "log_rep (sys ?r) vs'" using c(2,4) r
    by (simp add: settled_def flow_def log_rep_def owners_ok_def queues_ok_def same_sys_def UvMutex_unlock_def)
  moreover have "set (check_loggers c) = set (loggers st)" using c(2,3) by (simp add: settled_def parts_def)
  ultimately show ?thesis using c(2,3)
    by (intro exI[of _ ?r] exI[of _ vs']) (auto simp: settled_def flow_def drained_def)
qed

subsection \<open>The order of the output while nobody logs\<close>

lemma poll_quiet:
  assumes "arrivals c = []" "queues_ok (sys c) vs" "p \<in> set (loggers (sys c))"
  shows "\<exists>st. poll_logger p c = Inr (first (vs p), c\<lparr>sys := st\<rparr>) \<and> same_sys (sys c) st \<and> queues_ok st (vs(p := tl (vs p)))"
proof -
  obtain L where L: "logger_at (sys c) p = Some L" "bq_rep (messages L) (vs p)" using assms(2,3) by (auto simp: queues_ok_def)
  obtain q where e: "b_try_dequeue (messages L) = Inr (first (vs p), q)" "bq_rep q (tl (vs p))"
    using bq.deq_law[OF L(2)] by blast
  let ?st = "(sys c)\<lparr>logger_at := (logger_at (sys c))(p \<mapsto> L\<lparr>messages := q\<rparr>)\<rparr>"
  have "queues_ok ?st (vs(p := tl (vs p)))" using queues_ok_upd[OF assms(2,3), of "L\<lparr>messages := q\<rparr>"] e(2) by simp
  then show ?thesis using assms(1) L(1) e(1)
    by (intro exI[of _ ?st]) (simp add: poll_logger_def get_logger_def)
qed

lemma check_quiet_empty:
  assumes "arrivals c = []" "queues_ok (sys c) vs" "set is \<subseteq> set (loggers (sys c))" "\<forall>p \<in> set is. vs p = []"
  shows "\<exists>st. check_loop is c = Inr (c\<lparr>sys := st\<rparr>) \<and> same_sys (sys c) st \<and> queues_ok st vs"
  using assms
proof (induction "is" arbitrary: c)
  case Nil
  then show ?case by (intro exI[of _ "sys c"]) simp
next
  case (Cons p "is")
  obtain st where st: "poll_logger p c = Inr (None, c\<lparr>sys := st\<rparr>)" "same_sys (sys c) st" "queues_ok st vs"
    using poll_quiet[OF Cons.prems(1,2), of p] Cons.prems(3,4) by (auto simp: fun_upd_idem)
  then obtain st' where "check_loop is (c\<lparr>sys := st\<rparr>) = Inr (c\<lparr>sys := st'\<rparr>)" "same_sys st st'" "queues_ok st' vs"
    using Cons.IH[of "c\<lparr>sys := st\<rparr>"] Cons.prems by (auto simp: same_sys_def)
  then show ?case using st by (intro exI[of _ st']) (simp add: same_sys_def)
qed

lemma check_loop_append: "check_loop (xs @ ys) c = bindE (check_loop xs c) (check_loop ys)"
  by (induction xs arbitrary: c) (simp_all add: bindE_def split: sum.split option.split prod.split)

lemma check_quiet:
  assumes q: "arrivals c = []" "queues_ok (sys c) vs" and s: "set is \<subseteq> set (loggers (sys c))" "distinct is"
    and l: "l \<in> set is" "\<forall>p \<in> set is - {l}. vs p = []" and on: "ordered_next c = []"
  shows "\<exists>st. check_loop is c =
      Inr (case vs l of [] \<Rightarrow> c\<lparr>sys := st\<rparr>
           | m # _ \<Rightarrow> c\<lparr>sys := st, ordered_next := [(m, l)], check_loggers := remove1 l (check_loggers c)\<rparr>) \<and>
    same_sys (sys c) st \<and> queues_ok st (vs(l := tl (vs l)))"
proof -
  obtain xs ys where i: "is = xs @ l # ys" using l(1) by (auto simp: in_set_conv_decomp)
  obtain st1 where x: "check_loop xs c = Inr (c\<lparr>sys := st1\<rparr>)" "same_sys (sys c) st1" "queues_ok st1 vs"
    using check_quiet_empty[OF q, of xs] s l(2) i by auto
  obtain st2 where p: "poll_logger l (c\<lparr>sys := st1\<rparr>) = Inr (first (vs l), c\<lparr>sys := st2\<rparr>)" "same_sys st1 st2"
    "queues_ok st2 (vs(l := tl (vs l)))" using poll_quiet[of "c\<lparr>sys := st1\<rparr>" vs l] q(1) x s(1) i by (auto simp: same_sys_def)
  let ?c = "case vs l of [] \<Rightarrow> c\<lparr>sys := st2\<rparr>
      | m # _ \<Rightarrow> c\<lparr>sys := st2, ordered_next := [(m, l)], check_loggers := remove1 l (check_loggers c)\<rparr>"
  have c: "arrivals ?c = []" "sys ?c = st2" using q(1) by (simp_all split: list.split)
  have ys: "\<forall>p \<in> set ys. (vs(l := tl (vs l))) p = []" "set ys \<subseteq> set (loggers (sys ?c))"
    using l(2) s x(2) p(2) i unfolding c(2) by (auto simp: same_sys_def)
  have "queues_ok (sys ?c) (vs(l := tl (vs l)))" using p(3) unfolding c(2) .
  from check_quiet_empty[OF c(1) this ys(2,1)] obtain st3 where y: "check_loop ys ?c = Inr (?c\<lparr>sys := st3\<rparr>)" "same_sys st2 st3"
    "queues_ok st3 (vs(l := tl (vs l)))" unfolding c(2) by blast
  have "check_loop is c = Inr (?c\<lparr>sys := st3\<rparr>)"
    using x(1) p(1) y(1) on by (auto simp: i check_loop_append split: list.splits)
  then show ?thesis using y x p by (intro exI[of _ st3]) (simp add: same_sys_def split: list.splits)
qed

lemma pop_quiet:
  fixes m :: msg_ptr
  assumes q: "arrivals c = []" "queues_ok (sys c) (vs(l := ws))" and l: "l \<notin> set (check_loggers c)" "distinct (check_loggers c)"
    and s: "insert l (set (check_loggers c)) \<subseteq> set (loggers (sys c))" and e: "\<forall>p \<in> set (check_loggers c). vs p = []"
  defines "c1 \<equiv> c\<lparr>calls := calls c @ [(m, l)], cerr := ordered_log (cerr c) m,
      check_loggers := set_insert (<) l (check_loggers c), ordered_next := []\<rparr>"
  shows "\<exists>st. check_loop (check_loggers c1) c1 =
      Inr (case ws of [] \<Rightarrow> c1\<lparr>sys := st\<rparr>
           | w # _ \<Rightarrow> c1\<lparr>sys := st, ordered_next := [(w, l)], check_loggers := remove1 l (check_loggers c1)\<rparr>) \<and>
    same_sys (sys c) st \<and> queues_ok st (vs(l := tl ws))"
proof -
  have "arrivals c1 = []" "queues_ok (sys c1) (vs(l := ws))" "set (check_loggers c1) \<subseteq> set (loggers (sys c1))"
    "distinct (check_loggers c1)" "l \<in> set (check_loggers c1)" "\<forall>p \<in> set (check_loggers c1) - {l}. (vs(l := ws)) p = []"
    "ordered_next c1 = []"
    using q s e addr_insert[OF l(1)] l(2) by (simp_all add: c1_def)
  note r = check_quiet[OF this, unfolded fun_upd_upd fun_upd_same]
  have "sys c1 = sys c" by (simp add: c1_def)
  from r[unfolded this] show ?thesis .
qed

lemma while_quiet:
  assumes "arrivals c = []" "queues_ok (sys c) (vs(l := ws))" "l \<notin> set (check_loggers c)" "distinct (check_loggers c)"
    "insert l (set (check_loggers c)) \<subseteq> set (loggers (sys c))" "\<forall>p \<in> set (check_loggers c). vs p = []"
    "ordered_next c = [(m, l)]"
  shows "\<exists>c'. consume_while c = Some (Inr c') \<and> calls c' = calls c @ map (\<lambda>x. (x, l)) (m # ws) \<and> arrivals c' = [] \<and>
    ordered_next c' = [] \<and> queues_ok (sys c') (vs(l := [])) \<and> same_sys (sys c) (sys c') \<and>
    set (check_loggers c') = insert l (set (check_loggers c)) \<and> distinct (check_loggers c')"
  using assms
proof (induction ws arbitrary: c m)
  case Nil
  let ?c = "c\<lparr>calls := calls c @ [(m, l)], cerr := ordered_log (cerr c) m,
      check_loggers := set_insert (<) l (check_loggers c), ordered_next := []\<rparr>"
  note ins = addr_insert[OF Nil.prems(3)]
  obtain st where st: "check_loop (check_loggers ?c) ?c = Inr (?c\<lparr>sys := st\<rparr>)" "same_sys (sys c) st" "queues_ok st (vs(l := []))"
    using pop_quiet[OF Nil.prems(1-6), of m] by auto
  have "consume_while (?c\<lparr>sys := st\<rparr>) = Some (Inr (?c\<lparr>sys := st\<rparr>))" by (subst consume_while.simps) simp
  then have "consume_while c = Some (Inr (?c\<lparr>sys := st\<rparr>))"
    using st(1) by (subst consume_while.simps) (simp add: Nil.prems(7) Let_def)
  then show ?case using st st(3)[unfolded fun_upd_def] Nil.prems ins by (intro exI[of _ "?c\<lparr>sys := st\<rparr>"]) simp
next
  case (Cons w ws)
  let ?c = "c\<lparr>calls := calls c @ [(m, l)], cerr := ordered_log (cerr c) m,
      check_loggers := set_insert (<) l (check_loggers c), ordered_next := []\<rparr>"
  note ins = addr_insert[OF Cons.prems(3)]
  obtain st where st: "check_loop (check_loggers ?c) ?c =
      Inr (?c\<lparr>sys := st, ordered_next := [(w, l)], check_loggers := remove1 l (set_insert (<) l (check_loggers c))\<rparr>)"
    "same_sys (sys c) st" "queues_ok st (vs(l := ws))"
    using pop_quiet[OF Cons.prems(1-6), of m] by auto
  let ?d = "?c\<lparr>sys := st, ordered_next := [(w, l)], check_loggers := remove1 l (set_insert (<) l (check_loggers c))\<rparr>"
  have d: "set (check_loggers ?d) = set (check_loggers c)" "distinct (check_loggers ?d)"
    using ins Cons.prems(3,4) by auto
  obtain c' where c': "consume_while ?d = Some (Inr c')" "calls c' = calls c @ (m, l) # map (\<lambda>x. (x, l)) (w # ws)" "arrivals c' = []"
    "ordered_next c' = []" "queues_ok (sys c') (vs(l := []))" "same_sys st (sys c')"
    "set (check_loggers c') = insert l (set (check_loggers c))" "distinct (check_loggers c')"
    using Cons.IH[of ?d w] st Cons.prems d by (auto simp: same_sys_def fun_upd_def)
  have "consume_while c = consume_while ?d" using st(1) by (subst consume_while.simps) (simp add: Cons.prems(7) Let_def)
  then show ?case using c' st(2) by (intro exI[of _ c']) (simp add: same_sys_def fun_upd_def)
qed

lemma visit_quiet:
  assumes "arrivals c = []" "queues_ok (sys c) vs" "ordered_next c = []" "distinct (check_loggers c)"
    "p \<notin> set (check_loggers c)" "insert p (set (check_loggers c)) \<subseteq> set (loggers (sys c))"
    "\<forall>x \<in> set (check_loggers c). vs x = []"
  shows "\<exists>c'. consume_for (p # ls) c = consume_for ls c' \<and> calls c' = calls c @ map (\<lambda>x. (x, p)) (vs p) \<and> arrivals c' = [] \<and>
    ordered_next c' = [] \<and> queues_ok (sys c') (vs(p := [])) \<and> same_sys (sys c) (sys c') \<and>
    set (check_loggers c') = insert p (set (check_loggers c)) \<and> distinct (check_loggers c')"
proof -
  obtain st where st: "poll_logger p c = Inr (first (vs p), c\<lparr>sys := st\<rparr>)" "same_sys (sys c) st" "queues_ok st (vs(p := tl (vs p)))"
    using poll_quiet[OF assms(1,2), of p] assms(6) by auto
  show ?thesis
  proof (cases "vs p")
    case Nil
    let ?c = "c\<lparr>sys := st, check_loggers := set_insert (<) p (check_loggers c)\<rparr>"
    have "consume_while ?c = Some (Inr ?c)" using assms(3) by (subst consume_while.simps) simp
    then have "consume_for (p # ls) c = consume_for ls ?c" using st(1) Nil by simp
    then show ?thesis using st Nil assms(1-4) addr_insert[OF assms(5)] by (intro exI[of _ ?c]) simp
  next
    case (Cons m ws)
    let ?c = "c\<lparr>sys := st, ordered_next := [(m, p)]\<rparr>"
    obtain c' where c': "consume_while ?c = Some (Inr c')" "calls c' = calls c @ map (\<lambda>x. (x, p)) (m # ws)" "arrivals c' = []"
      "ordered_next c' = []" "queues_ok (sys c') (vs(p := []))" "same_sys st (sys c')"
      "set (check_loggers c') = insert p (set (check_loggers c))" "distinct (check_loggers c')"
      using while_quiet[of ?c vs p ws m] st assms Cons by (auto simp: same_sys_def)
    have "consume_for (p # ls) c = consume_for ls c'" using st(1) c'(1) assms(3) Cons by simp
    then show ?thesis using c' st(2) Cons by (intro exI[of _ c']) (simp add: same_sys_def)
  qed
qed

lemma for_quiet:
  assumes "arrivals c = []" "queues_ok (sys c) vs" "ordered_next c = []" "distinct (check_loggers c)"
    "set ls \<inter> set (check_loggers c) = {}" "set ls \<union> set (check_loggers c) \<subseteq> set (loggers (sys c))"
    "\<forall>x \<in> set (check_loggers c). vs x = []" "distinct ls"
  shows "\<exists>c'. consume_for ls c = Some (Inr c') \<and> calls c' = calls c @ concat (map (\<lambda>p. map (\<lambda>x. (x, p)) (vs p)) ls)"
  using assms
proof (induction ls arbitrary: c vs)
  case (Cons p ls)
  obtain c1 where c1: "consume_for (p # ls) c = consume_for ls c1" "calls c1 = calls c @ map (\<lambda>x. (x, p)) (vs p)" "arrivals c1 = []"
    "ordered_next c1 = []" "queues_ok (sys c1) (vs(p := []))" "same_sys (sys c) (sys c1)"
    "set (check_loggers c1) = insert p (set (check_loggers c))" "distinct (check_loggers c1)"
    using visit_quiet[of c vs p ls] Cons.prems by auto
  have p: "p \<notin> set ls" "distinct ls" using Cons.prems(8) by simp_all
  have "set ls \<inter> set (check_loggers c1) = {}" "set ls \<union> set (check_loggers c1) \<subseteq> set (loggers (sys c1))"
    "\<forall>x \<in> set (check_loggers c1). (vs(p := [])) x = []"
    using Cons.prems(5-7) c1(6,7) p by (auto simp: same_sys_def)
  from Cons.IH[OF c1(3,5,4,8) this p(2)] obtain c' where c': "consume_for ls c1 = Some (Inr c')"
    "calls c' = calls c1 @ concat (map (\<lambda>q. map (\<lambda>x. (x, q)) ((vs(p := [])) q)) ls)" by blast
  have "map (\<lambda>q. map (\<lambda>x. (x, q)) ((vs(p := [])) q)) ls = map (\<lambda>q. map (\<lambda>x. (x, q)) (vs q)) ls"
    using p(1) by (intro map_cong) auto
  then have "calls c' = calls c @ concat (map (\<lambda>q. map (\<lambda>x. (x, q)) (vs q)) (p # ls))"
    unfolding c'(2) c1(2) by (simp only: append_assoc list.map concat.simps)
  with c'(1) show ?case unfolding c1(1) by blast
qed simp

lemma consume_quiet:
  assumes r: "log_rep st vs" and m: "logger_mutex st = None"
  shows "\<exists>c. consume t [] err st = Some (Inr c) \<and> calls c = concat (map (\<lambda>p. map (\<lambda>x. (x, p)) (vs p)) (loggers st))"
proof -
  let ?c = "\<lparr>sys = st\<lparr>logger_mutex := Some t\<rparr>, ordered_next = [], check_loggers = [], arrivals = [], accepted = [],
      calls = [], cerr = err\<rparr>"
  obtain c where "consume_for (loggers st) ?c = Some (Inr c)"
    "calls c = concat (map (\<lambda>p. map (\<lambda>x. (x, p)) (vs p)) (loggers st))"
    using for_quiet[of ?c vs "loggers st"] r by (auto simp: log_rep_def queues_ok_def)
  then show ?thesis using m
    by (intro exI[of _ "c\<lparr>sys := UvMutex_unlock (sys c)\<rparr>"]) (simp add: consume_def UvMutex_lock_def)
qed

subsection \<open>What reaches the standard error stream\<close>

definition printed :: "string \<Rightarrow> consumer \<Rightarrow> bool" where
  "printed err c \<longleftrightarrow> cerr c = foldl ordered_log err (map fst (calls c))"

lemma arrive_silent: "arrive as c = Inr c' \<Longrightarrow> cerr c' = cerr c \<and> calls c' = calls c"
  by (induction as c rule: arrive.induct) fastforce+

lemma poll_silent: "poll_logger p c = Inr (r, c') \<Longrightarrow> cerr c' = cerr c \<and> calls c' = calls c"
  by (auto simp: poll_logger_def dest!: arrive_silent split: list.splits)

lemma check_silent: "check_loop is c = Inr c' \<Longrightarrow> cerr c' = cerr c \<and> calls c' = calls c"
  by (induction "is" c rule: check_loop.induct) (fastforce dest: poll_silent split: option.splits)+

lemma while_printed:
  assumes "consume_while c = Some (Inr c')" "printed err c"
  shows "printed err c'"
proof -
  have "\<forall>c'. r = Inr c' \<longrightarrow> printed err c \<longrightarrow> printed err c'" if "consume_while c = Some r" for c r
    by (rule consume_while.raw_induct[OF _ that])
      (auto simp: Let_def printed_def dest!: check_silent split: list.splits prod.splits sum.splits)
  then show ?thesis using assms by blast
qed

lemma for_printed:
  assumes "consume_for ls c = Some (Inr c')" "printed err c"
  shows "printed err c'"
  using assms
proof (induction ls arbitrary: c)
  case (Cons p ls)
  from Cons.prems(1) obtain r c1 where r: "poll_logger p c = Inr (r, c1)"
    by (cases "poll_logger p c") auto
  let ?c = "case r of Some msg \<Rightarrow> c1\<lparr>ordered_next := set_insert MsgLoggerPair_less (msg, p) (ordered_next c1)\<rparr>
      | None \<Rightarrow> c1\<lparr>check_loggers := set_insert (<) p (check_loggers c1)\<rparr>"
  from Cons.prems(1) r obtain c3 where w: "consume_while ?c = Some (Inr c3)" "consume_for ls c3 = Some (Inr c')"
    by (auto simp: Let_def split: option.splits sum.splits)
  have "printed err ?c" using Cons.prems(2) poll_silent[OF r] by (simp add: printed_def split: option.splits)
  with w show ?case using while_printed Cons.IH by blast
qed simp

lemma consume_printed: "consume t arr err st = Some (Inr c) \<Longrightarrow> printed err c"
  by (auto simp: consume_def printed_def dest!: for_printed[where err = err] split: option.splits)

subsection \<open>The whole logger\<close>

text \<open>All states of the program that logging, the end of threads and consuming lead to.\<close>

inductive log_reach :: "log_sys \<Rightarrow> bool" where
  reach_start: "log_reach log_init"
| reach_log: "\<lbrakk>log_reach st; log_env_ok E; real_log_msg E t item st = Some (Inr (item', st'))\<rbrakk> \<Longrightarrow> log_reach st'"
| reach_exit: "\<lbrakk>log_reach st; tl_initialized (locals st t); LogCloser_dtor t st = Inr st'\<rbrakk> \<Longrightarrow> log_reach st'"
| reach_consume: "\<lbrakk>log_reach st; \<forall>as \<in> set arr. snd ` set as \<subseteq> set (loggers st);
     consume t arr err st = Some (Inr c)\<rbrakk> \<Longrightarrow> log_reach (sys c)"

lemma real_log_msg_rep:
  assumes "log_env_ok E" "log_rep st vs" "logger_mutex st = None" "real_log_msg E t item st = Some (Inr (item', st'))"
  shows "\<exists>vs'. log_rep st' vs' \<and> logger_mutex st' = None"
  using real_log_msg_ok[OF assms(1,2), of t item] assms(3,4) by (auto simp: queued_def opened_def split: if_splits)

lemma log_reach_rep: "log_reach st \<Longrightarrow> \<exists>vs. log_rep st vs \<and> logger_mutex st = None"
proof (induction rule: log_reach.induct)
  case reach_start
  then show ?case using log_init_rep by (auto simp: log_init_def)
next
  case (reach_log st E t item item' st')
  then show ?case using real_log_msg_rep by blast
next
  case (reach_exit st t st')
  then obtain vs where "log_rep st vs" "logger_mutex st = None" by blast
  then show ?case using LogCloser_dtor_ok[of st vs t] reach_exit by auto
next
  case (reach_consume st arr t err c)
  then obtain vs where "log_rep st vs" "logger_mutex st = None" by blast
  then show ?case using consume_ok[of st vs arr t err] reach_consume by (auto simp: same_sys_def)
qed

lemma prefix_by_length:
  assumes "a @ b = c @ d" "length a \<le> length c"
  shows "\<exists>e. c = a @ e"
  using assms by (metis append_eq_append_conv_if append_take_drop_id)

subsection \<open>Theorems\<close>

definition demo_state :: "msg_ptr bq \<Rightarrow> msg_ptr bq \<Rightarrow> log_sys" where
  "demo_state q1 q2 = log_init\<lparr>loggers := [4096, 8192],
     logger_at := [4096 \<mapsto> \<lparr>closed = False, messages = q1\<rparr>, 8192 \<mapsto> \<lparr>closed = False, messages = q2\<rparr>]\<rparr>"

definition demo_msg :: "int \<Rightarrow> LogMessage" where
  "demo_msg sec = LogMessage_ctor \<lparr>tv_sec = sec, tv_nsec = 0\<rparr> ''a.cpp'' ''f'' 7 LOG_INFO"

definition demo_contents :: "addr \<Rightarrow> msg_ptr list" where
  "demo_contents p = (if p = 4096 then [(64, demo_msg 2)] else if p = 8192 then [(32, demo_msg 1)] else [])"

lemma demo_queue_with:
  fixes m :: msg_ptr
  shows "\<exists>q. bq_rep q [m]"
proof -
  let ?q = "\<lparr>inner = (arena_env, arena_heap, demo_rwq), sema = \<lparr>m_count = 0, m_sema = 0\<rparr>\<rparr> :: msg_ptr bq"
  have "reserve (arena_heap :: msg_ptr heap) [1048576] 3" by (simp add: reserve_def arena_heap_def arena_block_def)
  then have "roomy arena_env 3 (dom (arena_heap :: msg_ptr heap)) (arena_env, arena_heap :: msg_ptr heap, demo_rwq) []"
    using arena_env_ok arena_queue by (auto simp: roomy_def)
  from roomy_enqueue[OF this, of m] obtain i where i: "rwq_enqueue CannotAlloc m (inner ?q) = Inr (True, i)" by auto
  have "bq_rep ?q []" using arena_env_ok arena_queue by (auto simp: bq_rep_def rwq_rep_def)
  from bq.enq_law[OF this, of CannotAlloc m] obtain ok q' where e: "b_enqueue CannotAlloc m ?q = Inr (ok, q')"
    "bq_rep q' (if ok then [] @ [m] else [])" by blast
  then have ok using i by (auto simp: b_enqueue_def)
  with e show ?thesis by auto
qed

lemma demo_state_rep: "\<exists>q1 q2. log_rep (demo_state q1 q2) demo_contents"
proof -
  obtain q1 where "bq_rep q1 (demo_contents 4096)" using demo_queue_with by (auto simp: demo_contents_def)
  moreover obtain q2 where "bq_rep q2 (demo_contents 8192)" using demo_queue_with by (auto simp: demo_contents_def)
  ultimately show ?thesis
    by (intro exI[of _ q1] exI[of _ q2]) (simp add: log_rep_def queues_ok_def owners_ok_def demo_state_def log_init_def)
qed



text \<open>C33: while nobody logs, \<^verbatim>\<open>consume\<close> hands over all messages of the first registered thread, then
  all of the second, and so on. The comment of the file promises the order of the time stamps;
  they play no part.\<close>

theorem consume_order_is_registration_order:
  assumes "log_rep st vs" and "logger_mutex st = None"
  shows "\<exists>c. consume t [] err st = Some (Inr c) \<and> calls c = concat (map (\<lambda>p. map (\<lambda>m. (m, p)) (vs p)) (loggers st))"
  by (rule consume_quiet[OF assms])

theorem consume_order_is_registration_order_witness:
  "\<exists>q1 q2 c. consume 1 [] '''' (demo_state q1 q2) = Some (Inr c) \<and>
    calls c = [((64, demo_msg 2), 4096), ((32, demo_msg 1), 8192)] \<and>
    pair_compare ((32, demo_msg 1), 8192) ((64, demo_msg 2), 4096)"
proof -
  obtain q1 q2 where r: "log_rep (demo_state q1 q2) demo_contents" using demo_state_rep by blast
  have "logger_mutex (demo_state q1 q2) = None" by (simp add: demo_state_def log_init_def)
  from consume_order_is_registration_order[OF r this, of 1 "''''"] show ?thesis
    by (auto simp: demo_state_def demo_contents_def pair_compare_def demo_msg_def LogMessage_ctor_def timespec_less_def)
qed



end
