(* ===== verification/Uv_Log_Consumer.thy ===== *)
theory Uv_Log_Consumer
  imports Log_Consumer
begin

text \<open>
  \<^verbatim>\<open>uvlogconsumer.cpp\<close>: a consumer of the log that the loop of libuv calls at intervals. The timers of the
  loop are modelled as libuv documents them: a timer is known to the loop from \<^verbatim>\<open>uv_timer_init\<close> until it
  is closed, it is active between \<^verbatim>\<open>uv_timer_start\<close> and \<^verbatim>\<open>uv_timer_stop\<close>, and when it is due it is stopped,
  or started again if it repeats, before its callback runs. The threads that log are those of \<open>Logger\<close>.
\<close>

subsection \<open>Timers\<close>

record uv_timer =
  due :: "nat option"
  repeat :: nat
  timer_data :: addr

text \<open>The handles of the loop, by the address of the consumer they are members of; the consumers that are
  constructed and not yet destroyed; and the log with what was printed.\<close>

record log_app =
  now :: nat
  timers :: "addr \<rightharpoonup> uv_timer"
  consumers :: "addr set"
  log :: log_sys
  err_text :: string

definition uv_timer_init :: "addr \<Rightarrow> log_app \<Rightarrow> log_app" where
  "uv_timer_init p A = A\<lparr>timers := (timers A)(p \<mapsto> \<lparr>due = None, repeat = 0, timer_data = nullptr\<rparr>)\<rparr>"

definition uv_timer_start :: "addr \<Rightarrow> nat \<Rightarrow> nat \<Rightarrow> log_app \<Rightarrow> log_app res" where
  "uv_timer_start p timeout rep A = (case timers A p of
     None \<Rightarrow> Inl BadPointer
   | Some tm \<Rightarrow> Inr (A\<lparr>timers := (timers A)(p \<mapsto> tm\<lparr>due := Some (now A + timeout), repeat := rep\<rparr>)\<rparr>))"

definition uv_timer_stop :: "addr \<Rightarrow> log_app \<Rightarrow> log_app res" where
  "uv_timer_stop p A = (case timers A p of
     None \<Rightarrow> Inl BadPointer
   | Some tm \<Rightarrow> Inr (A\<lparr>timers := (timers A)(p \<mapsto> tm\<lparr>due := None\<rparr>)\<rparr>))"

text \<open>\<^verbatim>\<open>uv_loop_close\<close> refuses while the loop has handles.\<close>

definition UV_EBUSY :: int where "UV_EBUSY = - 16"

definition uv_loop_close :: "log_app \<Rightarrow> addr set \<Rightarrow> int" where
  "uv_loop_close A ps = (if \<exists>p \<in> ps. timers A p \<noteq> None then UV_EBUSY else 0)"

subsection \<open>The consumer\<close>

definition UvLogConsumer_ctor :: "addr \<Rightarrow> log_app \<Rightarrow> log_app" where
  "UvLogConsumer_ctor p A =
     (let A1 = uv_timer_init p (A\<lparr>consumers := insert p (consumers A)\<rparr>)
      in A1\<lparr>timers := (timers A1)(p := map_option (\<lambda>tm. tm\<lparr>timer_data := p\<rparr>) (timers A1 p))\<rparr>)"

definition UvLogConsumer_stop :: "addr \<Rightarrow> log_app \<Rightarrow> log_app res" where
  "UvLogConsumer_stop p A = (if p \<in> consumers A then uv_timer_stop p A else Inl BadPointer)"

definition UvLogConsumer_start :: "addr \<Rightarrow> nat \<Rightarrow> nat \<Rightarrow> log_app \<Rightarrow> log_app res" where
  "UvLogConsumer_start p timeout rep A = (if p \<in> consumers A then uv_timer_start p timeout rep A else Inl BadPointer)"

definition UvLogConsumer_dtor :: "addr \<Rightarrow> log_app \<Rightarrow> log_app res" where
  "UvLogConsumer_dtor p A = bindE (UvLogConsumer_stop p A) (\<lambda>A1. Inr (A1\<lparr>consumers := consumers A1 - {p}\<rparr>))"

text \<open>The callback, in the thread \<open>t\<close> of the loop, with what other threads log meanwhile.\<close>

definition timer_cb :: "tid \<Rightarrow> MsgLoggerPair list list \<Rightarrow> uv_timer \<Rightarrow> log_app \<Rightarrow> (consumer \<times> log_app) res option" where
  "timer_cb t arr handle A =
     (if timer_data handle \<notin> consumers A then Some (Inl BadPointer)
      else map_option (\<lambda>r. bindE r (\<lambda>c. Inr (c, A\<lparr>log := sys c, err_text := cerr c\<rparr>))) (consume t arr (err_text A) (log A)))"

text \<open>The loop runs a timer that is due.\<close>

definition run_timer :: "tid \<Rightarrow> MsgLoggerPair list list \<Rightarrow> addr \<Rightarrow> log_app \<Rightarrow> (consumer \<times> log_app) res option" where
  "run_timer t arr p A = (case timers A p of
     None \<Rightarrow> None
   | Some tm \<Rightarrow> (case due tm of
       None \<Rightarrow> None
     | Some d \<Rightarrow>
         if now A < d then None
         else timer_cb t arr tm (A\<lparr>timers := (timers A)(p \<mapsto>
                tm\<lparr>due := (if repeat tm = 0 then None else Some (now A + repeat tm))\<rparr>)\<rparr>)))"

subsection \<open>Runs of the program\<close>

inductive app_reach :: "log_app \<Rightarrow> bool" where
  app_start: "app_reach \<lparr>now = n, timers = Map.empty, consumers = {}, log = log_init, err_text = err\<rparr>"
| app_ctor: "\<lbrakk>app_reach A; timers A p = None\<rbrakk> \<Longrightarrow> app_reach (UvLogConsumer_ctor p A)"
| app_begin: "\<lbrakk>app_reach A; p \<in> consumers A; UvLogConsumer_start p timeout rep A = Inr A'\<rbrakk> \<Longrightarrow> app_reach A'"
| app_stop: "\<lbrakk>app_reach A; p \<in> consumers A; UvLogConsumer_stop p A = Inr A'\<rbrakk> \<Longrightarrow> app_reach A'"
| app_dtor: "\<lbrakk>app_reach A; p \<in> consumers A; UvLogConsumer_dtor p A = Inr A'\<rbrakk> \<Longrightarrow> app_reach A'"
| app_time: "app_reach A \<Longrightarrow> app_reach (A\<lparr>now := now A + n\<rparr>)"
| app_log: "\<lbrakk>app_reach A; log_env_ok E; real_log_msg E t item (log A) = Some (Inr (item', st'))\<rbrakk> \<Longrightarrow> app_reach (A\<lparr>log := st'\<rparr>)"
| app_exit: "\<lbrakk>app_reach A; tl_initialized (locals (log A) t); LogCloser_dtor t (log A) = Inr st'\<rbrakk> \<Longrightarrow> app_reach (A\<lparr>log := st'\<rparr>)"
| app_timer: "\<lbrakk>app_reach A; \<forall>as \<in> set arr. snd ` set as \<subseteq> set (loggers (log A));
     run_timer t arr p A = Some (Inr (c, A'))\<rbrakk> \<Longrightarrow> app_reach A'"

text \<open>Each constructed consumer has its timer, whose data is that consumer; a timer is active only while its
  consumer lives.\<close>

definition timers_ok :: "log_app \<Rightarrow> bool" where
  "timers_ok A \<longleftrightarrow> (\<forall>p \<in> consumers A. timers A p \<noteq> None) \<and>
     (\<forall>p tm. timers A p = Some tm \<longrightarrow> timer_data tm = p \<and> (due tm \<noteq> None \<longrightarrow> p \<in> consumers A))"

lemma timers_okD:
  "timers_ok A \<Longrightarrow> p \<in> consumers A \<Longrightarrow> \<exists>tm. timers A p = Some tm"
  "timers_ok A \<Longrightarrow> timers A p = Some tm \<Longrightarrow> timer_data tm = p \<and> (due tm \<noteq> None \<longrightarrow> p \<in> consumers A)"
  by (auto simp: timers_ok_def)

lemmas consumer_defs = UvLogConsumer_ctor_def UvLogConsumer_start_def UvLogConsumer_stop_def UvLogConsumer_dtor_def
  uv_timer_init_def uv_timer_start_def uv_timer_stop_def

lemma consumer_timers:
  assumes "timers_ok A"
  shows "timers A p = None \<Longrightarrow> timers_ok (UvLogConsumer_ctor p A)"
    "UvLogConsumer_start p timeout rep A = Inr A' \<Longrightarrow> timers_ok A'"
    "UvLogConsumer_stop p A = Inr A' \<Longrightarrow> timers_ok A'" "UvLogConsumer_dtor p A = Inr A' \<Longrightarrow> timers_ok A'"
  using assms by (auto simp: consumer_defs timers_ok_def Let_def split: if_splits option.splits)

lemma consumer_logs:
  "log (UvLogConsumer_ctor p A) = log A" "UvLogConsumer_start p timeout rep A = Inr A' \<Longrightarrow> log A' = log A"
  "UvLogConsumer_stop p A = Inr A' \<Longrightarrow> log A' = log A" "UvLogConsumer_dtor p A = Inr A' \<Longrightarrow> log A' = log A"
  by (auto simp: consumer_defs Let_def split: if_splits option.splits)

lemma run_timer_cases:
  assumes "timers_ok A" "run_timer t arr p A = Some r"
  obtains tm d A1 where "timers A p = Some tm" "due tm = Some d" "d \<le> now A" "p \<in> consumers A" "timers_ok A1" "log A1 = log A"
    "err_text A1 = err_text A" "consumers A1 = consumers A"
    "timers A1 p = Some (tm\<lparr>due := (if repeat tm = 0 then None else Some (now A + repeat tm))\<rparr>)"
    "map_option (\<lambda>r. bindE r (\<lambda>c. Inr (c, A1\<lparr>log := sys c, err_text := cerr c\<rparr>))) (consume t arr (err_text A) (log A)) = Some r"
proof -
  obtain tm d where tm: "timers A p = Some tm" "due tm = Some d" "d \<le> now A"
    using assms(2) by (auto simp: run_timer_def split: option.splits if_splits)
  note d = timers_okD(2)[OF assms(1) tm(1)]
  let ?A = "A\<lparr>timers := (timers A)(p \<mapsto> tm\<lparr>due := (if repeat tm = 0 then None else Some (now A + repeat tm))\<rparr>)\<rparr>"
  have ok: "timers_ok ?A" using assms(1) d tm by (auto simp: timers_ok_def)
  have p: "p \<in> consumers A" using d tm(2) by simp
  have "run_timer t arr p A = timer_cb t arr tm ?A" using tm by (simp add: run_timer_def)
  then have r: "map_option (\<lambda>r. bindE r (\<lambda>c. Inr (c, ?A\<lparr>log := sys c, err_text := cerr c\<rparr>))) (consume t arr (err_text A) (log A)) = Some r"
    using assms(2) d p by (simp add: timer_cb_def)
  show ?thesis by (rule that[OF tm p ok _ _ _ _ r]) simp_all
qed

lemma app_reach_ok: "app_reach A \<Longrightarrow> timers_ok A \<and> log_reach (log A)"
proof (induction rule: app_reach.induct)
  case (app_timer A arr t p c A')
  obtain A1 where a: "timers_ok A1" "log A1 = log A"
    "map_option (\<lambda>r. bindE r (\<lambda>c. Inr (c, A1\<lparr>log := sys c, err_text := cerr c\<rparr>))) (consume t arr (err_text A) (log A)) = Some (Inr (c, A'))"
    by (rule run_timer_cases[OF conjunct1[OF app_timer.IH] app_timer.hyps(3)])
  from a(3) have c: "consume t arr (err_text A) (log A) = Some (Inr c)" "A' = A1\<lparr>log := sys c, err_text := cerr c\<rparr>" by auto
  have "log_reach (sys c)" using reach_consume[OF _ app_timer.hyps(2) c(1)] app_timer.IH by blast
  then show ?case using a(1) c(2) by (simp add: timers_ok_def)
next
  case (app_log A E t item item' st')
  then show ?case using reach_log by (auto simp: timers_ok_def)
next
  case (app_exit A t st')
  then show ?case using reach_exit by (auto simp: timers_ok_def)
next
  case (app_ctor A p)
  then show ?case by (simp add: consumer_timers(1) consumer_logs(1))
next
  case (app_begin A p timeout rep A')
  then show ?case using consumer_timers(2)[OF conjunct1[OF app_begin.IH] app_begin.hyps(3)] consumer_logs(2)[OF app_begin.hyps(3)] by simp
next
  case (app_stop A p A')
  then show ?case using consumer_timers(3)[OF conjunct1[OF app_stop.IH] app_stop.hyps(3)] consumer_logs(3)[OF app_stop.hyps(3)] by simp
next
  case (app_dtor A p A')
  then show ?case using consumer_timers(4)[OF conjunct1[OF app_dtor.IH] app_dtor.hyps(3)] consumer_logs(4)[OF app_dtor.hyps(3)] by simp
next
  case (app_time A n)
  then show ?case by (simp add: timers_ok_def)
qed (simp add: timers_ok_def reach_start)

subsection \<open>Theorems\<close>

text \<open>C18: A timer of the loop that is due calls a consumer that is alive, in every state that constructing, starting,
  stopping and destroying consumers, logging and the passing of time lead to; it prints all messages
  that were queued, each once, thread by thread in order; and it is due again after the interval
  exactly if it repeats.\<close>

theorem timer_prints_log:
  assumes "app_reach A" "timers A p = Some tm" "due tm = Some d" "d \<le> now A"
  shows "p \<in> consumers A \<and> (\<exists>vs c A'. log_rep (log A) vs \<and> run_timer t [] p A = Some (Inr (c, A')) \<and> app_reach A' \<and>
    calls c = concat (map (\<lambda>q. map (\<lambda>m. (m, q)) (vs q)) (loggers (log A))) \<and>
    err_text A' = foldl ordered_log (err_text A) (map fst (calls c)) \<and>
    timers A' p = Some (tm\<lparr>due := (if repeat tm = 0 then None else Some (now A + repeat tm))\<rparr>))"
proof -
  have ok: "timers_ok A" "log_reach (log A)" using app_reach_ok[OF assms(1)] by blast+
  obtain vs where r: "log_rep (log A) vs" "logger_mutex (log A) = None" using log_reach_rep[OF ok(2)] by blast
  obtain c where c: "consume t [] (err_text A) (log A) = Some (Inr c)"
    "calls c = concat (map (\<lambda>q. map (\<lambda>m. (m, q)) (vs q)) (loggers (log A)))" using consume_quiet[OF r] by blast
  have p: "p \<in> consumers A" "timer_data tm = p" using timers_okD(2)[OF ok(1) assms(2)] assms(3) by simp_all
  define A1 where "A1 = A\<lparr>timers := (timers A)(p \<mapsto> tm\<lparr>due := (if repeat tm = 0 then None else Some (now A + repeat tm))\<rparr>)\<rparr>"
  let ?A = "A1\<lparr>log := sys c, err_text := cerr c\<rparr>"
  have run: "run_timer t [] p A = Some (Inr (c, ?A))"
    using assms(2-4) p c(1) by (simp add: run_timer_def timer_cb_def A1_def)
  have "app_reach ?A" by (rule app_timer[OF assms(1) _ run]) simp
  moreover have "err_text ?A = foldl ordered_log (err_text A) (map fst (calls c))"
    using consume_printed[OF c(1)] by (simp add: printed_def)
  moreover have "timers ?A p = Some (tm\<lparr>due := (if repeat tm = 0 then None else Some (now A + repeat tm))\<rparr>)" by (simp add: A1_def)
  ultimately show ?thesis using p(1) r(1) run c(2) by blast
qed

definition demo_app :: log_app where
  "demo_app = \<lparr>now = 0, timers = [64 \<mapsto> \<lparr>due = Some 100, repeat = 50, timer_data = 64\<rparr>], consumers = {64},
     log = log_init, err_text = ''''\<rparr>"

lemma demo_app_reach: "app_reach demo_app"
proof -
  let ?A = "\<lparr>now = 0, timers = Map.empty, consumers = {}, log = log_init, err_text = ''''\<rparr>"
  have "app_reach (UvLogConsumer_ctor 64 ?A)" by (rule app_ctor[OF app_start]) simp
  then show ?thesis
    by (rule app_begin[of _ 64 100 50]) (simp_all add: consumer_defs demo_app_def)
qed

theorem timer_prints_log_witness:
  "\<exists>c A'. run_timer 1 [] 64 (demo_app\<lparr>now := 120\<rparr>) = Some (Inr (c, A')) \<and> err_text A' = '''' \<and>
    timers A' 64 = Some \<lparr>due = Some 170, repeat = 50, timer_data = 64\<rparr>"
proof -
  let ?A = "demo_app\<lparr>now := 120\<rparr>"
  have r: "app_reach ?A" using app_time[OF demo_app_reach, of 120] by (simp add: demo_app_def)
  have t: "timers ?A 64 = Some \<lparr>due = Some 100, repeat = 50, timer_data = 64\<rparr>" by (simp add: demo_app_def)
  have l: "loggers (log ?A) = []" "err_text ?A = ''''" "now ?A = 120" by (simp_all add: demo_app_def log_init_def)
  obtain c A' where "run_timer 1 [] 64 ?A = Some (Inr (c, A'))" "calls c = []" "err_text A' = foldl ordered_log '''' (map fst (calls c))"
    "timers A' 64 = Some \<lparr>due = Some 170, repeat = 50, timer_data = 64\<rparr>"
    using timer_prints_log[OF r t, of 100 1] l by auto
  then show ?thesis by (intro exI[of _ c] exI[of _ A']) simp
qed

text \<open>Once a consumer is destroyed its timer does not call it again, however much time passes; but the timer stays a
  handle of the loop, in memory that is gone: \<^verbatim>\<open>uv_loop_close\<close> refuses from then on.\<close>

theorem destroyed_consumer_quiet:
  assumes "app_reach A" "p \<in> consumers A"
  shows "\<exists>A'. UvLogConsumer_dtor p A = Inr A' \<and> app_reach A' \<and> p \<notin> consumers A' \<and>
    (\<forall>n. run_timer t arr p (A'\<lparr>now := n\<rparr>) = None) \<and> uv_loop_close A' {p} = UV_EBUSY"
proof -
  obtain tm where tm: "timers A p = Some tm" using timers_okD(1)[OF conjunct1[OF app_reach_ok[OF assms(1)]] assms(2)] by blast
  let ?A = "A\<lparr>timers := (timers A)(p \<mapsto> tm\<lparr>due := None\<rparr>), consumers := consumers A - {p}\<rparr>"
  have d: "UvLogConsumer_dtor p A = Inr ?A" using assms(2) tm by (simp add: consumer_defs)
  have "app_reach ?A" by (rule app_dtor[OF assms d])
  then show ?thesis using d by (simp add: run_timer_def uv_loop_close_def)
qed

theorem destroyed_consumer_quiet_witness:
  "\<exists>A'. UvLogConsumer_dtor 64 demo_app = Inr A' \<and> run_timer 1 [] 64 (A'\<lparr>now := 100\<rparr>) = None \<and> uv_loop_close A' {64} = UV_EBUSY"
proof -
  have "64 \<in> consumers demo_app" by (simp add: demo_app_def)
  from destroyed_consumer_quiet[OF demo_app_reach this, of 1 "[]"] show ?thesis by blast
qed

end
