(* ===== verification/Webserver.thy ===== *)
theory Webserver
  imports App_Prelude
begin

text \<open>
  \<^verbatim>\<open>webserver.cpp\<close>, with \<^verbatim>\<open>webserver_demo.cpp\<close>, \<^verbatim>\<open>appserver.cpp\<close> and the same parts of \<^verbatim>\<open>simple.cpp\<close>: listeners,
  accepted connections, the set-up of TLS, the registration of websockets, and the start of the
  demo server. What is asked of libuv, h2o and OpenSSL is recorded in order in the state; what they
  answer is an argument. Memory is a map from addresses to the way they were allocated, so that
  releasing it the wrong way shows.
\<close>

subsection \<open>State\<close>

datatype alloc = Malloced | Newed

datatype close_cb = CloseConnection | CloseListener | CloseFree | NoCallback

datatype lib_call =
    TcpInit addr
  | Bind addr string nat
  | Listen addr nat
  | Accept addr addr
  | Close addr close_cb
  | SocketCreate addr close_cb
  | H2oAccept addr
  | RegisterPath string
  | CreateHandler string string
  | AccessLog string
  | Reproxy string
  | FileRegister string string
  | SslCall string
  | SslUse string string

record creation_record =
  cr_path :: string
  cr_data :: addr

record server =
  allocs :: "addr \<rightharpoonup> alloc"
  handle_data :: "addr \<rightharpoonup> addr"
  calls :: "lib_call list"
  websocket_registrations :: "(addr \<times> creation_record) list"
  websocket_handlers :: "(string \<times> addr) list"

definition ask :: "lib_call list \<Rightarrow> server \<Rightarrow> server" where
  "ask cs st = st\<lparr>calls := calls st @ cs\<rparr>"

text \<open>\<^verbatim>\<open>delete\<close> and \<^verbatim>\<open>free\<close>.\<close>

definition delete_op :: "addr \<Rightarrow> server \<Rightarrow> server res" where
  "delete_op p st = (case allocs st p of
     None \<Rightarrow> Inl BadPointer
   | Some Malloced \<Rightarrow> Inl BadFree
   | Some Newed \<Rightarrow> Inr (st\<lparr>allocs := (allocs st)(p := None)\<rparr>))"

definition free_op :: "addr \<Rightarrow> server \<Rightarrow> server res" where
  "free_op p st = (case allocs st p of
     None \<Rightarrow> Inl BadPointer
   | Some Malloced \<Rightarrow> Inr (st\<lparr>allocs := (allocs st)(p := None)\<rparr>)
   | Some Newed \<Rightarrow> Inl BadFree)"

subsection \<open>Connections\<close>

text \<open>\<open>p\<close> is what the allocation returns.\<close>

definition new_connection_record :: "addr \<Rightarrow> server \<Rightarrow> server" where
  "new_connection_record p st = st\<lparr>allocs := (allocs st)(p \<mapsto> Malloced)\<rparr>"

definition release_connection_record :: "addr \<Rightarrow> server \<Rightarrow> server res" where
  "release_connection_record p st = free_op p st"

definition close_connection :: "addr \<Rightarrow> server \<Rightarrow> server res" where
  "close_connection p st = delete_op p st"

definition on_accept :: "addr \<Rightarrow> addr \<Rightarrow> int \<Rightarrow> int \<Rightarrow> server \<Rightarrow> server res" where
  "on_accept p listener status accept_rc st =
     (if status \<noteq> 0 then Inr st
      else if p = nullptr then Inl BadPointer
      else let st1 = ask [TcpInit p, Accept listener p] (new_connection_record p st) in
        if accept_rc \<noteq> 0 then Inr (ask [Close p CloseConnection] st1)
        else Inr (ask [SocketCreate p CloseConnection, H2oAccept p] st1))"

definition simple_on_accept :: "addr \<Rightarrow> addr \<Rightarrow> int \<Rightarrow> int \<Rightarrow> server \<Rightarrow> server res" where
  "simple_on_accept p listener status accept_rc st =
     (if status \<noteq> 0 then Inr st
      else if p = nullptr then Inl BadPointer
      else let st1 = ask [TcpInit p, Accept listener p] (st\<lparr>allocs := (allocs st)(p \<mapsto> Malloced)\<rparr>) in
        if accept_rc \<noteq> 0 then Inr (ask [Close p CloseFree] st1)
        else Inr (ask [SocketCreate p CloseFree, H2oAccept p] st1))"

text \<open>The loop runs the callback of a handle when the handle is closed.\<close>

definition run_close :: "close_cb \<Rightarrow> addr \<Rightarrow> server \<Rightarrow> server res" where
  "run_close cb p st = (case cb of
     CloseConnection \<Rightarrow> close_connection p st
   | CloseFree \<Rightarrow> free_op p st
   | CloseListener \<Rightarrow> (case handle_data st p of None \<Rightarrow> Inr st | Some lr \<Rightarrow> delete_op lr st)
   | NoCallback \<Rightarrow> Inr st)"

subsection \<open>Listeners\<close>

text \<open>A \<^verbatim>\<open>ListenerRecord\<close> at \<open>p\<close> holds the pointer to the server and then the handle.\<close>

definition listener_handle :: "addr \<Rightarrow> addr" where
  "listener_handle p = p + 8"

definition new_listener_record :: "addr \<Rightarrow> server \<Rightarrow> server" where
  "new_listener_record p st = st\<lparr>allocs := (allocs st)(p \<mapsto> Newed), handle_data := (handle_data st)(listener_handle p \<mapsto> p)\<rparr>"

definition close_listener :: "addr \<Rightarrow> server \<Rightarrow> server res" where
  "close_listener handle st = run_close CloseListener handle st"

text \<open>The error path closes \<^verbatim>\<open>&listener\<close>, the address of the local pointer \<open>local\<close>, not the handle.\<close>

definition create_listener :: "addr \<Rightarrow> addr \<Rightarrow> string \<Rightarrow> nat \<Rightarrow> int \<Rightarrow> int \<Rightarrow> server \<Rightarrow> int \<times> server" where
  "create_listener p local ip port bind_rc listen_rc st =
     (let listener = listener_handle p;
          st1 = ask [TcpInit listener, Bind listener ip port] (new_listener_record p st)
      in if bind_rc \<noteq> 0 then (bind_rc, ask [Close local CloseListener] st1)
         else let st2 = ask [Listen listener 128] st1 in
           if listen_rc \<noteq> 0 then (listen_rc, ask [Close local CloseListener] st2)
           else (0, st2))"

definition create_ip4_listener :: "addr \<Rightarrow> addr \<Rightarrow> nat \<Rightarrow> int \<Rightarrow> int \<Rightarrow> server \<Rightarrow> int \<times> server" where
  "create_ip4_listener p local port bind_rc listen_rc st = create_listener p local ''0.0.0.0'' port bind_rc listen_rc st"

definition simple_create_listener :: "addr \<Rightarrow> int \<Rightarrow> int \<Rightarrow> server \<Rightarrow> int \<times> server" where
  "simple_create_listener listener bind_rc listen_rc st =
     (let st1 = ask [TcpInit listener, Bind listener ''127.0.0.1'' 7890] st
      in if bind_rc \<noteq> 0 then (bind_rc, ask [Close listener NoCallback] st1)
         else let st2 = ask [Listen listener 128] st1 in
           if listen_rc \<noteq> 0 then (listen_rc, ask [Close listener NoCallback] st2)
           else (0, st2))"

subsection \<open>TLS\<close>

definition setup_ssl :: "string \<Rightarrow> string \<Rightarrow> string \<Rightarrow> int \<Rightarrow> int \<Rightarrow> int \<Rightarrow> server \<Rightarrow> int \<times> server" where
  "setup_ssl cert_file key_file ciphers cert_rc key_rc cipher_rc st =
     (let st1 = ask ([SslCall ''OPENSSL_init'', SslCall ''SSL_load_error_strings'', SslCall ''SSL_library_init'',
                      SslCall ''OpenSSL_add_all_algorithms'', SslCall ''SSL_CTX_new'',
                      SslUse ''SSL_CTX_set_options'' ''SSL_OP_NO_SSLv2'', SslCall ''SSL_CTX_set_ecdh_auto'',
                      SslUse ''SSL_CTX_use_certificate_chain_file'' cert_file]) st
      in if cert_rc \<noteq> 1 then (- 1, st1)
         else let st2 = ask [SslUse ''SSL_CTX_use_PrivateKey_file'' key_file] st1
           in if key_rc \<noteq> 1 then (- 2, st2)
              else let st3 = ask [SslUse ''SSL_CTX_set_cipher_list'' ciphers] st2
                in if cipher_rc \<noteq> 1 then (- 3, st3)
                   else (0, ask [SslCall ''h2o_ssl_register_npn_protocols'', SslCall ''h2o_ssl_register_alpn_protocols''] st3))"

definition simple_setup_ssl :: "string \<Rightarrow> string \<Rightarrow> string \<Rightarrow> int \<Rightarrow> int \<Rightarrow> int \<Rightarrow> server \<Rightarrow> int \<times> server" where
  "simple_setup_ssl cert_file key_file ciphers cert_rc key_rc cipher_rc st =
     (let st1 = ask ([SslCall ''SSL_load_error_strings'', SslCall ''SSL_library_init'',
                      SslCall ''OpenSSL_add_all_algorithms'', SslCall ''SSL_CTX_new'',
                      SslUse ''SSL_CTX_set_options'' ''SSL_OP_NO_SSLv2'', SslCall ''SSL_CTX_set_ecdh_auto'',
                      SslUse ''SSL_CTX_use_certificate_chain_file'' cert_file]) st
      in if cert_rc \<noteq> 1 then (- 1, st1)
         else let st2 = ask [SslUse ''SSL_CTX_use_PrivateKey_file'' key_file] st1
           in if key_rc \<noteq> 1 then (- 1, st2)
              else let st3 = ask [SslUse ''SSL_CTX_set_cipher_list'' ciphers] st2
                in if cipher_rc \<noteq> 1 then (- 1, st3)
                   else (0, ask [SslCall ''h2o_ssl_register_npn_protocols'', SslCall ''h2o_ssl_register_alpn_protocols''] st3))"

subsection \<open>Registration\<close>

definition register_handler :: "string \<Rightarrow> string \<Rightarrow> server \<Rightarrow> server" where
  "register_handler path on_req st = ask [RegisterPath path, CreateHandler path on_req] st"

definition register_websocket :: "addr \<Rightarrow> string \<Rightarrow> addr \<Rightarrow> server \<Rightarrow> server" where
  "register_websocket p path data st =
     (let registration = \<lparr>cr_path = path, cr_data = data\<rparr>;
          st1 = ask [RegisterPath path] (st\<lparr>allocs := (allocs st)(p \<mapsto> Newed)\<rparr>);
          st2 = st1\<lparr>websocket_registrations := websocket_registrations st1 @ [(p, registration)]\<rparr>
      in (ask [CreateHandler path ''on_websocket_req''] st2)\<lparr>websocket_handlers := websocket_handlers st2 @ [(path, p)]\<rparr>)"

subsection \<open>The demo server\<close>

definition access_log :: "bool \<Rightarrow> string \<Rightarrow> server \<Rightarrow> server" where
  "access_log logfh path st = (if logfh then ask [AccessLog path] st else st)"

definition demo_paths :: "bool \<Rightarrow> server \<Rightarrow> server" where
  "demo_paths logfh st =
     (let st1 = access_log logfh ''/post-test'' (register_handler ''/post-test'' ''post_test'' st);
          st2 = access_log logfh ''/chunked-test'' (register_handler ''/chunked-test'' ''chunked_test'' st1);
          st3 = access_log logfh ''/reproxy-test''
                  (ask [Reproxy ''/reproxy-test''] (register_handler ''/reproxy-test'' ''reproxy_test'' st2))
      in access_log logfh ''/'' (ask [RegisterPath ''/'', FileRegister ''/'' ''examples/doc_root''] st3))"

text \<open>The answers of the libraries to one start of the server.\<close>

record answers =
  logfh :: bool
  cert_rc :: int
  key_rc :: int
  cipher_rc :: int
  bind_rc :: int
  listen_rc :: int

definition webserver_demo :: "addr \<Rightarrow> addr \<Rightarrow> answers \<Rightarrow> server \<Rightarrow> int \<times> server" where
  "webserver_demo p local a st =
     (let st1 = demo_paths (logfh a) st;
          (ssl, st2) = setup_ssl ''certs/server-crt.pem'' ''certs/server-key.pem''
            ''DEFAULT:!MD5:!DSS:!DES:!RC4:!RC2:!SEED:!IDEA:!NULL:!ADH:!EXP:!SRP:!PSK'' (cert_rc a) (key_rc a) (cipher_rc a) st1
      in if ssl \<noteq> 0 then (- 5, st2)
         else let (rv, st3) = create_ip4_listener p local 7890 (bind_rc a) (listen_rc a) st2
           in if rv \<noteq> 0 then (- 4, st3) else (0, st3))"

text \<open>\<^verbatim>\<open>main\<close> of \<^verbatim>\<open>appserver.cpp\<close>: the exit code and whether the loop ran.\<close>

definition appserver_main :: "int \<Rightarrow> addr \<Rightarrow> addr \<Rightarrow> answers \<Rightarrow> server \<Rightarrow> int \<times> bool \<times> server" where
  "appserver_main loop_rc p local a st =
     (if loop_rc \<noteq> 0 then (loop_rc, False, st)
      else let (rv, st1) = webserver_demo p local a st in
        if rv \<noteq> 0 then (rv, False, st1) else (rv, True, st1))"

subsection \<open>Handles are initialised before they are closed\<close>

fun closes_ok :: "addr set \<Rightarrow> lib_call list \<Rightarrow> bool" where
  "closes_ok hs [] \<longleftrightarrow> True"
| "closes_ok hs (TcpInit h # cs) \<longleftrightarrow> closes_ok (insert h hs) cs"
| "closes_ok hs (Close h cb # cs) \<longleftrightarrow> h \<in> hs \<and> closes_ok (hs - {h}) cs"
| "closes_ok hs (c # cs) \<longleftrightarrow> closes_ok hs cs"

fun open_handles :: "addr set \<Rightarrow> lib_call list \<Rightarrow> addr set" where
  "open_handles hs [] = hs"
| "open_handles hs (TcpInit h # cs) = open_handles (insert h hs) cs"
| "open_handles hs (Close h cb # cs) = open_handles (hs - {h}) cs"
| "open_handles hs (c # cs) = open_handles hs cs"

lemma closes_ok_append: "closes_ok hs (xs @ ys) \<longleftrightarrow> closes_ok hs xs \<and> closes_ok (open_handles hs xs) ys"
  by (induction hs xs rule: closes_ok.induct) auto

lemma calls_ask [simp]: "calls (ask cs st) = calls st @ cs" "allocs (ask cs st) = allocs st"
  "handle_data (ask cs st) = handle_data st"
  by (simp_all add: ask_def)

definition registrations_ok :: "server \<Rightarrow> bool" where
  "registrations_ok st \<longleftrightarrow> distinct (map fst (websocket_registrations st)) \<and>
     (\<forall>(p, r) \<in> set (websocket_registrations st). allocs st p = Some Newed) \<and>
     (\<forall>(path, p) \<in> set (websocket_handlers st).
        \<exists>r. map_of (websocket_registrations st) p = Some r \<and> cr_path r = path)"

lemma register_websocket_ok:
  assumes ok: "registrations_ok st" and p: "p \<notin> fst ` set (websocket_registrations st)"
  shows "registrations_ok (register_websocket p path data st)"
proof -
  let ?r = "\<lparr>cr_path = path, cr_data = data\<rparr>" and ?st = "register_websocket p path data st"
  have e: "websocket_registrations ?st = websocket_registrations st @ [(p, ?r)]"
    "websocket_handlers ?st = websocket_handlers st @ [(path, p)]" "allocs ?st = (allocs st)(p \<mapsto> Newed)"
    by (simp_all add: register_websocket_def Let_def ask_def)
  have n: "map_of (websocket_registrations st) p = None" using p by (simp add: map_of_eq_None_iff)
  have "\<exists>r. map_of (websocket_registrations ?st) q = Some r \<and> cr_path r = path'" if "(path', q) \<in> set (websocket_handlers ?st)" for path' q
  proof (cases "(path', q) = (path, p)")
    case True
    then show ?thesis using n by (simp add: e map_add_def)
  next
    case False
    then have "(path', q) \<in> set (websocket_handlers st)" using that e(2) by auto
    then obtain r where "map_of (websocket_registrations st) q = Some r" "cr_path r = path'"
      using ok by (auto simp: registrations_ok_def)
    then show ?thesis by (auto simp: e(1) map_add_find_right)
  qed
  moreover have "\<forall>(q, r) \<in> set (websocket_registrations ?st). allocs ?st q = Some Newed"
    using ok p unfolding e registrations_ok_def by auto
  moreover have "distinct (map fst (websocket_registrations ?st))" using ok p unfolding e registrations_ok_def by simp
  ultimately show ?thesis unfolding registrations_ok_def by blast
qed

lemma open_handles_append: "open_handles hs (xs @ ys) = open_handles (open_handles hs xs) ys"
  by (induction hs xs rule: open_handles.induct) auto

lemmas trace_simps = closes_ok_append open_handles_append

definition demo_server :: server where
  "demo_server = \<lparr>allocs = Map.empty, handle_data = Map.empty, calls = [], websocket_registrations = [], websocket_handlers = []\<rparr>"

subsection \<open>Theorems\<close>

text \<open>C38: \<^verbatim>\<open>create_listener\<close> returns 0 exactly when binding and listening succeed, and otherwise the first
  error. On every error it hands libuv the address of a local variable to close instead of the
  handle: the calls keep the rule that only initialised handles are closed exactly when it
  succeeds, and after an error the handle and its record stay behind. The \<^verbatim>\<open>create_listener\<close> of
  \<^verbatim>\<open>simple.cpp\<close> keeps the rule in all cases.\<close>

theorem create_listener_error_path:
  assumes "closes_ok {} (calls st)" and "local \<notin> open_handles {} (calls st)" and "local \<noteq> listener_handle p"
    and "create_listener p local ip port b l st = (rv, st')" and "simple_create_listener h b l st = (rv', st2)"
  shows "rv = (if b \<noteq> 0 then b else l) \<and> (closes_ok {} (calls st') \<longleftrightarrow> rv = 0) \<and>
    (rv \<noteq> 0 \<longrightarrow> listener_handle p \<in> open_handles {} (calls st') \<and> allocs st' p = Some Newed) \<and>
    rv' = rv \<and> closes_ok {} (calls st2)"
  using assms
  by (auto simp: create_listener_def simple_create_listener_def new_listener_record_def Let_def trace_simps split: if_splits)

theorem create_listener_error_path_witness:
  "\<not> closes_ok {} (calls (snd (create_listener 4096 512 ''0.0.0.0'' 7890 (- 98) 0 demo_server)))"
proof -
  obtain st' where c: "create_listener 4096 512 ''0.0.0.0'' 7890 (- 98) 0 demo_server = (- 98, st')"
    by (auto simp: create_listener_def Let_def)
  obtain rv st2 where s: "simple_create_listener 64 (- 98) 0 demo_server = (rv, st2)" by fastforce
  have "closes_ok {} (calls demo_server)" "512 \<notin> open_handles {} (calls demo_server)" "512 \<noteq> listener_handle 4096"
    by (simp_all add: demo_server_def listener_handle_def)
  from create_listener_error_path[OF this c s] c show ?thesis by simp
qed

text \<open>Every connection \<^verbatim>\<open>on_accept\<close> takes is memory from \<^verbatim>\<open>malloc\<close> whose close callback uses
  \<^verbatim>\<open>delete\<close>: when the connection is closed, by the accept error path or later by h2o, it is released
  the wrong way, while \<^verbatim>\<open>release_connection_record\<close>, which nothing calls, would release it properly.
  The \<^verbatim>\<open>on_accept\<close> of \<^verbatim>\<open>simple.cpp\<close> pairs the two correctly; a failed status does nothing in either.\<close>

theorem accepted_connection_release:
  assumes "p \<noteq> nullptr"
  shows "\<exists>st1 st2. on_accept p listener status rc st = Inr st1 \<and> simple_on_accept p listener status rc st = Inr st2 \<and>
    (if status \<noteq> 0 then st1 = st \<and> st2 = st
     else (Close p CloseConnection \<in> set (calls st1) \<or> SocketCreate p CloseConnection \<in> set (calls st1)) \<and>
       run_close CloseConnection p st1 = Inl BadFree \<and> (\<exists>st'. release_connection_record p st1 = Inr st' \<and> allocs st' p = None) \<and>
       (Close p CloseFree \<in> set (calls st2) \<or> SocketCreate p CloseFree \<in> set (calls st2)) \<and>
       (\<exists>st'. run_close CloseFree p st2 = Inr st' \<and> allocs st' p = None))"
  using assms
  by (auto simp: on_accept_def simple_on_accept_def new_connection_record_def Let_def run_close_def close_connection_def
      release_connection_record_def delete_op_def free_op_def)

theorem accepted_connection_release_witness:
  "\<exists>st1. on_accept 64 4104 0 0 demo_server = Inr st1 \<and> run_close CloseConnection 64 st1 = Inl BadFree"
  using accepted_connection_release[of 64 4104 0 0 demo_server] by auto

text \<open>Every websocket handler keeps pointing at the registration it was created with: whatever is
  registered later, the record is alive, and holds the path of the handler.\<close>

theorem websocket_registration_kept:
  assumes "registrations_ok st" and "p \<notin> fst ` set (websocket_registrations st)"
    and "(path', q) \<in> set (websocket_handlers (register_websocket p path data st))"
  shows "registrations_ok (register_websocket p path data st) \<and>
    (\<exists>r. map_of (websocket_registrations (register_websocket p path data st)) q = Some r \<and> cr_path r = path' \<and>
      (map_of (websocket_registrations st) q = Some r \<or> q = p \<and> cr_data r = data))"
proof -
  have ok: "registrations_ok (register_websocket p path data st)" by (rule register_websocket_ok[OF assms(1,2)])
  then obtain r where r: "map_of (websocket_registrations (register_websocket p path data st)) q = Some r" "cr_path r = path'"
    using assms(3) by (auto simp: registrations_ok_def)
  moreover have "map_of (websocket_registrations st) q = Some r \<or> q = p \<and> cr_data r = data"
    using r(1) by (auto simp: register_websocket_def Let_def ask_def map_add_Some_iff split: if_splits)
  ultimately show ?thesis using ok by blast
qed

theorem websocket_registration_kept_witness:
  "\<exists>r. map_of (websocket_registrations (register_websocket 64 ''/ws'' 5 demo_server)) 64 = Some r \<and> cr_path r = ''/ws''"
proof -
  have "registrations_ok demo_server" "64 \<notin> fst ` set (websocket_registrations demo_server)"
    by (simp_all add: registrations_ok_def demo_server_def)
  moreover have "(''/ws'', 64) \<in> set (websocket_handlers (register_websocket 64 ''/ws'' 5 demo_server))"
    by (simp add: register_websocket_def Let_def)
  ultimately show ?thesis using websocket_registration_kept by blast
qed

definition paths_registered :: "server \<Rightarrow> bool" where
  "paths_registered st \<longleftrightarrow>
     {RegisterPath ''/post-test'', RegisterPath ''/chunked-test'', RegisterPath ''/reproxy-test'', RegisterPath ''/''} \<subseteq> set (calls st)"

lemma paths_registered_mono: "paths_registered st \<Longrightarrow> set (calls st) \<subseteq> set (calls st') \<Longrightarrow> paths_registered st'"
  by (auto simp: paths_registered_def)

lemma demo_paths_registered: "paths_registered (demo_paths l st)"
  by (simp add: paths_registered_def demo_paths_def access_log_def register_handler_def Let_def)

lemma demo_paths_init: "TcpInit h \<in> set (calls (demo_paths l st)) \<longleftrightarrow> TcpInit h \<in> set (calls st)"
  by (simp add: demo_paths_def access_log_def register_handler_def Let_def)

lemma setup_ssl_result:
  assumes "setup_ssl cf kf cs c k x st = (ssl, st')"
  shows "ssl = 0 \<longleftrightarrow> c = 1 \<and> k = 1 \<and> x = 1" "set (calls st) \<subseteq> set (calls st')"
    "TcpInit h \<in> set (calls st') \<longleftrightarrow> TcpInit h \<in> set (calls st)"
  using assms by (auto simp: setup_ssl_def Let_def split: if_splits)

lemma create_ip4_listener_result:
  assumes "create_ip4_listener p local port b l st = (rv, st')"
  shows "rv = 0 \<longleftrightarrow> b = 0 \<and> l = 0" "set (calls st) \<subseteq> set (calls st')"
    "rv = 0 \<Longrightarrow> Bind (listener_handle p) ''0.0.0.0'' port \<in> set (calls st') \<and> Listen (listener_handle p) 128 \<in> set (calls st')"
  using assms by (auto simp: create_ip4_listener_def create_listener_def new_listener_record_def Let_def split: if_splits)

text \<open>The exit code of the server tells what failed, and the loop runs only when nothing did: the
  code of libuv when the loop cannot be created, -5 when TLS cannot be set up, in which case no
  listener is opened, -4 when the address cannot be listened to, and 0 after the loop. The four
  paths are registered in either case, and the address is that of all interfaces.\<close>

theorem server_start_codes:
  "case appserver_main loop_rc p local a st of (rv, looped, st') \<Rightarrow>
     (looped \<longleftrightarrow> rv = 0) \<and>
     rv = (if loop_rc \<noteq> 0 then loop_rc
           else if cert_rc a \<noteq> 1 \<or> key_rc a \<noteq> 1 \<or> cipher_rc a \<noteq> 1 then - 5
           else if bind_rc a \<noteq> 0 \<or> listen_rc a \<noteq> 0 then - 4 else 0) \<and>
     (rv = 0 \<longrightarrow> Bind (listener_handle p) ''0.0.0.0'' 7890 \<in> set (calls st') \<and> Listen (listener_handle p) 128 \<in> set (calls st')) \<and>
     (loop_rc = 0 \<longrightarrow> paths_registered st') \<and>
     (loop_rc = 0 \<and> rv = - 5 \<longrightarrow> (\<forall>h. TcpInit h \<in> set (calls st') \<longrightarrow> TcpInit h \<in> set (calls st)))"
proof -
  let ?st1 = "demo_paths (logfh a) st"
  obtain ssl st2 where s: "setup_ssl ''certs/server-crt.pem'' ''certs/server-key.pem''
      ''DEFAULT:!MD5:!DSS:!DES:!RC4:!RC2:!SEED:!IDEA:!NULL:!ADH:!EXP:!SRP:!PSK'' (cert_rc a) (key_rc a) (cipher_rc a) ?st1 =
      (ssl, st2)" by (metis surj_pair)
  obtain lr st3 where l: "create_ip4_listener p local 7890 (bind_rc a) (listen_rc a) st2 = (lr, st3)" by fastforce
  note ssl = setup_ssl_result[OF s] and lis = create_ip4_listener_result[OF l]
  have reg: "paths_registered st2" "paths_registered st3"
    using paths_registered_mono[OF demo_paths_registered ssl(2)] paths_registered_mono[OF _ lis(2)] by blast+
  consider (loop) "loop_rc \<noteq> 0" | (ssl) "loop_rc = 0" "ssl \<noteq> 0" | (listen) "loop_rc = 0" "ssl = 0" "lr \<noteq> 0"
    | (ok) "loop_rc = 0" "ssl = 0" "lr = 0" by blast
  then show ?thesis
  proof cases
    case loop
    then show ?thesis by (simp add: appserver_main_def)
  next
    case ssl
    then have "appserver_main loop_rc p local a st = (- 5, False, st2)" by (simp add: appserver_main_def webserver_demo_def s)
    then show ?thesis using ssl setup_ssl_result[OF s] reg(1) demo_paths_init by auto
  next
    case listen
    then have "appserver_main loop_rc p local a st = (- 4, False, st3)" by (simp add: appserver_main_def webserver_demo_def s l)
    then show ?thesis using listen ssl(1) lis(1) reg(2) by auto
  next
    case ok
    then have "appserver_main loop_rc p local a st = (0, True, st3)" by (simp add: appserver_main_def webserver_demo_def s l)
    then show ?thesis using ok ssl(1) lis(1,3) reg(2) by auto
  qed
qed

theorem server_start_codes_witness:
  "fst (appserver_main 0 4096 512 \<lparr>logfh = True, cert_rc = 1, key_rc = 1, cipher_rc = 1, bind_rc = - 98, listen_rc = 0\<rparr> demo_server) = - 4"
  using server_start_codes[where loop_rc = 0 and p = 4096 and local = 512 and st = demo_server and
      a = "\<lparr>logfh = True, cert_rc = 1, key_rc = 1, cipher_rc = 1, bind_rc = - 98, listen_rc = 0\<rparr>"]
  by (auto split: prod.splits)

text \<open>The two set-ups of TLS agree on success; only the codes differ.\<close>

lemma setup_ssl_agree: "fst (setup_ssl cf kf cs c k x st) = 0 \<longleftrightarrow> fst (simple_setup_ssl cf kf cs c k x st) = 0"
  by (simp add: setup_ssl_def simple_setup_ssl_def Let_def)

end
