(* ===== verification/Http_Handlers.thy ===== *)
theory Http_Handlers
  imports App_Prelude
begin

text \<open>
  The request handlers of the program: the static file handler of \<^verbatim>\<open>webserver.cpp\<close> and its class in
  \<^verbatim>\<open>webserver_staticfile_handler.cpp\<close>, and the handlers of \<^verbatim>\<open>webserver_demo.cpp\<close> and \<^verbatim>\<open>simple.cpp\<close>. A
  handler returns -1 to decline a request and 0 after it has answered. What it asks h2o to do is
  recorded, in order, in the request; the comparison \<^verbatim>\<open>h2o_memis\<close> is an argument.
\<close>

subsection \<open>Requests\<close>

datatype h2o_call =
    AddHeader string string
  | StartResponse
  | Send string bool
  | SendInline string

record request =
  meth :: string
  path_normalized :: string
  entity :: string
  status :: int
  reason :: string
  h2o_calls :: "h2o_call list"

type_synonym memis = "string \<Rightarrow> string \<Rightarrow> bool"

definition memis_ok :: "memis \<Rightarrow> bool" where
  "memis_ok h2o_memis \<longleftrightarrow> (\<forall>a b. h2o_memis a b \<longleftrightarrow> a = b)"

definition ask :: "h2o_call list \<Rightarrow> request \<Rightarrow> request" where
  "ask cs req = req\<lparr>h2o_calls := h2o_calls req @ cs\<rparr>"

definition respond_ok :: "request \<Rightarrow> request" where
  "respond_ok req = req\<lparr>status := 200, reason := ''OK''\<rparr>"

subsection \<open>Static files\<close>

record static_file =
  content_type :: string
  content_type_size :: nat
  body :: string
  body_size :: nat

text \<open>\<^verbatim>\<open>register_static_file_handler\<close> and the constructor of \<^verbatim>\<open>WebServerStaticFileHandler\<close> fill the same
  members.\<close>

definition register_static_file_handler :: "string \<Rightarrow> string \<Rightarrow> nat \<Rightarrow> static_file" where
  "register_static_file_handler ctype data len =
     \<lparr>content_type = ctype, content_type_size = length ctype, body = data, body_size = len\<rparr>"

definition WebServerStaticFileHandler_ctor :: "string \<Rightarrow> string \<Rightarrow> nat \<Rightarrow> static_file" where
  "WebServerStaticFileHandler_ctor ctype data len =
     \<lparr>content_type = ctype, content_type_size = length ctype, body = data, body_size = len\<rparr>"

text \<open>A read beyond the end of the body is a read outside the array.\<close>

definition static_file_handler :: "memis \<Rightarrow> static_file \<Rightarrow> request \<Rightarrow> (int \<times> request) res" where
  "static_file_handler h2o_memis handler req =
     (if \<not> h2o_memis (meth req) ''GET'' then Inr (- 1, req)
      else if length (content_type handler) < content_type_size handler \<or> length (body handler) < body_size handler
      then Inl BadIndex
      else Inr (0, ask [AddHeader ''content-type'' (take (content_type_size handler) (content_type handler)),
                        SendInline (take (body_size handler) (body handler))] (respond_ok req)))"

definition WebServerStaticFileHandler_on_request :: "memis \<Rightarrow> static_file \<Rightarrow> request \<Rightarrow> (int \<times> request) res" where
  "WebServerStaticFileHandler_on_request h2o_memis self req =
     (if \<not> h2o_memis (meth req) ''GET'' then Inr (- 1, req)
      else let req1 = respond_ok req in
        if content_type_size self \<le> length (content_type self)
        then let req2 = ask [AddHeader ''content-type'' (take (content_type_size self) (content_type self))] req1 in
          if body_size self \<le> length (body self)
          then Inr (0, ask [SendInline (take (body_size self) (body self))] req2)
          else Inl BadIndex
        else Inl BadIndex)"

subsection \<open>Handlers of webserver\_demo.cpp\<close>

definition demo_body :: string where
  "demo_body = ''Hello.  There is a mouse in the house.'' @ [CHR 0x0A]"

definition chunked_test :: "memis \<Rightarrow> request \<Rightarrow> int \<times> request" where
  "chunked_test h2o_memis req =
     (if \<not> h2o_memis (meth req) ''GET'' then (- 1, req)
      else (0, ask [AddHeader ''content-type'' ''text/plain'', StartResponse, Send demo_body True] (respond_ok req)))"

definition reproxy_test :: "memis \<Rightarrow> request \<Rightarrow> int \<times> request" where
  "reproxy_test h2o_memis req =
     (if \<not> h2o_memis (meth req) ''GET'' then (- 1, req)
      else (0, ask [AddHeader ''x-reproxy-url'' ''http://www.ietf.org/'',
                    SendInline (''you should never see this!'' @ [CHR 0x0A])] (respond_ok req)))"

definition post_test :: "memis \<Rightarrow> request \<Rightarrow> int \<times> request" where
  "post_test h2o_memis req =
     (if h2o_memis (meth req) ''POST'' \<and> h2o_memis (path_normalized req) ''/post-test/''
      then (0, ask [AddHeader ''content-type'' ''text/plain; charset=utf-8'', StartResponse, Send (entity req) True]
                 (respond_ok req))
      else (- 1, req))"

subsection \<open>Handlers of simple.cpp\<close>

definition simple_body :: string where
  "simple_body = ''hello world'' @ [CHR 0x0A]"

definition simple_chunked_test :: "memis \<Rightarrow> request \<Rightarrow> int \<times> request" where
  "simple_chunked_test h2o_memis req =
     (if \<not> h2o_memis (meth req) ''GET'' then (- 1, req)
      else (0, ask [AddHeader ''content-type'' ''text/plain'', StartResponse, Send simple_body True] (respond_ok req)))"

definition simple_reproxy_test :: "memis \<Rightarrow> request \<Rightarrow> int \<times> request" where
  "simple_reproxy_test h2o_memis req =
     (if \<not> h2o_memis (meth req) ''GET'' then (- 1, req)
      else (0, ask [AddHeader ''x-reproxy-url'' ''http://www.ietf.org/'',
                    SendInline (''you should never see this!'' @ [CHR 0x0A])] (respond_ok req)))"

definition simple_post_test :: "memis \<Rightarrow> request \<Rightarrow> int \<times> request" where
  "simple_post_test h2o_memis req =
     (if h2o_memis (meth req) ''POST'' \<and> h2o_memis (path_normalized req) ''/post-test/''
      then (0, ask [AddHeader ''content-type'' ''text/plain; charset=utf-8'', StartResponse, Send (entity req) True]
                 (respond_ok req))
      else (- 1, req))"

subsection \<open>What h2o expects of a handler\<close>

text \<open>
  A response is complete when it is headers, then either one inline body, or the start of the
  response and chunks of which exactly the last one is final. \<open>answers\<close> reads the calls in order.
\<close>

datatype stage = Headers | Body | Finished

fun next_stage :: "stage \<Rightarrow> h2o_call \<Rightarrow> stage option" where
  "next_stage Headers (AddHeader n v) = Some Headers"
| "next_stage Headers StartResponse = Some Body"
| "next_stage Headers (SendInline b) = Some Finished"
| "next_stage Body (Send b final) = Some (if final then Finished else Body)"
| "next_stage _ _ = None"

fun stages :: "stage \<Rightarrow> h2o_call list \<Rightarrow> stage option" where
  "stages st [] = Some st"
| "stages st (c # cs) = (case next_stage st c of None \<Rightarrow> None | Some st' \<Rightarrow> stages st' cs)"

fun sent_body :: "h2o_call list \<Rightarrow> string" where
  "sent_body [] = ''''"
| "sent_body (Send b final # cs) = b @ sent_body cs"
| "sent_body (SendInline b # cs) = b @ sent_body cs"
| "sent_body (c # cs) = sent_body cs"

text \<open>\<open>declined\<close> and \<open>answered\<close>: the two things a handler may do with a fresh request.\<close>

definition declined :: "int \<times> request \<Rightarrow> request \<Rightarrow> bool" where
  "declined r req \<longleftrightarrow> r = (- 1, req)"

definition answered :: "int \<times> request \<Rightarrow> request \<Rightarrow> string \<Rightarrow> bool" where
  "answered r req b \<longleftrightarrow> fst r = 0 \<and> status (snd r) = 200 \<and> reason (snd r) = ''OK'' \<and>
     (\<exists>cs. h2o_calls (snd r) = h2o_calls req @ cs \<and> stages Headers cs = Some Finished \<and> sent_body cs = b) \<and>
     meth (snd r) = meth req \<and> path_normalized (snd r) = path_normalized req \<and> entity (snd r) = entity req"

lemmas handler_defs = chunked_test_def reproxy_test_def post_test_def simple_chunked_test_def simple_reproxy_test_def
  simple_post_test_def ask_def respond_ok_def declined_def answered_def

definition demo_request :: request where
  "demo_request = \<lparr>meth = ''POST'', path_normalized = ''/post-test/'', entity = ''abc'', status = 0, reason = '''', h2o_calls = []\<rparr>"

lemma static_file_answer:
  assumes "memis_ok h2o_memis" and "len \<le> length data"
  shows "\<exists>r. static_file_handler h2o_memis (register_static_file_handler ctype data len) req = Inr r \<and>
    WebServerStaticFileHandler_on_request h2o_memis (WebServerStaticFileHandler_ctor ctype data len) req = Inr r \<and>
    (if meth req = ''GET'' then answered r req (take len data) else declined r req)"
proof -
  have m: "h2o_memis a b \<longleftrightarrow> a = b" for a b using assms by (simp add: memis_ok_def)
  show ?thesis using assms(2)
    by (simp add: static_file_handler_def WebServerStaticFileHandler_on_request_def register_static_file_handler_def
        WebServerStaticFileHandler_ctor_def Let_def m handler_defs)
qed

subsection \<open>Theorems\<close>

text \<open>The demo handlers answer exactly the requests they are for, each with one complete response
  of status 200, and decline all others with the request untouched: \<^verbatim>\<open>chunked_test\<close> and
  \<^verbatim>\<open>reproxy_test\<close> answer every GET, \<^verbatim>\<open>post_test\<close> returns the body of a POST to its own path.\<close>

theorem demo_handlers_answer_once:
  assumes "memis_ok h2o_memis"
  shows "(if meth req = ''GET'' then answered (chunked_test h2o_memis req) req demo_body
      else declined (chunked_test h2o_memis req) req) \<and>
    (if meth req = ''GET'' then answered (reproxy_test h2o_memis req) req (''you should never see this!'' @ [CHR 0x0A])
      else declined (reproxy_test h2o_memis req) req) \<and>
    (if meth req = ''POST'' \<and> path_normalized req = ''/post-test/''
      then answered (post_test h2o_memis req) req (entity req) else declined (post_test h2o_memis req) req)"
proof -
  have m: "h2o_memis a b \<longleftrightarrow> a = b" for a b using assms by (simp add: memis_ok_def)
  show ?thesis unfolding handler_defs m by simp
qed

theorem demo_handlers_answer_once_witness:
  "answered (post_test (=) demo_request) demo_request ''abc''"
proof -
  have "memis_ok (=)" by (simp add: memis_ok_def)
  from demo_handlers_answer_once[OF this, of demo_request] show ?thesis by (simp add: demo_request_def)
qed

text \<open>The two static file handlers, the function of \<^verbatim>\<open>webserver.cpp\<close> and the class of
  \<^verbatim>\<open>webserver_staticfile_handler.cpp\<close>, behave alike on every request; when the registered length is
  that of the data or less, a GET is answered with the first bytes of the data and nothing is read
  outside it.\<close>

theorem static_file_handlers_agree:
  assumes "memis_ok h2o_memis" and "len \<le> length data"
  shows "static_file_handler h2o_memis (register_static_file_handler ctype data len) req =
      WebServerStaticFileHandler_on_request h2o_memis (WebServerStaticFileHandler_ctor ctype data len) req \<and>
    (\<exists>r. static_file_handler h2o_memis (register_static_file_handler ctype data len) req = Inr r \<and>
      (if meth req = ''GET'' then answered r req (take len data) else declined r req))"
  using static_file_answer[OF assms, of ctype req] by metis

theorem static_file_handlers_agree_witness:
  "\<exists>r. static_file_handler (=) (register_static_file_handler ''text/html'' ''<p>hi'' 3) (demo_request\<lparr>meth := ''GET''\<rparr>) = Inr r \<and>
    answered r (demo_request\<lparr>meth := ''GET''\<rparr>) ''<p>''"
proof -
  have "memis_ok (=)" by (simp add: memis_ok_def)
  moreover have "3 \<le> length ''<p>hi''" by simp
  ultimately show ?thesis
    using conjunct2[OF static_file_handlers_agree, of "(=)" 3 "''<p>hi''" "''text/html''" "demo_request\<lparr>meth := ''GET''\<rparr>"] by simp
qed

text \<open>The handlers of \<^verbatim>\<open>simple.cpp\<close> are those of the demo, but for the text of \<^verbatim>\<open>chunked_test\<close>.\<close>

lemma simple_handlers_same:
  "simple_post_test = post_test" "simple_reproxy_test = reproxy_test"
  "fst (simple_chunked_test m req) = fst (chunked_test m req)"
  by (auto simp: fun_eq_iff simple_post_test_def post_test_def simple_reproxy_test_def reproxy_test_def
      simple_chunked_test_def chunked_test_def)

end
