(* ===== verification/Websocket.thy ===== *)
theory Websocket
  imports App_Prelude "HOL-Library.Sublist"
begin

text \<open>
  \<^verbatim>\<open>appserver_websocket.cpp\<close>: the handshake, the callbacks between the websocket library wslay and the
  socket of h2o, and \<^verbatim>\<open>h2o_websocket_proceed\<close>, which moves data in both directions until no more
  progress is possible. The sockets of h2o, wslay, SHA-1, base64 and the string functions of
  h2o are not part of the sources: they are records of functions, with what the code relies on
  in \<open>sock_ok\<close>, \<open>wslay_ok\<close> and \<open>http_ok\<close>. A received message reaches the default
  \<^verbatim>\<open>receive_websocket_message\<close>, which ignores it.
\<close>

type_synonym byte = "8 word"

subsection \<open>Sockets, connections and wslay\<close>

text \<open>\<open>written\<close> is what the peer has been sent: every buffer passed to \<^verbatim>\<open>h2o_socket_write\<close>, in order.\<close>

record 's sock_api =
  sock_input :: "'s \<Rightarrow> byte list"
  buffer_consume :: "nat \<Rightarrow> 's \<Rightarrow> 's"
  is_writing :: "'s \<Rightarrow> bool"
  is_reading :: "'s \<Rightarrow> bool"
  socket_write :: "byte list list \<Rightarrow> 's \<Rightarrow> 's"
  read_start :: "'s \<Rightarrow> 's"
  read_stop :: "'s \<Rightarrow> 's"
  socket_close :: "'s \<Rightarrow> 's"
  written :: "'s \<Rightarrow> byte list"

definition sock_ok :: "'s sock_api \<Rightarrow> bool" where
  "sock_ok A \<longleftrightarrow> (\<forall>s n bs.
     sock_input A (buffer_consume A n s) = drop n (sock_input A s) \<and>
     is_writing A (buffer_consume A n s) = is_writing A s \<and> written A (buffer_consume A n s) = written A s \<and>
     is_writing A (socket_write A bs s) \<and> written A (socket_write A bs s) = written A s @ concat bs \<and>
     is_writing A (read_start A s) = is_writing A s \<and> written A (read_start A s) = written A s \<and> is_reading A (read_start A s) \<and>
     is_writing A (read_stop A s) = is_writing A s \<and> written A (read_stop A s) = written A s \<and>
     sock_input A (socket_write A bs s) = sock_input A s \<and> sock_input A (read_start A s) = sock_input A s \<and>
     sock_input A (read_stop A s) = sock_input A s)"

text \<open>\<^verbatim>\<open>h2o_websocket_conn_t\<close>: the socket, null until the upgrade is complete, and the write buffers in
  use, \<^verbatim>\<open>_write_buf.bufs[0 .. cnt)\<close>.\<close>

record 's conn =
  sock :: "'s option"
  write_bufs :: "byte list list"
  would_block :: bool

definition get_sock :: "'s conn \<Rightarrow> 's res" where
  "get_sock c = (case sock c of None \<Rightarrow> Inl BadPointer | Some s \<Rightarrow> Inr s)"

subsection \<open>Callbacks\<close>

text \<open>\<open>None\<close> is the result -1, with the error \<^verbatim>\<open>WSLAY_ERR_WOULDBLOCK\<close> set.\<close>

definition recv_callback :: "'s sock_api \<Rightarrow> nat \<Rightarrow> 's conn \<Rightarrow> (byte list option \<times> 's conn) res" where
  "recv_callback A len c =
     bindE (get_sock c) (\<lambda>s.
       if length (sock_input A s) = 0 then Inr (None, c\<lparr>would_block := True\<rparr>)
       else let len' = (if length (sock_input A s) < len then length (sock_input A s) else len);
                buf = take len' (sock_input A s)
            in Inr (Some buf, c\<lparr>sock := Some (buffer_consume A len' s)\<rparr>))"

definition send_callback :: "'s sock_api \<Rightarrow> nat \<Rightarrow> byte list \<Rightarrow> 's conn \<Rightarrow> (nat option \<times> 's conn) res" where
  "send_callback A nbufs data c =
     bindE (get_sock c) (\<lambda>s.
       if is_writing A s \<or> length (write_bufs c) = nbufs then Inr (None, c\<lparr>would_block := True\<rparr>)
       else Inr (Some (length data), c\<lparr>write_bufs := write_bufs c @ [data]\<rparr>))"

primrec send_all :: "'s sock_api \<Rightarrow> nat \<Rightarrow> byte list list \<Rightarrow> 's conn \<Rightarrow> 's conn res" where
  "send_all A nbufs [] c = Inr c"
| "send_all A nbufs (d # ds) c = bindE (send_callback A nbufs d c) (\<lambda>(_, c'). send_all A nbufs ds c')"

primrec recv_all :: "'s sock_api \<Rightarrow> nat list \<Rightarrow> 's conn \<Rightarrow> 's conn res" where
  "recv_all A [] c = Inr c"
| "recv_all A (n # ns) c = bindE (recv_callback A n c) (\<lambda>(_, c'). recv_all A ns c')"

text \<open>
  wslay: it touches the connection by its callbacks only; a successful send stops only when there
  is nothing more to send or the callback refused; a successful receive stops only when the input
  is used up or nothing more is wanted; sending does not make it want to read again.
\<close>

record ('w, 's) wslay_api =
  want_write :: "'w \<Rightarrow> bool"
  want_read :: "'w \<Rightarrow> bool"
  event_send :: "'w \<Rightarrow> 's conn \<Rightarrow> (int \<times> 'w \<times> 's conn) res"
  event_recv :: "'w \<Rightarrow> 's conn \<Rightarrow> (int \<times> 'w \<times> 's conn) res"
  queue_msg :: "byte \<Rightarrow> byte list \<Rightarrow> 'w \<Rightarrow> 'w"

definition wslay_send_ok :: "'s sock_api \<Rightarrow> nat \<Rightarrow> ('w, 's) wslay_api \<Rightarrow> bool" where
  "wslay_send_ok A nbufs W \<longleftrightarrow> (\<forall>w c. sock c \<noteq> None \<longrightarrow>
     (\<exists>rc w' ds c'. send_all A nbufs ds c = Inr c' \<and> event_send W w c = Inr (rc, w', c') \<and>
        (rc = 0 \<longrightarrow> (want_read W w' \<longrightarrow> want_read W w) \<and>
           (\<not> is_writing A (the (sock c')) \<and> length (write_bufs c') < nbufs \<longrightarrow> \<not> want_write W w'))))"

definition wslay_recv_ok :: "'s sock_api \<Rightarrow> ('w, 's) wslay_api \<Rightarrow> bool" where
  "wslay_recv_ok A W \<longleftrightarrow> (\<forall>w c. sock c \<noteq> None \<longrightarrow>
     (\<exists>rc w' ns c'. recv_all A ns c = Inr c' \<and> event_recv W w c = Inr (rc, w', c') \<and>
        (rc = 0 \<longrightarrow> sock_input A (the (sock c')) = [] \<or> \<not> want_read W w')))"

definition wslay_ok :: "'s sock_api \<Rightarrow> nat \<Rightarrow> ('w, 's) wslay_api \<Rightarrow> bool" where
  "wslay_ok A nbufs W \<longleftrightarrow> wslay_send_ok A nbufs W \<and> wslay_recv_ok A W"

subsection \<open>Closing\<close>

text \<open>After \<open>Closed\<close> the connection, its wslay context and its \<^verbatim>\<open>AppServerWebSocket\<close> are freed and the
  socket, if there was one, is closed.\<close>

datatype ('w, 's) outcome = Live 'w "'s conn" | Closed "'s option"

definition h2o_websocket_close :: "'s sock_api \<Rightarrow> 's conn \<Rightarrow> ('w, 's) outcome" where
  "h2o_websocket_close A c = Closed (map_option (socket_close A) (sock c))"

text \<open>\<^verbatim>\<open>on_websocket_message\<close> with a null message closes; the default handler ignores other messages.\<close>

definition on_websocket_message :: "'s sock_api \<Rightarrow> (byte \<times> byte list) option \<Rightarrow> 'w \<Rightarrow> 's conn \<Rightarrow> ('w, 's) outcome" where
  "on_websocket_message A arg w c = (case arg of None \<Rightarrow> h2o_websocket_close A c | Some m \<Rightarrow> Live w c)"

definition on_close :: "'s sock_api \<Rightarrow> 'w \<Rightarrow> 's conn \<Rightarrow> ('w, 's) outcome" where
  "on_close A w c = on_websocket_message A None w c"

subsection \<open>h2o_websocket_proceed\<close>

text \<open>The two halves of the loop body; \<open>GotoClose\<close> leaves the loop for the label \<^verbatim>\<open>Close\<close>, \<open>Round\<close> carries
  the flag \<^verbatim>\<open>handled\<close>.\<close>

datatype ('w, 's) round = GotoClose 'w "'s conn" | Round bool 'w "'s conn"

definition proceed_send :: "'s sock_api \<Rightarrow> nat \<Rightarrow> ('w, 's) wslay_api \<Rightarrow> 'w \<Rightarrow> 's conn \<Rightarrow> ('w, 's) round res" where
  "proceed_send A nbufs W w c =
     bindE (get_sock c) (\<lambda>s.
       if \<not> is_writing A s \<and> want_write W w
       then bindE (event_send W w c) (\<lambda>(rc, w1, c1).
              Inr (if rc \<noteq> 0 then GotoClose w1 c1 else Round (length (write_bufs c1) < nbufs) w1 c1))
       else Inr (Round False w c))"

definition proceed_recv :: "'s sock_api \<Rightarrow> ('w, 's) wslay_api \<Rightarrow> bool \<Rightarrow> 'w \<Rightarrow> 's conn \<Rightarrow> ('w, 's) round res" where
  "proceed_recv A W handled w c =
     bindE (get_sock c) (\<lambda>s.
       if length (sock_input A s) \<noteq> 0 \<and> want_read W w
       then bindE (event_recv W w c) (\<lambda>(rc, w1, c1). Inr (if rc \<noteq> 0 then GotoClose w1 c1 else Round True w1 c1))
       else Inr (Round handled w c))"

definition proceed_body :: "'s sock_api \<Rightarrow> nat \<Rightarrow> ('w, 's) wslay_api \<Rightarrow> 'w \<Rightarrow> 's conn \<Rightarrow> ('w, 's) round res" where
  "proceed_body A nbufs W w c =
     bindE (proceed_send A nbufs W w c) (\<lambda>r.
       case r of GotoClose w1 c1 \<Rightarrow> Inr r | Round handled w1 c1 \<Rightarrow> proceed_recv A W handled w1 c1)"

partial_function (option) proceed_loop ::
  "'s sock_api \<Rightarrow> nat \<Rightarrow> ('w, 's) wslay_api \<Rightarrow> 'w \<Rightarrow> 's conn \<Rightarrow> ('w, 's) round res option" where
  "proceed_loop A nbufs W w c =
     (case proceed_body A nbufs W w c of
        Inl e \<Rightarrow> Some (Inl e)
      | Inr (GotoClose w1 c1) \<Rightarrow> Some (Inr (GotoClose w1 c1))
      | Inr (Round handled w1 c1) \<Rightarrow>
          if handled then proceed_loop A nbufs W w1 c1 else Some (Inr (Round handled w1 c1)))"

definition proceed_end :: "'s sock_api \<Rightarrow> ('w, 's) wslay_api \<Rightarrow> 'w \<Rightarrow> 's conn \<Rightarrow> ('w, 's) outcome res" where
  "proceed_end A W w c =
     bindE (get_sock c) (\<lambda>s.
       let s1 = (if \<not> is_writing A s \<and> 0 < length (write_bufs c) then socket_write A (write_bufs c) s else s)
       in if want_read W w then Inr (Live w (c\<lparr>sock := Some (read_start A s1)\<rparr>))
          else if is_writing A s1 \<or> want_write W w then Inr (Live w (c\<lparr>sock := Some (read_stop A s1)\<rparr>))
          else Inr (on_close A w (c\<lparr>sock := Some s1\<rparr>)))"

definition h2o_websocket_proceed ::
  "'s sock_api \<Rightarrow> nat \<Rightarrow> ('w, 's) wslay_api \<Rightarrow> 'w \<Rightarrow> 's conn \<Rightarrow> ('w, 's) outcome res option" where
  "h2o_websocket_proceed A nbufs W w c =
     map_option (\<lambda>r. bindE r (\<lambda>x.
         case x of GotoClose w1 c1 \<Rightarrow> Inr (on_close A w1 c1) | Round _ w1 c1 \<Rightarrow> proceed_end A W w1 c1))
       (proceed_loop A nbufs W w c)"

subsection \<open>Events of the socket\<close>

definition on_write_complete ::
  "'s sock_api \<Rightarrow> nat \<Rightarrow> ('w, 's) wslay_api \<Rightarrow> bool \<Rightarrow> 'w \<Rightarrow> 's conn \<Rightarrow> ('w, 's) outcome res option" where
  "on_write_complete A nbufs W err w c =
     (if err then Some (Inr (on_close A w c))
      else if length (write_bufs c) = 0 then Some (Inl AssertFailed)
      else h2o_websocket_proceed A nbufs W w (c\<lparr>write_bufs := []\<rparr>))"

definition on_recv ::
  "'s sock_api \<Rightarrow> nat \<Rightarrow> ('w, 's) wslay_api \<Rightarrow> bool \<Rightarrow> 'w \<Rightarrow> 's conn \<Rightarrow> ('w, 's) outcome res option" where
  "on_recv A nbufs W err w c = (if err then Some (Inr (on_close A w c)) else h2o_websocket_proceed A nbufs W w c)"

definition on_websocket_complete ::
  "'s sock_api \<Rightarrow> nat \<Rightarrow> ('w, 's) wslay_api \<Rightarrow> 's option \<Rightarrow> nat \<Rightarrow> 'w \<Rightarrow> 's conn \<Rightarrow> ('w, 's) outcome res option" where
  "on_websocket_complete A nbufs W new_sock reqsize w c =
     (case new_sock of
        None \<Rightarrow> Some (Inr (on_close A w c))
      | Some s \<Rightarrow> h2o_websocket_proceed A nbufs W w (c\<lparr>sock := Some (buffer_consume A reqsize s)\<rparr>))"

definition send_websocket_message ::
  "'s sock_api \<Rightarrow> nat \<Rightarrow> ('w, 's) wslay_api \<Rightarrow> byte \<Rightarrow> byte list \<Rightarrow> 'w option \<Rightarrow> 's conn \<Rightarrow>
     ('w, 's) outcome res option option" where
  "send_websocket_message A nbufs W opcode msg ws_ctx c =
     (case ws_ctx of
        None \<Rightarrow> None
      | Some w \<Rightarrow> Some (h2o_websocket_proceed A nbufs W (queue_msg W opcode msg w) c))"

subsection \<open>Streams\<close>

text \<open>
  \<open>outgoing A c\<close>: everything accepted for the peer, sent or waiting in the write buffers; while the
  socket writes, the buffers are the ones being written. \<open>conn_ok\<close>: there is a socket, the buffers
  fit the array, and a socket that writes has something to write.
\<close>

definition outgoing :: "'s sock_api \<Rightarrow> 's conn \<Rightarrow> byte list" where
  "outgoing A c = (case sock c of None \<Rightarrow> []
     | Some s \<Rightarrow> written A s @ (if is_writing A s then [] else concat (write_bufs c)))"

definition conn_ok :: "'s sock_api \<Rightarrow> nat \<Rightarrow> 's conn \<Rightarrow> bool" where
  "conn_ok A nbufs c \<longleftrightarrow> (\<exists>s. sock c = Some s \<and> length (write_bufs c) \<le> nbufs \<and> (is_writing A s \<longrightarrow> write_bufs c \<noteq> []))"

lemma get_sock_Some [simp]: "sock c = Some s \<Longrightarrow> get_sock c = Inr s"
  by (simp add: get_sock_def)

lemma sock_okD:
  assumes "sock_ok A"
  shows "sock_input A (buffer_consume A n s) = drop n (sock_input A s)"
    "is_writing A (buffer_consume A n s) = is_writing A s" "written A (buffer_consume A n s) = written A s"
    "is_writing A (socket_write A bs s)" "written A (socket_write A bs s) = written A s @ concat bs"
    "is_writing A (read_start A s) = is_writing A s" "written A (read_start A s) = written A s" "is_reading A (read_start A s)"
    "is_writing A (read_stop A s) = is_writing A s" "written A (read_stop A s) = written A s"
    "sock_input A (socket_write A bs s) = sock_input A s" "sock_input A (read_start A s) = sock_input A s"
    "sock_input A (read_stop A s) = sock_input A s"
  using assms unfolding sock_ok_def by blast+

lemma send_callback_ok:
  assumes "conn_ok A nbufs c"
  shows "\<exists>r c'. send_callback A nbufs data c = Inr (r, c') \<and> conn_ok A nbufs c' \<and> sock c' = sock c \<and>
    outgoing A c' = outgoing A c @ (if r = None then [] else data) \<and>
    (r = None \<longleftrightarrow> is_writing A (the (sock c)) \<or> length (write_bufs c) = nbufs) \<and>
    (r = None \<longrightarrow> write_bufs c' = write_bufs c) \<and> (\<forall>n. r = Some n \<longrightarrow> n = length data)"
  using assms unfolding send_callback_def conn_ok_def outgoing_def by force

lemma send_all_ok:
  assumes "conn_ok A nbufs c" "send_all A nbufs ds c = Inr c'"
  shows "conn_ok A nbufs c' \<and> sock c' = sock c \<and> (\<exists>acc. subseq acc ds \<and> outgoing A c' = outgoing A c @ concat acc)"
  using assms
proof (induction ds arbitrary: c)
  case (Cons d ds)
  obtain r c1 where s: "send_callback A nbufs d c = Inr (r, c1)" "conn_ok A nbufs c1" "sock c1 = sock c"
    "outgoing A c1 = outgoing A c @ (if r = None then [] else d)" using send_callback_ok[OF Cons.prems(1), of d] by blast
  then have "send_all A nbufs ds c1 = Inr c'" using Cons.prems(2) by simp
  from Cons.IH[OF s(2) this] obtain acc where acc: "conn_ok A nbufs c'" "sock c' = sock c1" "subseq acc ds"
    "outgoing A c' = outgoing A c1 @ concat acc" by blast
  show ?case
  proof (cases r)
    case None
    then show ?thesis using acc s(3,4) by (auto intro: exI[of _ acc])
  next
    case (Some n)
    then show ?thesis using acc s(3,4) by (auto intro!: exI[of _ "d # acc"])
  qed
qed auto

lemma recv_callback_ok:
  assumes A: "sock_ok A" and s: "sock c = Some s"
  shows "\<exists>r s' c'. recv_callback A len c = Inr (r, c') \<and> sock c' = Some s' \<and> write_bufs c' = write_bufs c \<and>
    is_writing A s' = is_writing A s \<and> written A s' = written A s \<and>
    sock_input A s = (case r of None \<Rightarrow> [] | Some d \<Rightarrow> d) @ sock_input A s' \<and>
    (r = None \<longleftrightarrow> sock_input A s = []) \<and> (\<forall>d. r = Some d \<longrightarrow> length d = min len (length (sock_input A s)))"
  using s sock_okD(1-3)[OF A] by (auto simp: recv_callback_def Let_def min_def)

lemma recv_all_ok:
  assumes A: "sock_ok A" and s: "sock c = Some s" and r: "recv_all A ns c = Inr c'"
  shows "\<exists>s'. sock c' = Some s' \<and> write_bufs c' = write_bufs c \<and> is_writing A s' = is_writing A s \<and> written A s' = written A s"
  using s r
proof (induction ns arbitrary: c s)
  case (Cons n ns)
  obtain r s1 c1 where k: "recv_callback A n c = Inr (r, c1)" "sock c1 = Some s1" "write_bufs c1 = write_bufs c"
    "is_writing A s1 = is_writing A s" "written A s1 = written A s" using recv_callback_ok[OF A Cons.prems(1), of n] by blast
  then have "recv_all A ns c1 = Inr c'" using Cons.prems(2) by simp
  from Cons.IH[OF k(2) this] show ?case using k by auto
qed auto

subsection \<open>The loop of h2o\_websocket\_proceed ends\<close>

text \<open>\<open>carried A nbufs c c'\<close>: the connection stays well-formed and nothing accepted for the peer is lost.\<close>

definition carried :: "'s sock_api \<Rightarrow> nat \<Rightarrow> 's conn \<Rightarrow> 's conn \<Rightarrow> bool" where
  "carried A nbufs c c' \<longleftrightarrow> conn_ok A nbufs c' \<and> prefix (outgoing A c) (outgoing A c')"

definition readable :: "'s sock_api \<Rightarrow> ('w, 's) wslay_api \<Rightarrow> 'w \<Rightarrow> 's conn \<Rightarrow> bool" where
  "readable A W w c \<longleftrightarrow> sock_input A (the (sock c)) \<noteq> [] \<and> want_read W w"

definition unsendable :: "'s sock_api \<Rightarrow> nat \<Rightarrow> ('w, 's) wslay_api \<Rightarrow> 'w \<Rightarrow> 's conn \<Rightarrow> bool" where
  "unsendable A nbufs W w c \<longleftrightarrow> is_writing A (the (sock c)) \<or> \<not> want_write W w \<or> length (write_bufs c) = nbufs"

lemmas wslay_okD = wslay_ok_def [THEN iffD1, THEN conjunct1] wslay_ok_def [THEN iffD1, THEN conjunct2]

lemma carried_refl: "conn_ok A nbufs c \<Longrightarrow> carried A nbufs c c"
  by (simp add: carried_def)

lemma carried_trans: "carried A nbufs a b \<Longrightarrow> carried A nbufs b c \<Longrightarrow> carried A nbufs a c"
  by (auto simp: carried_def intro: prefix_order.trans)

lemma proceed_send_ok:
  assumes W: "wslay_send_ok A nbufs W" and c: "conn_ok A nbufs c"
  shows "(\<exists>w1 c1. proceed_send A nbufs W w c = Inr (GotoClose w1 c1) \<and> carried A nbufs c c1) \<or>
    (\<exists>h w1 c1. proceed_send A nbufs W w c = Inr (Round h w1 c1) \<and> carried A nbufs c c1 \<and>
       (readable A W w1 c1 \<longrightarrow> readable A W w c) \<and> (h \<longrightarrow> want_write W w) \<and>
       (if h then \<not> want_write W w1 else unsendable A nbufs W w1 c1))"
proof -
  obtain s where s: "sock c = Some s" using c by (auto simp: conn_ok_def)
  show ?thesis
  proof (cases "\<not> is_writing A s \<and> want_write W w")
    case True
    obtain rc w1 ds c1 where e: "send_all A nbufs ds c = Inr c1" "event_send W w c = Inr (rc, w1, c1)"
      "rc = 0 \<longrightarrow> (want_read W w1 \<longrightarrow> want_read W w) \<and>
         (\<not> is_writing A (the (sock c1)) \<and> length (write_bufs c1) < nbufs \<longrightarrow> \<not> want_write W w1)"
      using W s unfolding wslay_send_ok_def by (metis option.distinct(1))
    have k: "conn_ok A nbufs c1" "sock c1 = Some s" "carried A nbufs c c1"
      using send_all_ok[OF c e(1)] s by (auto simp: carried_def)
    have "length (write_bufs c1) \<le> nbufs" using k(1) by (auto simp: conn_ok_def)
    then show ?thesis using e s k True
      by (cases "rc = 0") (auto simp: proceed_send_def readable_def unsendable_def)
  next
    case False
    then show ?thesis using s c by (auto simp: proceed_send_def unsendable_def carried_refl)
  qed
qed

lemma proceed_recv_ok:
  assumes A: "sock_ok A" and W: "wslay_recv_ok A W" and c: "conn_ok A nbufs c"
  shows "(\<exists>w1 c1. proceed_recv A W h w c = Inr (GotoClose w1 c1) \<and> carried A nbufs c c1) \<or>
    (\<exists>w1 c1. proceed_recv A W h w c = Inr (Round True w1 c1) \<and> carried A nbufs c c1 \<and> \<not> readable A W w1 c1 \<and> readable A W w c) \<or>
    proceed_recv A W h w c = Inr (Round h w c) \<and> \<not> readable A W w c"
proof -
  obtain s where s: "sock c = Some s" using c by (auto simp: conn_ok_def)
  show ?thesis
  proof (cases "readable A W w c")
    case True
    obtain rc w1 ns c1 where e: "recv_all A ns c = Inr c1" "event_recv W w c = Inr (rc, w1, c1)"
      "rc = 0 \<longrightarrow> sock_input A (the (sock c1)) = [] \<or> \<not> want_read W w1"
      using W s unfolding wslay_recv_ok_def by (metis option.distinct(1))
    have k: "carried A nbufs c c1"
      using recv_all_ok[OF A s e(1)] c s by (auto simp: carried_def conn_ok_def outgoing_def)
    then show ?thesis using e s True by (cases "rc = 0") (auto simp: proceed_recv_def readable_def)
  next
    case False
    then show ?thesis using s by (auto simp: proceed_recv_def readable_def)
  qed
qed

text \<open>A round that ends with \<^verbatim>\<open>handled\<close> set lowers the rank: it has used up the input, or it has sent all
  there was to send.\<close>

definition rank :: "'s sock_api \<Rightarrow> ('w, 's) wslay_api \<Rightarrow> 'w \<Rightarrow> 's conn \<Rightarrow> nat" where
  "rank A W w c = (if readable A W w c then 2 else if want_write W w then 1 else 0)"

lemma proceed_body_ok:
  assumes A: "sock_ok A" and W: "wslay_ok A nbufs W" and c: "conn_ok A nbufs c"
  shows "(\<exists>w1 c1. proceed_body A nbufs W w c = Inr (GotoClose w1 c1) \<and> carried A nbufs c c1) \<or>
    (\<exists>h w1 c1. proceed_body A nbufs W w c = Inr (Round h w1 c1) \<and> carried A nbufs c c1 \<and>
       (if h then rank A W w1 c1 < rank A W w c else \<not> readable A W w1 c1 \<and> unsendable A nbufs W w1 c1))"
  using proceed_send_ok[OF wslay_okD(1)[OF W] c, of w]
proof (elim disjE exE conjE)
  fix w1 c1
  assume "proceed_send A nbufs W w c = Inr (GotoClose w1 c1)" "carried A nbufs c c1"
  then show ?thesis by (simp add: proceed_body_def)
next
  fix h w1 c1
  assume s: "proceed_send A nbufs W w c = Inr (Round h w1 c1)" "carried A nbufs c c1"
    "readable A W w1 c1 \<longrightarrow> readable A W w c" "h \<longrightarrow> want_write W w"
    "if h then \<not> want_write W w1 else unsendable A nbufs W w1 c1"
  have b: "proceed_body A nbufs W w c = proceed_recv A W h w1 c1" using s(1) by (simp add: proceed_body_def)
  have "conn_ok A nbufs c1" using s(2) by (simp add: carried_def)
  from proceed_recv_ok[OF A wslay_okD(2)[OF W] this, of h w1] show ?thesis
  proof (elim disjE exE conjE)
    fix w2 c2
    assume "proceed_recv A W h w1 c1 = Inr (GotoClose w2 c2)" "carried A nbufs c1 c2"
    then show ?thesis using b s(2) carried_trans by metis
  next
    fix w2 c2
    assume r: "proceed_recv A W h w1 c1 = Inr (Round True w2 c2)" "carried A nbufs c1 c2" "\<not> readable A W w2 c2" "readable A W w1 c1"
    then have "rank A W w2 c2 < rank A W w c" using s(3) by (simp add: rank_def)
    then show ?thesis using b r carried_trans[OF s(2) r(2)] by auto
  next
    assume r: "proceed_recv A W h w1 c1 = Inr (Round h w1 c1)" "\<not> readable A W w1 c1"
    then show ?thesis using b s by (auto simp: rank_def split: if_splits)
  qed
qed

lemma proceed_loop_ok:
  assumes A: "sock_ok A" and W: "wslay_ok A nbufs W" and c: "conn_ok A nbufs c"
  shows "(\<exists>w1 c1. proceed_loop A nbufs W w c = Some (Inr (GotoClose w1 c1)) \<and> carried A nbufs c c1) \<or>
    (\<exists>w1 c1. proceed_loop A nbufs W w c = Some (Inr (Round False w1 c1)) \<and> carried A nbufs c c1 \<and>
       \<not> readable A W w1 c1 \<and> unsendable A nbufs W w1 c1)"
  using c
proof (induction "rank A W w c" arbitrary: w c rule: less_induct)
  case less
  from proceed_body_ok[OF A W less.prems, of w] show ?case
  proof (elim disjE exE conjE)
    fix w1 c1
    assume "proceed_body A nbufs W w c = Inr (GotoClose w1 c1)" "carried A nbufs c c1"
    then show ?thesis by (subst (1 2) proceed_loop.simps) simp
  next
    fix h w1 c1
    assume b: "proceed_body A nbufs W w c = Inr (Round h w1 c1)" "carried A nbufs c c1"
      "if h then rank A W w1 c1 < rank A W w c else \<not> readable A W w1 c1 \<and> unsendable A nbufs W w1 c1"
    show ?thesis
    proof (cases h)
      case True
      have "proceed_loop A nbufs W w c = proceed_loop A nbufs W w1 c1" using b(1) True by (subst proceed_loop.simps) simp
      moreover have "conn_ok A nbufs c1" using b(2) by (simp add: carried_def)
      ultimately show ?thesis using less.hyps[of w1 c1] b(2,3) True carried_trans[OF b(2)] by auto
    next
      case False
      then have "proceed_loop A nbufs W w c = Some (Inr (Round False w1 c1))" using b(1) by (subst proceed_loop.simps) simp
      then show ?thesis using b(2,3) False by auto
    qed
  qed
qed

text \<open>\<open>attended\<close>: the connection has everything going that can bring it forward. Accepted data is being
  written, more to send waits only behind a write, input is awaited whenever wslay wants it, and
  at least one of the two is going on.\<close>

definition attended :: "'s sock_api \<Rightarrow> ('w, 's) wslay_api \<Rightarrow> 'w \<Rightarrow> 's conn \<Rightarrow> bool" where
  "attended A W w c \<longleftrightarrow> (\<exists>s. sock c = Some s \<and>
     (write_bufs c \<noteq> [] \<longleftrightarrow> is_writing A s) \<and> (want_write W w \<longrightarrow> is_writing A s) \<and>
     (want_read W w \<longrightarrow> is_reading A s) \<and> (is_writing A s \<or> is_reading A s))"

lemma proceed_end_ok:
  assumes A: "sock_ok A" and n: "0 < nbufs" and c: "conn_ok A nbufs c" and u: "unsendable A nbufs W w c"
  shows "\<exists>r. proceed_end A W w c = Inr r \<and>
    (case r of Closed so \<Rightarrow> so \<noteq> None \<and> write_bufs c = [] \<and> \<not> want_read W w \<and> \<not> want_write W w
     | Live w' c' \<Rightarrow> w' = w \<and> conn_ok A nbufs c' \<and> attended A W w' c' \<and> outgoing A c' = outgoing A c)"
proof -
  obtain s where s: "sock c = Some s" "length (write_bufs c) \<le> nbufs" "is_writing A s \<longrightarrow> write_bufs c \<noteq> []"
    using c by (auto simp: conn_ok_def)
  let ?s = "if \<not> is_writing A s \<and> 0 < length (write_bufs c) then socket_write A (write_bufs c) s else s"
  have w: "is_writing A ?s \<longleftrightarrow> write_bufs c \<noteq> []"
    "written A ?s = outgoing A c" using s sock_okD(4,5)[OF A] by (auto simp: outgoing_def)
  have ww: "want_write W w \<longrightarrow> is_writing A ?s" using u s(1) n sock_okD(4)[OF A] by (auto simp: unsendable_def)
  have e: "proceed_end A W w c = Inr (if want_read W w then Live w (c\<lparr>sock := Some (read_start A ?s)\<rparr>)
      else if is_writing A ?s then Live w (c\<lparr>sock := Some (read_stop A ?s)\<rparr>) else on_close A w (c\<lparr>sock := Some ?s\<rparr>))"
    using s(1) ww by (auto simp: proceed_end_def Let_def)
  show ?thesis unfolding e using w ww s(2) sock_okD(6-10)[OF A, of ?s]
    by (auto simp: conn_ok_def attended_def outgoing_def on_close_def on_websocket_message_def h2o_websocket_close_def
        split: outcome.splits if_splits)
qed

lemma h2o_websocket_proceed_ok:
  assumes "sock_ok A" "wslay_ok A nbufs W" "0 < nbufs" "conn_ok A nbufs c"
  shows "\<exists>r. h2o_websocket_proceed A nbufs W w c = Some (Inr r) \<and>
    (case r of Closed so \<Rightarrow> so \<noteq> None
     | Live w' c' \<Rightarrow> conn_ok A nbufs c' \<and> attended A W w' c' \<and> prefix (outgoing A c) (outgoing A c'))"
  using proceed_loop_ok[OF assms(1,2,4), of w]
proof (elim disjE exE conjE)
  fix w1 c1
  assume "proceed_loop A nbufs W w c = Some (Inr (GotoClose w1 c1))" "carried A nbufs c c1"
  then show ?thesis
    by (auto simp: h2o_websocket_proceed_def carried_def conn_ok_def on_close_def on_websocket_message_def h2o_websocket_close_def)
next
  fix w1 c1
  assume l: "proceed_loop A nbufs W w c = Some (Inr (Round False w1 c1))" "carried A nbufs c c1" "unsendable A nbufs W w1 c1"
  have "conn_ok A nbufs c1" using l(2) by (simp add: carried_def)
  from proceed_end_ok[OF assms(1,3) this l(3)] obtain r where r: "proceed_end A W w1 c1 = Inr r"
    "case r of Closed so \<Rightarrow> so \<noteq> None \<and> write_bufs c1 = [] \<and> \<not> want_read W w1 \<and> \<not> want_write W w1
     | Live w' c' \<Rightarrow> w' = w1 \<and> conn_ok A nbufs c' \<and> attended A W w' c' \<and> outgoing A c' = outgoing A c1" by blast
  then show ?thesis using l(1,2)
    by (cases r) (auto simp: h2o_websocket_proceed_def carried_def)
qed

subsection \<open>The handshake\<close>

text \<open>
  A request for an upgrade. The comparison of strings, the search for a header (an index, or -1),
  SHA-1 and base64 are functions of the libraries. \<open>http_ok\<close> says what is relied on: the found index
  is an index of the header list, a hash has 20 bytes, and base64 writes four characters for every
  three bytes, rounded up.
\<close>

record ws_request =
  input_method :: string
  upgrade :: "string option"
  headers :: "(string \<times> string) list"
  version :: nat
  res_status :: nat
  res_reason :: string
  res_headers :: "(string \<times> string) list"

record http_lib =
  memis :: "string \<Rightarrow> string \<Rightarrow> bool"
  lcstris :: "string \<Rightarrow> string \<Rightarrow> bool"
  find_header :: "(string \<times> string) list \<Rightarrow> string \<Rightarrow> int"
  SHA1 :: "string \<Rightarrow> string"
  base64 :: "string \<Rightarrow> string"

definition http_ok :: "http_lib \<Rightarrow> bool" where
  "http_ok H \<longleftrightarrow> (\<forall>hs n. find_header H hs n = - 1 \<or> 0 \<le> find_header H hs n \<and> nat (find_header H hs n) < length hs) \<and>
     (\<forall>x. length (SHA1 H x) = 20) \<and> (\<forall>x. length (base64 H x) = (length x + 2) div 3 * 4)"

definition h2o_is_websocket_handshake :: "http_lib \<Rightarrow> ws_request \<Rightarrow> int \<times> string option" where
  "h2o_is_websocket_handshake H req =
     (if \<not> memis H (input_method req) ''GET'' then (0, None)
      else if upgrade req = None \<or> \<not> lcstris H (the (upgrade req)) ''websocket'' then (0, None)
      else let key_header_index = find_header H (headers req) ''sec-websocket-key'' in
        if key_header_index \<noteq> - 1
        then if length (snd (headers req ! nat key_header_index)) \<noteq> 24 then (- 1, None)
             else (0, Some (snd (headers req ! nat key_header_index)))
        else (0, None))"

definition WS_GUID :: string where
  "WS_GUID = ''258EAFA5-E914-47DA-95CA-C5AB0DC85B11''"

text \<open>Two copies into an array of 60 characters, from the key and from the constant; then the hash, and
  its encoding into an array of 29 with the terminator at position 28. Reading past the end of
  the key is \<open>BadIndex\<close>, as is writing past the end of the target.\<close>

definition create_accept_key :: "http_lib \<Rightarrow> string \<Rightarrow> string res" where
  "create_accept_key H client_key =
     (if length client_key < 24 \<or> length WS_GUID < 36 then Inl BadIndex
      else let key_src = take 24 client_key @ take 36 WS_GUID;
               dst = base64 H (SHA1 H key_src)
           in if 28 < length dst then Inl BadIndex else Inr (take 28 dst))"

definition h2o_upgrade_to_websocket :: "http_lib \<Rightarrow> ws_request \<Rightarrow> string \<Rightarrow> (ws_request \<times> 's conn) res" where
  "h2o_upgrade_to_websocket H req client_key =
     bindE (assertE (version req < 512)) (\<lambda>_.
     bindE (create_accept_key H client_key) (\<lambda>accept_key.
     Inr (req\<lparr>res_status := 101, res_reason := ''Switching Protocols'',
              res_headers := res_headers req @ [(''upgrade'', ''websocket''), (''sec-websocket-accept'', accept_key)]\<rparr>,
          \<lparr>sock = None, write_bufs = [], would_block = False\<rparr>)))"

definition on_websocket_req :: "http_lib \<Rightarrow> ws_request \<Rightarrow> (int \<times> ws_request \<times> 's conn option) res" where
  "on_websocket_req H req =
     (case h2o_is_websocket_handshake H req of
        (rc, client_key) \<Rightarrow>
          if rc \<noteq> 0 \<or> client_key = None then Inr (- 1, req, None)
          else bindE (h2o_upgrade_to_websocket H req (the client_key)) (\<lambda>(req', c). Inr (0, req', Some c)))"

subsection \<open>A concrete socket and a concrete wslay\<close>

text \<open>A socket is its input, its output and its two flags; wslay reads everything and holds a list of
  frames to send.\<close>

type_synonym demo_sock = "byte list \<times> byte list \<times> bool \<times> bool"

definition demo_api :: "demo_sock sock_api" where
  "demo_api = \<lparr>sock_input = (\<lambda>(i, out, w, r). i), buffer_consume = (\<lambda>n (i, out, w, r). (drop n i, out, w, r)),
     is_writing = (\<lambda>(i, out, w, r). w), is_reading = (\<lambda>(i, out, w, r). r),
     socket_write = (\<lambda>bs (i, out, w, r). (i, out @ concat bs, True, r)),
     read_start = (\<lambda>(i, out, w, r). (i, out, w, True)), read_stop = (\<lambda>(i, out, w, r). (i, out, w, False)),
     socket_close = id, written = (\<lambda>(i, out, w, r). out)\<rparr>"

lemma demo_api_ok: "sock_ok demo_api"
  by (auto simp: sock_ok_def demo_api_def split_beta)

definition demo_event_send :: "nat \<Rightarrow> byte list list \<Rightarrow> demo_sock conn \<Rightarrow> (int \<times> byte list list \<times> demo_sock conn) res" where
  "demo_event_send nbufs w c =
     bindE (get_sock c) (\<lambda>s.
       let n = (if is_writing demo_api s then 0 else nbufs - length (write_bufs c))
       in bindE (send_all demo_api nbufs (take n w) c) (\<lambda>c'. Inr (0, drop n w, c')))"

definition demo_event_recv :: "byte list list \<Rightarrow> demo_sock conn \<Rightarrow> (int \<times> byte list list \<times> demo_sock conn) res" where
  "demo_event_recv w c =
     bindE (get_sock c) (\<lambda>s. bindE (recv_all demo_api [length (sock_input demo_api s)] c) (\<lambda>c'. Inr (0, w, c')))"

definition demo_wslay :: "nat \<Rightarrow> (byte list list, demo_sock) wslay_api" where
  "demo_wslay nbufs = \<lparr>want_write = (\<lambda>w. w \<noteq> []), want_read = (\<lambda>w. True), event_send = demo_event_send nbufs,
     event_recv = demo_event_recv, queue_msg = (\<lambda>opcode m w. w @ [m])\<rparr>"

lemma send_all_fits:
  assumes "sock c = Some s" "\<not> is_writing A s" "length (write_bufs c) + length ds \<le> nbufs"
  shows "send_all A nbufs ds c = Inr (c\<lparr>write_bufs := write_bufs c @ ds\<rparr>)"
  using assms by (induction ds arbitrary: c) (auto simp: send_callback_def)

lemma demo_wslay_ok: "wslay_ok demo_api nbufs (demo_wslay nbufs)"
  unfolding wslay_ok_def wslay_send_ok_def wslay_recv_ok_def
proof (intro allI impI conjI)
  fix w :: "byte list list" and c :: "demo_sock conn"
  assume "sock c \<noteq> None"
  then obtain s where s: "sock c = Some s" by auto
  let ?n = "if is_writing demo_api s then 0 else nbufs - length (write_bufs c)"
  let ?c = "c\<lparr>write_bufs := write_bufs c @ take ?n w\<rparr>"
  have "send_all demo_api nbufs (take ?n w) c = Inr ?c"
  proof (cases "is_writing demo_api s \<or> nbufs \<le> length (write_bufs c)")
    case False
    then show ?thesis using s by (intro send_all_fits) auto
  qed auto
  moreover have "\<not> is_writing demo_api (the (sock ?c)) \<and> length (write_bufs ?c) < nbufs \<longrightarrow> drop ?n w = []"
    using s by (auto simp: min_def split: if_splits)
  ultimately show "\<exists>rc w' ds c'. send_all demo_api nbufs ds c = Inr c' \<and> event_send (demo_wslay nbufs) w c = Inr (rc, w', c') \<and>
      (rc = 0 \<longrightarrow> (want_read (demo_wslay nbufs) w' \<longrightarrow> want_read (demo_wslay nbufs) w) \<and>
       (\<not> is_writing demo_api (the (sock c')) \<and> length (write_bufs c') < nbufs \<longrightarrow> \<not> want_write (demo_wslay nbufs) w'))"
    using s by (intro exI[of _ 0] exI[of _ "drop ?n w"] exI[of _ "take ?n w"] exI[of _ ?c])
      (simp add: demo_wslay_def demo_event_send_def Let_def)
next
  fix w :: "byte list list" and c :: "demo_sock conn"
  assume "sock c \<noteq> None"
  then obtain s where s: "sock c = Some s" by auto
  let ?n = "length (sock_input demo_api s)"
  obtain r s' c' where k: "recv_callback demo_api ?n c = Inr (r, c')" "sock c' = Some s'"
    "sock_input demo_api s = (case r of None \<Rightarrow> [] | Some d \<Rightarrow> d) @ sock_input demo_api s'"
    "r = None \<longleftrightarrow> sock_input demo_api s = []" "\<forall>d. r = Some d \<longrightarrow> length d = min ?n ?n"
    using recv_callback_ok[OF demo_api_ok s, of ?n] by blast
  have "sock_input demo_api s' = []"
  proof (cases r)
    case None
    then show ?thesis using k(3,4) by simp
  next
    case (Some d)
    have "length d = ?n" using k(5) Some by simp
    moreover have "?n = length d + length (sock_input demo_api s')" using arg_cong[OF k(3), of length] Some by simp
    ultimately show ?thesis by simp
  qed
  with k have c': "recv_all demo_api [?n] c = Inr c'" "sock_input demo_api (the (sock c')) = []" by simp_all
  show "\<exists>rc w' ns c'. recv_all demo_api ns c = Inr c' \<and> event_recv (demo_wslay nbufs) w c = Inr (rc, w', c') \<and>
      (rc = 0 \<longrightarrow> sock_input demo_api (the (sock c')) = [] \<or> \<not> want_read (demo_wslay nbufs) w')"
    using s c' by (intro exI[of _ 0] exI[of _ w] exI[of _ "[?n]"] exI[of _ c'])
      (simp add: demo_wslay_def demo_event_recv_def)
qed

subsection \<open>The life of a connection\<close>

text \<open>
  The states between two events of a connection: it opens on a fresh socket; input arrives; a write
  completes; the program sends a message. The environment may change the input of the socket, and
  end a write, but nothing else of it.
\<close>

inductive ws_live :: "'s sock_api \<Rightarrow> nat \<Rightarrow> ('w, 's) wslay_api \<Rightarrow> 'w \<Rightarrow> 's conn \<Rightarrow> bool" for A nbufs W where
  live_open: "\<lbrakk>\<not> is_writing A s; write_bufs c = [];
     on_websocket_complete A nbufs W (Some s) reqsize w c = Some (Inr (Live w' c'))\<rbrakk> \<Longrightarrow> ws_live A nbufs W w' c'"
| live_input: "\<lbrakk>ws_live A nbufs W w c; sock c = Some s; is_writing A s' = is_writing A s; written A s' = written A s;
     on_recv A nbufs W err w (c\<lparr>sock := Some s'\<rparr>) = Some (Inr (Live w' c'))\<rbrakk> \<Longrightarrow> ws_live A nbufs W w' c'"
| live_written: "\<lbrakk>ws_live A nbufs W w c; sock c = Some s; is_writing A s; \<not> is_writing A s'; written A s' = written A s;
     on_write_complete A nbufs W err w (c\<lparr>sock := Some s'\<rparr>) = Some (Inr (Live w' c'))\<rbrakk> \<Longrightarrow> ws_live A nbufs W w' c'"
| live_send: "\<lbrakk>ws_live A nbufs W w c;
     send_websocket_message A nbufs W opcode msg (Some w) c = Some (Some (Inr (Live w' c')))\<rbrakk> \<Longrightarrow> ws_live A nbufs W w' c'"

lemma proceed_live:
  assumes "sock_ok A" "wslay_ok A nbufs W" "0 < nbufs" "conn_ok A nbufs c"
    "h2o_websocket_proceed A nbufs W w c = Some (Inr (Live w' c'))"
  shows "conn_ok A nbufs c' \<and> attended A W w' c'"
  using h2o_websocket_proceed_ok[OF assms(1-4), of w] assms(5) by auto

lemma on_close_dead [simp]: "on_close A w c \<noteq> Live w' c'"
  by (simp add: on_close_def on_websocket_message_def h2o_websocket_close_def)

lemma ws_live_ok:
  assumes A: "sock_ok A" and W: "wslay_ok A nbufs W" and n: "0 < nbufs" and l: "ws_live A nbufs W w c"
  shows "conn_ok A nbufs c \<and> attended A W w c"
  using l
proof (induction rule: ws_live.induct)
  case (live_open s c reqsize w w' c')
  have "conn_ok A nbufs (c\<lparr>sock := Some (buffer_consume A reqsize s)\<rparr>)"
    using live_open(1,2) sock_okD(2)[OF A] by (auto simp: conn_ok_def)
  from proceed_live[OF A W n this] show ?case using live_open(3) by (simp add: on_websocket_complete_def)
next
  case (live_input w c s s' err w' c')
  have "conn_ok A nbufs (c\<lparr>sock := Some s'\<rparr>)" using live_input by (auto simp: conn_ok_def)
  from proceed_live[OF A W n this] show ?case using live_input(5) by (auto simp: on_recv_def split: if_splits)
next
  case (live_written w c s s' err w' c')
  have "conn_ok A nbufs (c\<lparr>sock := Some s', write_bufs := []\<rparr>)" using live_written by (auto simp: conn_ok_def)
  from proceed_live[OF A W n this] show ?case using live_written(6) by (auto simp: on_write_complete_def split: if_splits)
next
  case (live_send w c opcode msg w' c')
  then show ?case using proceed_live[OF A W n] by (auto simp: send_websocket_message_def)
qed

lemma on_write_complete_ok:
  assumes A: "sock_ok A" "wslay_ok A nbufs W" "0 < nbufs" and c: "sock c = Some s" "\<not> is_writing A s" "write_bufs c \<noteq> []"
  shows "\<exists>r. on_write_complete A nbufs W False w c = Some (Inr r) \<and>
    (case r of Closed so \<Rightarrow> so \<noteq> None
     | Live w' c' \<Rightarrow> conn_ok A nbufs c' \<and> attended A W w' c' \<and> prefix (written A s) (outgoing A c'))"
proof -
  have k: "conn_ok A nbufs (c\<lparr>write_bufs := []\<rparr>)" "outgoing A (c\<lparr>write_bufs := []\<rparr>) = written A s"
    using c by (simp_all add: conn_ok_def outgoing_def)
  from h2o_websocket_proceed_ok[OF A k(1), of w] show ?thesis using c(3) unfolding k(2) by (simp add: on_write_complete_def)
qed

text \<open>What a series of \<^verbatim>\<open>recv_callback\<close> calls with the given buffer sizes hands to wslay.\<close>

primrec recv_stream :: "'s sock_api \<Rightarrow> nat list \<Rightarrow> 's conn \<Rightarrow> (byte list option list \<times> 's conn) res" where
  "recv_stream A [] c = Inr ([], c)"
| "recv_stream A (n # ns) c =
     bindE (recv_callback A n c) (\<lambda>(r, c1). bindE (recv_stream A ns c1) (\<lambda>(rs, c2). Inr (r # rs, c2)))"

definition bytes_of :: "byte list option list \<Rightarrow> byte list" where
  "bytes_of rs = concat (map (\<lambda>r. case r of None \<Rightarrow> [] | Some d \<Rightarrow> d) rs)"

lemma recv_stream_ok:
  assumes "sock_ok A" "sock c = Some s"
  shows "\<exists>rs c' s'. recv_stream A ns c = Inr (rs, c') \<and> sock c' = Some s' \<and> write_bufs c' = write_bufs c \<and>
    outgoing A c' = outgoing A c \<and> sock_input A s = bytes_of rs @ sock_input A s' \<and>
    list_all2 (\<lambda>n r. \<forall>d. r = Some d \<longrightarrow> length d \<le> n) ns rs \<and> (None \<in> set rs \<longrightarrow> sock_input A s' = [])"
  using assms(2)
proof (induction ns arbitrary: c s)
  case (Cons n ns)
  obtain r s1 c1 where k: "recv_callback A n c = Inr (r, c1)" "sock c1 = Some s1" "write_bufs c1 = write_bufs c"
    "is_writing A s1 = is_writing A s" "written A s1 = written A s"
    "sock_input A s = (case r of None \<Rightarrow> [] | Some d \<Rightarrow> d) @ sock_input A s1" "r = None \<longleftrightarrow> sock_input A s = []"
    "\<forall>d. r = Some d \<longrightarrow> length d = min n (length (sock_input A s))"
    using recv_callback_ok[OF assms(1) Cons.prems, of n] by blast
  from Cons.IH[OF k(2)] obtain rs c' s' where i: "recv_stream A ns c1 = Inr (rs, c')" "sock c' = Some s'"
    "write_bufs c' = write_bufs c1" "outgoing A c' = outgoing A c1" "sock_input A s1 = bytes_of rs @ sock_input A s'"
    "list_all2 (\<lambda>n r. \<forall>d. r = Some d \<longrightarrow> length d \<le> n) ns rs" "None \<in> set rs \<longrightarrow> sock_input A s' = []" by blast
  have o: "outgoing A c1 = outgoing A c" using k(2-5) Cons.prems by (simp add: outgoing_def)
  show ?case using k i o
    by (intro exI[of _ "r # rs"] exI[of _ c'] exI[of _ s']) (auto simp: bytes_of_def)
qed (auto simp: bytes_of_def)

subsection \<open>Theorems\<close>

definition demo_conn :: "demo_sock conn" where
  "demo_conn = \<lparr>sock = Some ([1, 2, 3], [], False, False), write_bufs = [], would_block = False\<rparr>"

lemma demo_conn_ok: "conn_ok demo_api 4 demo_conn"
  by (simp add: conn_ok_def demo_conn_def demo_api_def)

text \<open>\<^verbatim>\<open>send_callback\<close> refuses data exactly while the socket writes or when all buffers are in use;
  otherwise it takes the data as a whole, behind what was accepted before. The buffers never
  overflow, and those being written are not touched.\<close>

theorem send_callback_appends:
  assumes "conn_ok A nbufs c"
  shows "\<exists>r c'. send_callback A nbufs data c = Inr (r, c') \<and> conn_ok A nbufs c' \<and> sock c' = sock c \<and>
    outgoing A c' = outgoing A c @ (if r = None then [] else data) \<and>
    (r = None \<longleftrightarrow> is_writing A (the (sock c)) \<or> length (write_bufs c) = nbufs) \<and>
    (r = None \<longrightarrow> write_bufs c' = write_bufs c) \<and> (\<forall>n. r = Some n \<longrightarrow> n = length data)"
  by (rule send_callback_ok[OF assms])

theorem send_callback_appends_witness:
  "\<exists>r c'. send_callback demo_api 4 [7, 8] demo_conn = Inr (r, c') \<and> r \<noteq> None \<and> outgoing demo_api c' = [7, 8]"
  using send_callback_appends[OF demo_conn_ok, of "[7, 8]"]
  by (auto simp: demo_conn_def outgoing_def demo_api_def)

text \<open>\<^verbatim>\<open>recv_callback\<close>, called with any series of buffer sizes, hands the input of the socket over in
  order, without loss or repetition and within every buffer, and reports that it would block only
  when the input is used up; what is to be sent is not affected.\<close>

theorem recv_callback_streams:
  assumes "sock_ok A" and "sock c = Some s"
  shows "\<exists>rs c' s'. recv_stream A ns c = Inr (rs, c') \<and> sock c' = Some s' \<and> write_bufs c' = write_bufs c \<and>
    outgoing A c' = outgoing A c \<and> sock_input A s = bytes_of rs @ sock_input A s' \<and>
    list_all2 (\<lambda>n r. \<forall>d. r = Some d \<longrightarrow> length d \<le> n) ns rs \<and> (None \<in> set rs \<longrightarrow> sock_input A s' = [])"
  by (rule recv_stream_ok[OF assms])

theorem recv_callback_streams_witness:
  "\<exists>rs c' s'. recv_stream demo_api [2, 2] demo_conn = Inr (rs, c') \<and> sock c' = Some s' \<and>
    [1, 2, 3] = bytes_of rs @ sock_input demo_api s'"
  using recv_callback_streams[OF demo_api_ok, of demo_conn "([1, 2, 3], [], False, False)" "[2, 2]"]
  by (auto simp: demo_conn_def demo_api_def)

text \<open>C11: \<^verbatim>\<open>h2o_websocket_proceed\<close> always returns. It closes the connection or leaves it attended: every
  accepted byte is being written, more to send waits only behind a write, and the socket is read
  whenever wslay wants input, so that a later event continues the work. Bytes accepted before keep
  their place in what the peer is sent.\<close>

theorem proceed_leaves_attended:
  assumes "sock_ok A" and "wslay_ok A nbufs W" and "0 < nbufs" and "conn_ok A nbufs c"
  shows "\<exists>r. h2o_websocket_proceed A nbufs W w c = Some (Inr r) \<and>
    (case r of Closed so \<Rightarrow> so \<noteq> None
     | Live w' c' \<Rightarrow> conn_ok A nbufs c' \<and> attended A W w' c' \<and> prefix (outgoing A c) (outgoing A c'))"
  by (rule h2o_websocket_proceed_ok[OF assms])

theorem proceed_leaves_attended_witness:
  "\<exists>r. h2o_websocket_proceed demo_api 4 (demo_wslay 4) [[7], [8]] demo_conn = Some (Inr r) \<and>
    (case r of Closed so \<Rightarrow> so \<noteq> None
     | Live w' c' \<Rightarrow> conn_ok demo_api 4 c' \<and> attended demo_api (demo_wslay 4) w' c' \<and>
         prefix (outgoing demo_api demo_conn) (outgoing demo_api c'))"
  by (rule proceed_leaves_attended[OF demo_api_ok demo_wslay_ok _ demo_conn_ok]) simp

text \<open>C26: between two events a live connection is well-formed and attended, whatever the order in which
  input arrives, writes complete and messages are sent; so \<^verbatim>\<open>on_write_complete\<close> never fails its
  assertion that there are buffers in use.\<close>

theorem websocket_never_stalls:
  assumes "sock_ok A" and "wslay_ok A nbufs W" and "0 < nbufs" and "ws_live A nbufs W w c"
  shows "conn_ok A nbufs c \<and> attended A W w c \<and>
    (\<forall>s s'. sock c = Some s \<and> is_writing A s \<and> \<not> is_writing A s' \<longrightarrow>
      (\<exists>r. on_write_complete A nbufs W False w (c\<lparr>sock := Some s'\<rparr>) = Some (Inr r) \<and>
        (case r of Closed so \<Rightarrow> so \<noteq> None
         | Live w' c' \<Rightarrow> conn_ok A nbufs c' \<and> attended A W w' c' \<and> prefix (written A s') (outgoing A c'))))"
proof (intro conjI allI impI)
  show ok: "conn_ok A nbufs c" "attended A W w c" using ws_live_ok[OF assms] by simp_all
  fix s s'
  assume s: "sock c = Some s \<and> is_writing A s \<and> \<not> is_writing A s'"
  then have "write_bufs (c\<lparr>sock := Some s'\<rparr>) \<noteq> []" using ok(2) by (auto simp: attended_def)
  with on_write_complete_ok[OF assms(1-3), of "c\<lparr>sock := Some s'\<rparr>" s' w]
  show "\<exists>r. on_write_complete A nbufs W False w (c\<lparr>sock := Some s'\<rparr>) = Some (Inr r) \<and>
        (case r of Closed so \<Rightarrow> so \<noteq> None
         | Live w' c' \<Rightarrow> conn_ok A nbufs c' \<and> attended A W w' c' \<and> prefix (written A s') (outgoing A c'))"
    using s by simp
qed

lemma demo_live:
  "ws_live demo_api 4 (demo_wslay 4) [] \<lparr>sock = Some ([], [7], True, True), write_bufs = [[7]], would_block = False\<rparr>"
proof -
  let ?c = "\<lambda>bs. \<lparr>sock = Some (([], [], False, False) :: demo_sock), write_bufs = bs, would_block = False\<rparr>"
  let ?W = "demo_wslay 4"
  have b: "proceed_body demo_api 4 ?W [[7]] (?c []) = Inr (Round True [] (?c [[7]]))"
    "proceed_body demo_api 4 ?W [] (?c [[7]]) = Inr (Round False [] (?c [[7]]))"
    by (simp_all add: proceed_body_def proceed_send_def proceed_recv_def demo_wslay_def demo_event_send_def demo_api_def
        send_callback_def Let_def)
  have "proceed_loop demo_api 4 ?W [] (?c [[7]]) = Some (Inr (Round False [] (?c [[7]])))"
    by (subst proceed_loop.simps) (simp add: b(2))
  then have "proceed_loop demo_api 4 ?W [[7]] (?c []) = Some (Inr (Round False [] (?c [[7]])))"
    by (subst proceed_loop.simps) (simp add: b(1))
  then have "h2o_websocket_proceed demo_api 4 ?W [[7]] (?c []) =
      Some (Inr (Live [] \<lparr>sock = Some ([], [7], True, True), write_bufs = [[7]], would_block = False\<rparr>))"
    by (simp add: h2o_websocket_proceed_def proceed_end_def Let_def demo_wslay_def demo_api_def)
  then show ?thesis
    by (intro live_open[of demo_api "([1], [], False, False)" "?c []" 4 ?W 1 "[[7]]"])
      (simp_all add: on_websocket_complete_def demo_api_def)
qed

theorem websocket_never_stalls_witness:
  "\<exists>r. on_write_complete demo_api 4 (demo_wslay 4) False []
      \<lparr>sock = Some ([], [7], False, True), write_bufs = [[7]], would_block = False\<rparr> = Some (Inr r)"
proof -
  let ?c = "\<lparr>sock = Some ([], [7], True, True), write_bufs = [[7]], would_block = False\<rparr> :: demo_sock conn"
  have "sock ?c = Some ([], [7], True, True) \<and> is_writing demo_api ([], [7], True, True) \<and> \<not> is_writing demo_api ([], [7], False, True)"
    by (simp add: demo_api_def)
  with websocket_never_stalls[OF demo_api_ok demo_wslay_ok _ demo_live] show ?thesis by fastforce
qed

text \<open>C36: an accepted handshake has a client key of exactly 24 characters, so that the key is copied
  within its bounds, and is answered with status 101 and an accept key of 28 characters, the
  encoded hash of the client key followed by the constant of the protocol; every other request is
  declined and left as it is.\<close>

theorem handshake_in_bounds:
  assumes "http_ok H" and "version req < 512"
  shows "(\<exists>rc k. h2o_is_websocket_handshake H req = (rc, k) \<and>
    (if rc = 0 \<and> k \<noteq> None
     then length (the k) = 24 \<and> the k \<in> snd ` set (headers req) \<and>
       (\<exists>req' accept. on_websocket_req H req =
            Inr (0, req', Some \<lparr>sock = None, write_bufs = [], would_block = False\<rparr>) \<and>
          res_status req' = 101 \<and> length accept = 28 \<and> accept = base64 H (SHA1 H (the k @ WS_GUID)) \<and>
          res_headers req' = res_headers req @ [(''upgrade'', ''websocket''), (''sec-websocket-accept'', accept)])
     else on_websocket_req H req = Inr (- 1, req, None)))"
proof -
  obtain rc k where h: "h2o_is_websocket_handshake H req = (rc, k)" by fastforce
  show ?thesis
  proof (cases "rc = 0 \<and> k \<noteq> None")
    case True
    then obtain key where k: "k = Some key" by auto
    let ?i = "find_header H (headers req) ''sec-websocket-key''"
    have i: "?i = - 1 \<or> 0 \<le> ?i \<and> nat ?i < length (headers req)"
      and sz: "length (SHA1 H x) = 20" "length (base64 H x) = (length x + 2) div 3 * 4" for x
      using assms(1) unfolding http_ok_def by blast+
    have "?i \<noteq> - 1" "key = snd (headers req ! nat ?i)" "length key = 24"
      using h k True by (auto simp: h2o_is_websocket_handshake_def Let_def split: if_splits)
    then have key: "length key = 24" "key \<in> snd ` set (headers req)" using i by auto
    have g: "length WS_GUID = 36" by (simp add: WS_GUID_def)
    have "create_accept_key H key = Inr (base64 H (SHA1 H (key @ WS_GUID)))"
      using key(1) g sz by (simp add: create_accept_key_def Let_def)
    then show ?thesis using h True k key sz assms(2)
      by (auto simp: on_websocket_req_def h2o_upgrade_to_websocket_def)
  next
    case False
    then show ?thesis using h by (auto simp: on_websocket_req_def)
  qed
qed

definition demo_http :: http_lib where
  "demo_http = \<lparr>memis = (=), lcstris = (=), find_header = (\<lambda>hs n. if hs = [] then - 1 else 0),
     SHA1 = (\<lambda>x. replicate 20 CHR ''h''), base64 = (\<lambda>x. replicate ((length x + 2) div 3 * 4) CHR ''b'')\<rparr>"

definition demo_ws_request :: ws_request where
  "demo_ws_request = \<lparr>input_method = ''GET'', upgrade = Some ''websocket'',
     headers = [(''sec-websocket-key'', ''dGhlIHNhbXBsZSBub25jZQ=='')], version = 257, res_status = 0, res_reason = '''',
     res_headers = []\<rparr>"

theorem handshake_in_bounds_witness:
  "\<exists>req'. on_websocket_req demo_http demo_ws_request =
      Inr (0, req', Some \<lparr>sock = None, write_bufs = [], would_block = False\<rparr> :: demo_sock conn option) \<and> res_status req' = 101"
proof -
  have "http_ok demo_http" by (simp add: http_ok_def demo_http_def)
  moreover have "version demo_ws_request < 512" by (simp add: demo_ws_request_def)
  ultimately have "\<exists>rc k. h2o_is_websocket_handshake demo_http demo_ws_request = (rc, k) \<and>
      (if rc = 0 \<and> k \<noteq> None then \<exists>req'. on_websocket_req demo_http demo_ws_request =
         Inr (0, req', Some \<lparr>sock = None, write_bufs = [], would_block = False\<rparr> :: demo_sock conn option) \<and> res_status req' = 101 else True)"
    using handshake_in_bounds[of demo_http demo_ws_request] by fastforce
  then show ?thesis by (simp add: h2o_is_websocket_handshake_def demo_http_def demo_ws_request_def)
qed

end
