(* ===== verification/Handler_Registry.thy ===== *)
theory Handler_Registry
  imports Webserver Http_Handlers Websocket
begin

text \<open>
  How a request reaches its handler: the structures that \<^verbatim>\<open>webserver.cpp\<close>, \<^verbatim>\<open>webserver_handler.cpp\<close> and
  \<^verbatim>\<open>webserver_staticfile_handler.cpp\<close> let h2o allocate behind an \<^verbatim>\<open>h2o_handler_t\<close>, the function pointer
  they store in it, and the casts that these functions make when h2o calls them. A cast to a
  structure that the handler is not is a read outside its memory, \<open>BadPointer\<close>.
\<close>

subsection \<open>Memory\<close>

text \<open>The functions stored in \<^verbatim>\<open>on_req\<close>; \<open>Plain f\<close> is a function of the program that ignores its handler.\<close>

datatype on_req_fn = Plain "request \<Rightarrow> int \<times> request" | StaticFile | Trampoline | WebsocketReq

text \<open>What follows the \<^verbatim>\<open>h2o_handler_t\<close> in the memory of a handler: nothing, the members of
  \<^verbatim>\<open>h2o_static_file_handler_t\<close>, the pointer of \<^verbatim>\<open>internal_webserver_handler_t\<close>, or that of
  \<^verbatim>\<open>h2o_websocket_handler\<close>.\<close>

datatype members = NoMembers | StaticMembers static_file | SelfMember addr | RegistrationMember addr

record handler =
  on_req :: on_req_fn
  members :: members

text \<open>A \<^verbatim>\<open>WebServerHandler\<close> object: while only its base class is constructed, \<^verbatim>\<open>on_request\<close> is pure virtual.\<close>

datatype web_object = BaseConstructed | StaticFileObject static_file

record registry =
  handlers :: "addr \<rightharpoonup> handler"
  pathconfs :: "(string \<times> addr list) list"
  objects :: "addr \<rightharpoonup> web_object"
  registrations :: "addr \<rightharpoonup> creation_record"

subsection \<open>Registration\<close>

text \<open>A path configuration is its index. \<open>h\<close> is the address that \<^verbatim>\<open>h2o_create_handler\<close> returns.\<close>

definition register_path :: "string \<Rightarrow> registry \<Rightarrow> nat \<times> registry" where
  "register_path path R = (length (pathconfs R), R\<lparr>pathconfs := pathconfs R @ [(path, [])]\<rparr>)"

definition create_handler :: "nat \<Rightarrow> addr \<Rightarrow> handler \<Rightarrow> registry \<Rightarrow> registry res" where
  "create_handler pathconf h x R =
     (if pathconf < length (pathconfs R)
      then Inr (R\<lparr>handlers := (handlers R)(h \<mapsto> x),
                  pathconfs := (pathconfs R)[pathconf := (case pathconfs R ! pathconf of (path, hs) \<Rightarrow> (path, hs @ [h]))]\<rparr>)
      else Inl BadIndex)"

definition add_handler :: "string \<Rightarrow> addr \<Rightarrow> (request \<Rightarrow> int \<times> request) \<Rightarrow> registry \<Rightarrow> (nat \<times> registry) res" where
  "add_handler path h f R =
     (case register_path path R of (pathconf, R1) \<Rightarrow>
        bindE (create_handler pathconf h \<lparr>on_req = Plain f, members = NoMembers\<rparr> R1) (\<lambda>R2. Inr (pathconf, R2)))"

definition add_static_file_handler :: "string \<Rightarrow> addr \<Rightarrow> string \<Rightarrow> string \<Rightarrow> nat \<Rightarrow> registry \<Rightarrow> (nat \<times> registry) res" where
  "add_static_file_handler path h ctype data len R =
     (case register_path path R of (pathconf, R1) \<Rightarrow>
        bindE (create_handler pathconf h
          \<lparr>on_req = StaticFile, members = StaticMembers (register_static_file_handler ctype data len)\<rparr> R1) (\<lambda>R2. Inr (pathconf, R2)))"

text \<open>The overload with one argument stops at \<^verbatim>\<open>assert(0)\<close>; a build with \<open>ndebug\<close> goes on.\<close>

definition add_websocket_plain :: "bool \<Rightarrow> string \<Rightarrow> addr \<Rightarrow> registry \<Rightarrow> (nat \<times> registry) res" where
  "add_websocket_plain ndebug path h R =
     bindE (assertE ndebug) (\<lambda>_.
       case register_path path R of (pathconf, R1) \<Rightarrow>
         bindE (create_handler pathconf h \<lparr>on_req = WebsocketReq, members = NoMembers\<rparr> R1) (\<lambda>R2. Inr (pathconf, R2)))"

definition add_websocket :: "string \<Rightarrow> addr \<Rightarrow> addr \<Rightarrow> addr \<Rightarrow> registry \<Rightarrow> (nat \<times> registry) res" where
  "add_websocket path h r data R =
     (case register_path path R of (pathconf, R1) \<Rightarrow>
        bindE (create_handler pathconf h \<lparr>on_req = WebsocketReq, members = RegistrationMember r\<rparr>
          (R1\<lparr>registrations := (registrations R1)(r \<mapsto> \<lparr>cr_path = path, cr_data = data\<rparr>)\<rparr>)) (\<lambda>R2. Inr (pathconf, R2)))"

text \<open>The two constructors of \<^verbatim>\<open>WebServerHandler\<close>, with the object at \<open>this\<close>, and its destructor, which
  leaves the handler in h2o.\<close>

definition WebServerHandler_conf :: "nat \<Rightarrow> addr \<Rightarrow> addr \<Rightarrow> registry \<Rightarrow> registry res" where
  "WebServerHandler_conf pathconf h this R =
     create_handler pathconf h \<lparr>on_req = Trampoline, members = SelfMember this\<rparr>
       (R\<lparr>objects := (objects R)(this \<mapsto> BaseConstructed)\<rparr>)"

definition WebServerHandler_path :: "string \<Rightarrow> addr \<Rightarrow> addr \<Rightarrow> registry \<Rightarrow> registry res" where
  "WebServerHandler_path path h this R = (case register_path path R of (pathconf, R1) \<Rightarrow> WebServerHandler_conf pathconf h this R1)"

definition WebServerHandler_dtor :: "addr \<Rightarrow> registry \<Rightarrow> registry res" where
  "WebServerHandler_dtor this R =
     (case objects R this of None \<Rightarrow> Inl BadPointer | Some x \<Rightarrow> Inr (R\<lparr>objects := (objects R)(this := None)\<rparr>))"

definition new_static_file_handler :: "string \<Rightarrow> addr \<Rightarrow> addr \<Rightarrow> string \<Rightarrow> string \<Rightarrow> nat \<Rightarrow> registry \<Rightarrow> registry res" where
  "new_static_file_handler path h this ctype data len R =
     bindE (WebServerHandler_path path h this R) (\<lambda>R1.
       Inr (R1\<lparr>objects := (objects R1)(this \<mapsto> StaticFileObject (WebServerStaticFileHandler_ctor ctype data len))\<rparr>))"

subsection \<open>Calls\<close>

text \<open>The members of the \<^verbatim>\<open>h2o_req_t\<close> that the handlers use, those of plain handlers and those of an upgrade.\<close>

record web_req =
  plain :: request
  upgrading :: ws_request

text \<open>A result: the return code, the request, and for an upgrade what its generator was given.\<close>

type_synonym web_result = "int \<times> web_req \<times> creation_record option"

definition virtual_on_request :: "memis \<Rightarrow> web_object \<Rightarrow> request \<Rightarrow> (int \<times> request) res" where
  "virtual_on_request m x req = (case x of
     BaseConstructed \<Rightarrow> Inl DeadObject
   | StaticFileObject f \<Rightarrow> WebServerStaticFileHandler_on_request m f req)"

definition on_req_trampoline :: "memis \<Rightarrow> registry \<Rightarrow> handler \<Rightarrow> request \<Rightarrow> (int \<times> request) res" where
  "on_req_trampoline m R x req = (case members x of
     SelfMember this \<Rightarrow> (case objects R this of None \<Rightarrow> Inl BadPointer | Some ob \<Rightarrow> virtual_on_request m ob req)
   | _ \<Rightarrow> Inl BadPointer)"

definition static_file_on_req :: "memis \<Rightarrow> handler \<Rightarrow> request \<Rightarrow> (int \<times> request) res" where
  "static_file_on_req m x req =
     (if \<not> m (meth req) ''GET'' then Inr (- 1, req)
      else case members x of StaticMembers f \<Rightarrow> static_file_handler m f req | _ \<Rightarrow> Inl BadPointer)"

definition upgrade_registration :: "registry \<Rightarrow> handler \<Rightarrow> creation_record res" where
  "upgrade_registration R x = (case members x of
     RegistrationMember r \<Rightarrow> (case registrations R r of None \<Rightarrow> Inl BadPointer | Some cr \<Rightarrow> Inr cr)
   | _ \<Rightarrow> Inl BadPointer)"

definition websocket_on_req :: "http_lib \<Rightarrow> registry \<Rightarrow> handler \<Rightarrow> ws_request \<Rightarrow> (int \<times> ws_request \<times> creation_record option) res" where
  "websocket_on_req H R x req =
     (case h2o_is_websocket_handshake H req of
        (rc, client_key) \<Rightarrow>
          if rc \<noteq> 0 \<or> client_key = None then Inr (- 1, req, None)
          else bindE (upgrade_registration R x) (\<lambda>cr.
               bindE (h2o_upgrade_to_websocket H req (the client_key)) (\<lambda>(req', c::unit conn). Inr (0, req', Some cr))))"

definition call_handler :: "memis \<Rightarrow> http_lib \<Rightarrow> registry \<Rightarrow> addr \<Rightarrow> web_req \<Rightarrow> web_result res" where
  "call_handler m H R h req = (case handlers R h of
     None \<Rightarrow> Inl BadPointer
   | Some x \<Rightarrow> (case on_req x of
       Plain f \<Rightarrow> (case f (plain req) of (rc, p) \<Rightarrow> Inr (rc, req\<lparr>plain := p\<rparr>, None))
     | StaticFile \<Rightarrow> bindE (static_file_on_req m x (plain req)) (\<lambda>(rc, p). Inr (rc, req\<lparr>plain := p\<rparr>, None))
     | Trampoline \<Rightarrow> bindE (on_req_trampoline m R x (plain req)) (\<lambda>(rc, p). Inr (rc, req\<lparr>plain := p\<rparr>, None))
     | WebsocketReq \<Rightarrow> bindE (websocket_on_req H R x (upgrading req)) (\<lambda>(rc, u, cr). Inr (rc, req\<lparr>upgrading := u\<rparr>, cr))))"

subsection \<open>Well-typed registries\<close>

definition file_ok :: "static_file \<Rightarrow> bool" where
  "file_ok f \<longleftrightarrow> content_type_size f \<le> length (content_type f) \<and> body_size f \<le> length (body f)"

text \<open>\<open>handler_typed R path x\<close>: a handler of the given path holds the structure that its function casts it to,
  and that structure points to what the function uses.\<close>

definition handler_typed :: "registry \<Rightarrow> string \<Rightarrow> handler \<Rightarrow> bool" where
  "handler_typed R path x \<longleftrightarrow> (case on_req x of
     Plain f \<Rightarrow> True
   | StaticFile \<Rightarrow> \<exists>f. members x = StaticMembers f \<and> file_ok f
   | Trampoline \<Rightarrow> \<exists>this f. members x = SelfMember this \<and> objects R this = Some (StaticFileObject f) \<and> file_ok f
   | WebsocketReq \<Rightarrow> \<exists>r cr. members x = RegistrationMember r \<and> registrations R r = Some cr \<and> cr_path cr = path)"

definition well_typed :: "registry \<Rightarrow> bool" where
  "well_typed R \<longleftrightarrow> (\<forall>(path, hs) \<in> set (pathconfs R). \<forall>h \<in> set hs. \<exists>x. handlers R h = Some x \<and> handler_typed R path x)"

text \<open>What a registration may do to the rest: add handlers, objects and records.\<close>

definition extends :: "registry \<Rightarrow> registry \<Rightarrow> bool" where
  "extends R R' \<longleftrightarrow> handlers R \<subseteq>\<^sub>m handlers R' \<and> objects R \<subseteq>\<^sub>m objects R' \<and> registrations R \<subseteq>\<^sub>m registrations R'"

lemma map_le_Some: "m \<subseteq>\<^sub>m m' \<Longrightarrow> m k = Some v \<Longrightarrow> m' k = Some v"
  by (metis domI map_le_def)

lemma handler_typed_extends: "extends R R' \<Longrightarrow> handler_typed R path x \<Longrightarrow> handler_typed R' path x"
  unfolding handler_typed_def extends_def by (auto split: on_req_fn.splits intro: map_le_Some)

lemma well_typed_new:
  assumes "well_typed R" "extends R R'" "pathconfs R' = pathconfs R @ [(path, [h])]"
    "handlers R' h = Some x" "handler_typed R' path x"
  shows "well_typed R'"
  using assms handler_typed_extends[OF assms(2)] unfolding well_typed_def extends_def
  by (auto dest!: bspec) (meson map_le_Some)

text \<open>The registrations, of fresh memory, with data at least as long as registered.\<close>

inductive registered :: "registry \<Rightarrow> bool" where
  registered_none: "registered \<lparr>handlers = Map.empty, pathconfs = [], objects = Map.empty, registrations = Map.empty\<rparr>"
| registered_path: "registered R \<Longrightarrow> register_path path R = (i, R') \<Longrightarrow> registered R'"
| registered_handler: "registered R \<Longrightarrow> handlers R h = None \<Longrightarrow> add_handler path h f R = Inr (i, R') \<Longrightarrow> registered R'"
| registered_static: "registered R \<Longrightarrow> handlers R h = None \<Longrightarrow> len \<le> length data \<Longrightarrow>
    add_static_file_handler path h ctype data len R = Inr (i, R') \<Longrightarrow> registered R'"
| registered_websocket: "registered R \<Longrightarrow> handlers R h = None \<Longrightarrow> registrations R r = None \<Longrightarrow>
    add_websocket path h r cookie R = Inr (i, R') \<Longrightarrow> registered R'"
| registered_object: "registered R \<Longrightarrow> handlers R h = None \<Longrightarrow> objects R this = None \<Longrightarrow> len \<le> length data \<Longrightarrow>
    new_static_file_handler path h this ctype data len R = Inr R' \<Longrightarrow> registered R'"

lemmas registration_defs = register_path_def create_handler_def add_handler_def add_static_file_handler_def add_websocket_def
  new_static_file_handler_def WebServerHandler_path_def WebServerHandler_conf_def

lemma registered_typed: "registered R \<Longrightarrow> well_typed R"
proof (induction rule: registered.induct)
  case (registered_path R path i R')
  then have e: "R' = R\<lparr>pathconfs := pathconfs R @ [(path, [])]\<rparr>" by (simp add: register_path_def)
  have "extends R R'" by (simp add: e extends_def)
  then show ?case using registered_path.IH handler_typed_extends[of R R'] unfolding well_typed_def by (fastforce simp: e)
next
  case (registered_handler R h path f i R')
  then show ?case
    by (intro well_typed_new[of R R' path h "\<lparr>on_req = Plain f, members = NoMembers\<rparr>"])
      (auto simp: registration_defs extends_def map_le_def handler_typed_def)
next
  case (registered_static R h len data path ctype i R')
  then show ?case
    by (intro well_typed_new[of R R' path h
          "\<lparr>on_req = StaticFile, members = StaticMembers (register_static_file_handler ctype data len)\<rparr>"])
      (auto simp: registration_defs extends_def map_le_def handler_typed_def file_ok_def register_static_file_handler_def)
next
  case (registered_websocket R h r path cookie i R')
  then show ?case
    by (intro well_typed_new[of R R' path h "\<lparr>on_req = WebsocketReq, members = RegistrationMember r\<rparr>"])
      (auto simp: registration_defs extends_def map_le_def handler_typed_def)
next
  case (registered_object R h this len data path ctype R')
  then show ?case
    by (intro well_typed_new[of R R' path h "\<lparr>on_req = Trampoline, members = SelfMember this\<rparr>"])
      (auto simp: registration_defs extends_def map_le_def handler_typed_def file_ok_def WebServerStaticFileHandler_ctor_def)
qed (simp add: well_typed_def)

lemma handshake_key:
  assumes "http_ok H" "h2o_is_websocket_handshake H req = (rc, Some key)"
  shows "length key = 24"
  using assms by (auto simp: h2o_is_websocket_handshake_def Let_def split: if_splits)

lemma upgrade_ok:
  assumes "http_ok H" "length key = 24" "version req < 512"
  shows "\<exists>req' c. h2o_upgrade_to_websocket H req key = Inr (req', c)"
proof -
  have "length (base64 H x) = (length x + 2) div 3 * 4" "length (SHA1 H x) = 20" for x using assms(1) by (simp_all add: http_ok_def)
  then show ?thesis using assms(2,3) by (simp add: h2o_upgrade_to_websocket_def create_accept_key_def WS_GUID_def Let_def)
qed

lemma websocket_on_req_ok:
  assumes "http_ok H" "version req < 512" "upgrade_registration R x = Inr cr"
  shows "\<exists>rc req' o'. websocket_on_req H R x req = Inr (rc, req', o') \<and> (o' = Some cr \<and> rc = 0 \<or> o' = None \<and> rc = - 1)"
proof (cases "h2o_is_websocket_handshake H req")
  case (Pair rc key)
  show ?thesis
  proof (cases "rc \<noteq> 0 \<or> key = None")
    case False
    then obtain k where k: "key = Some k" by auto
    obtain req' and c :: "unit conn" where "h2o_upgrade_to_websocket H req k = Inr (req', c)"
      using upgrade_ok[OF assms(1) handshake_key[OF assms(1)] assms(2)] Pair k by blast
    then show ?thesis using False Pair assms(3) k by (simp add: websocket_on_req_def)
  qed (use Pair in \<open>auto simp: websocket_on_req_def\<close>)
qed

lemma static_file_ok:
  assumes "file_ok f"
  shows "\<exists>rc p. static_file_handler m f req = Inr (rc, p)"
    "\<exists>rc p. WebServerStaticFileHandler_on_request m f req = Inr (rc, p)"
  using assms by (auto simp: file_ok_def static_file_handler_def WebServerStaticFileHandler_on_request_def Let_def)

lemma typed_call:
  assumes x: "handlers R h = Some x" "handler_typed R path x" and H: "http_ok H" "version (upgrading req) < 512"
  shows "\<exists>rc req' o'. call_handler m H R h req = Inr (rc, req', o') \<and> (\<forall>cr. o' = Some cr \<longrightarrow> rc = 0 \<and> cr_path cr = path)"
proof (cases "on_req x")
  case (Plain f)
  then show ?thesis using x by (simp add: call_handler_def split: prod.split)
next
  case StaticFile
  then obtain f where f: "members x = StaticMembers f" "file_ok f" using x(2) by (auto simp: handler_typed_def)
  then have "\<exists>rc p. static_file_on_req m x (plain req) = Inr (rc, p)"
    using static_file_ok(1)[OF f(2), of m "plain req"] by (simp add: static_file_on_req_def)
  then obtain rc p where "static_file_on_req m x (plain req) = Inr (rc, p)" by blast
  then show ?thesis using x(1) StaticFile by (simp add: call_handler_def)
next
  case Trampoline
  then obtain this f where f: "members x = SelfMember this" "objects R this = Some (StaticFileObject f)" "file_ok f"
    using x(2) by (auto simp: handler_typed_def)
  then obtain rc p where "on_req_trampoline m R x (plain req) = Inr (rc, p)"
    using static_file_ok(2)[OF f(3), of m "plain req"] by (auto simp: on_req_trampoline_def virtual_on_request_def)
  then show ?thesis using x(1) Trampoline by (simp add: call_handler_def)
next
  case WebsocketReq
  then obtain r cr where r: "members x = RegistrationMember r" "registrations R r = Some cr" "cr_path cr = path"
    using x(2) by (auto simp: handler_typed_def)
  then have "upgrade_registration R x = Inr cr" by (simp add: upgrade_registration_def)
  from websocket_on_req_ok[OF H this] show ?thesis using x(1) WebsocketReq r(3) by (auto simp: call_handler_def)
qed

text \<open>Every registration leaves what is registered in place.\<close>

lemma registration_extends:
  "add_handler path h f R = Inr (i, R') \<Longrightarrow> handlers R h = None \<Longrightarrow> extends R R'"
  "add_static_file_handler path h ctype data len R = Inr (i, R') \<Longrightarrow> handlers R h = None \<Longrightarrow> extends R R'"
  "add_websocket path h r cookie R = Inr (i, R') \<Longrightarrow> handlers R h = None \<Longrightarrow> registrations R r = None \<Longrightarrow> extends R R'"
  "new_static_file_handler path h this ctype data len R = Inr R' \<Longrightarrow> handlers R h = None \<Longrightarrow> objects R this = None \<Longrightarrow> extends R R'"
  by (auto simp: registration_defs extends_def map_le_def)

subsection \<open>Theorems\<close>

definition no_registry :: registry where
  "no_registry = \<lparr>handlers = Map.empty, pathconfs = [], objects = Map.empty, registrations = Map.empty\<rparr>"

definition demo_registry :: registry where
  "demo_registry =
     \<lparr>handlers = [64 \<mapsto> \<lparr>on_req = WebsocketReq, members = RegistrationMember 128\<rparr>,
                  192 \<mapsto> \<lparr>on_req = Trampoline, members = SelfMember 256\<rparr>],
      pathconfs = [(''/ws'', [64]), (''/page'', [192])],
      objects = [256 \<mapsto> StaticFileObject (WebServerStaticFileHandler_ctor ''text/html'' ''<p>hi'' 3)],
      registrations = [128 \<mapsto> \<lparr>cr_path = ''/ws'', cr_data = 7\<rparr>]\<rparr>"

lemma demo_registry_registered: "registered demo_registry"
proof -
  define R1 where "R1 = \<lparr>handlers = [64 \<mapsto> \<lparr>on_req = WebsocketReq, members = RegistrationMember 128\<rparr>],
    pathconfs = [(''/ws'', [64])], objects = Map.empty, registrations = [128 \<mapsto> \<lparr>cr_path = ''/ws'', cr_data = 7\<rparr>]\<rparr>"
  have "registered R1"
    by (rule registered_websocket[OF registered_none, of 64 128 "''/ws''" 7 0]) (simp_all add: registration_defs R1_def)
  then show ?thesis
    by (rule registered_object[of _ 192 256 3 "''<p>hi''" "''/page''" "''text/html''"])
      (simp_all add: registration_defs R1_def demo_registry_def fun_upd_twist)
qed

text \<open>C8: Registration is type correct: whatever is registered, in whatever order, each handler of a path has the members
  that its function casts it to. So h2o may call any of them with any request: no cast reads outside
  the handler, no member points to an object that is not there, and a websocket is created with the
  record of the path it was asked for.\<close>

theorem registered_handlers_typed:
  assumes "registered R" "(path, hs) \<in> set (pathconfs R)" "h \<in> set hs"
    and "http_ok H" "version (upgrading req) < 512"
  shows "\<exists>rc req' made. call_handler m H R h req = Inr (rc, req', made) \<and>
    (\<forall>cr. made = Some cr \<longrightarrow> rc = 0 \<and> cr_path cr = path)"
proof -
  obtain x where "handlers R h = Some x" "handler_typed R path x"
    using registered_typed[OF assms(1)] assms(2,3) unfolding well_typed_def by fastforce
  from typed_call[OF this assms(4,5)] show ?thesis .
qed

definition demo_web_req :: web_req where
  "demo_web_req = \<lparr>plain = demo_request, upgrading = demo_ws_request\<rparr>"

lemma demo_http_ok: "http_ok demo_http"
  by (simp add: http_ok_def demo_http_def)

lemma demo_handshake: "h2o_is_websocket_handshake demo_http (upgrading demo_web_req) = (0, Some ''dGhlIHNhbXBsZSBub25jZQ=='')"
  by (simp add: h2o_is_websocket_handshake_def demo_http_def demo_web_req_def demo_ws_request_def)

lemma demo_registry_lookup:
  "handlers demo_registry 64 = Some \<lparr>on_req = WebsocketReq, members = RegistrationMember 128\<rparr>"
  "handlers demo_registry 192 = Some \<lparr>on_req = Trampoline, members = SelfMember 256\<rparr>"
  "registrations demo_registry 128 = Some \<lparr>cr_path = ''/ws'', cr_data = 7\<rparr>"
  by (simp_all add: demo_registry_def)

theorem registered_handlers_typed_witness:
  "\<exists>req'. call_handler (=) demo_http demo_registry 64 demo_web_req = Inr (0, req', Some \<lparr>cr_path = ''/ws'', cr_data = 7\<rparr>)"
proof -
  have "version (upgrading demo_web_req) < 512" by (simp add: demo_web_req_def demo_ws_request_def)
  moreover have "(''/ws'', [64]) \<in> set (pathconfs demo_registry)" by (simp add: demo_registry_def)
  ultimately obtain rc req' made where r: "call_handler (=) demo_http demo_registry 64 demo_web_req = Inr (rc, req', made)"
    "\<forall>cr. made = Some cr \<longrightarrow> rc = 0 \<and> cr_path cr = ''/ws''"
    using registered_handlers_typed[OF demo_registry_registered, of "''/ws''" "[64]" 64 demo_http demo_web_req "(=)"] demo_http_ok
    by auto
  moreover have "made = Some \<lparr>cr_path = ''/ws'', cr_data = 7\<rparr>"
    using r(1) demo_handshake by (auto simp: call_handler_def demo_registry_lookup websocket_on_req_def upgrade_registration_def)
  ultimately show ?thesis by auto
qed

text \<open>C29: A static file is served at its path from then on: after \<^verbatim>\<open>register_static_file_handler\<close>, or after the construction
  of a \<^verbatim>\<open>WebServerStaticFileHandler\<close>, and whatever else is registered later, calling the handler that
  h2o holds answers a GET once, with the first bytes of the data, and declines every other method.\<close>

theorem static_file_served:
  assumes "memis_ok m" "len \<le> length data" "handlers R h = None" "extends R1 R2"
    and "add_static_file_handler path h ctype data len R = Inr (i, R1) \<or>
      new_static_file_handler path h this ctype data len R = Inr R1"
  shows "\<exists>rc p. call_handler m H R2 h req = Inr (rc, req\<lparr>plain := p\<rparr>, None) \<and>
    (if meth (plain req) = ''GET'' then answered (rc, p) (plain req) (take len data) else declined (rc, p) (plain req))"
proof -
  have m: "m a b \<longleftrightarrow> a = b" for a b using assms(1) by (simp add: memis_ok_def)
  have h: "handlers R1 h = Some x \<Longrightarrow> handlers R2 h = Some x" "objects R1 o' = Some y \<Longrightarrow> objects R2 o' = Some y" for x o' y
    using assms(4) map_le_Some unfolding extends_def by metis+
  obtain rc p where r: "static_file_handler m (register_static_file_handler ctype data len) (plain req) = Inr (rc, p)"
    "WebServerStaticFileHandler_on_request m (WebServerStaticFileHandler_ctor ctype data len) (plain req) = Inr (rc, p)"
    "if meth (plain req) = ''GET'' then answered (rc, p) (plain req) (take len data) else declined (rc, p) (plain req)"
    using static_file_answer[OF assms(1,2), of ctype "plain req"] by (metis prod.exhaust)
  have "call_handler m H R2 h req = Inr (rc, req\<lparr>plain := p\<rparr>, None)" using assms(5)
  proof
    assume "add_static_file_handler path h ctype data len R = Inr (i, R1)"
    then have "handlers R1 h = Some \<lparr>on_req = StaticFile, members = StaticMembers (register_static_file_handler ctype data len)\<rparr>"
      by (auto simp: registration_defs)
    from h(1)[OF this] have c: "call_handler m H R2 h req =
        bindE (if \<not> m (meth (plain req)) ''GET'' then Inr (- 1, plain req)
          else static_file_handler m (register_static_file_handler ctype data len) (plain req)) (\<lambda>(rc, p). Inr (rc, req\<lparr>plain := p\<rparr>, None))"
      by (simp add: call_handler_def static_file_on_req_def)
    show ?thesis
    proof (cases "m (meth (plain req)) ''GET''")
      case False
      then have "static_file_handler m (register_static_file_handler ctype data len) (plain req) = Inr (- 1, plain req)"
        by (simp add: static_file_handler_def)
      then show ?thesis using c False r(1) by simp
    qed (simp add: c r(1))
  next
    assume "new_static_file_handler path h this ctype data len R = Inr R1"
    then have "handlers R1 h = Some \<lparr>on_req = Trampoline, members = SelfMember this\<rparr>"
      "objects R1 this = Some (StaticFileObject (WebServerStaticFileHandler_ctor ctype data len))"
      by (auto simp: registration_defs)
    from h(1)[OF this(1)] h(2)[OF this(2)] have "handlers R2 h = Some \<lparr>on_req = Trampoline, members = SelfMember this\<rparr>"
      "objects R2 this = Some (StaticFileObject (WebServerStaticFileHandler_ctor ctype data len))" .
    then show ?thesis by (simp add: call_handler_def on_req_trampoline_def virtual_on_request_def r(2))
  qed
  then show ?thesis using r(3) by blast
qed

text \<open>Deleting a \<^verbatim>\<open>WebServerHandler\<close> does not take its handler out of h2o: the path keeps it, and the next request for
  it makes the trampoline call a method of the deleted object. And a websocket path registered with
  the overload that only an assertion forbids has no registration: with assertions compiled out, an
  upgrade reads it behind the end of the handler.\<close>

theorem handlers_outlive_objects:
  assumes "handlers R h = Some \<lparr>on_req = Trampoline, members = SelfMember this\<rparr>" "WebServerHandler_dtor this R = Inr R1"
    and "add_websocket_plain True path h' R = Inr (i, R2)" "h2o_is_websocket_handshake H (upgrading req) = (0, Some key)"
  shows "pathconfs R1 = pathconfs R \<and> call_handler m H R1 h req = Inl BadPointer \<and>
    add_websocket_plain False path h' R = Inl AssertFailed \<and> call_handler m H R2 h' req = Inl BadPointer"
proof -
  have R1: "R1 = R\<lparr>objects := (objects R)(this := None)\<rparr>" using assms(2) by (auto simp: WebServerHandler_dtor_def split: option.splits)
  have "handlers R2 h' = Some \<lparr>on_req = WebsocketReq, members = NoMembers\<rparr>"
    using assms(3) by (auto simp: add_websocket_plain_def registration_defs)
  then have "call_handler m H R2 h' req = Inl BadPointer"
    using assms(4) by (simp add: call_handler_def websocket_on_req_def upgrade_registration_def)
  then show ?thesis using assms(1) by (simp add: R1 call_handler_def on_req_trampoline_def add_websocket_plain_def)
qed

theorem handlers_outlive_objects_witness:
  "\<exists>R1. WebServerHandler_dtor 256 demo_registry = Inr R1 \<and> call_handler (=) demo_http R1 192 demo_web_req = Inl BadPointer"
proof -
  obtain R1 where d: "WebServerHandler_dtor 256 demo_registry = Inr R1" by (simp add: WebServerHandler_dtor_def demo_registry_def)
  obtain i R2 where w: "add_websocket_plain True ''/old'' 320 demo_registry = Inr (i, R2)"
    by (simp add: add_websocket_plain_def registration_defs)
  show ?thesis using handlers_outlive_objects[OF demo_registry_lookup(2) d w demo_handshake, of "(=)"] d by blast
qed

theorem static_file_served_witness:
  "\<exists>rc p. call_handler (=) demo_http demo_registry 192 (demo_web_req\<lparr>plain := demo_request\<lparr>meth := ''GET''\<rparr>\<rparr>) =
      Inr (rc, demo_web_req\<lparr>plain := p\<rparr>, None) \<and> answered (rc, p) (demo_request\<lparr>meth := ''GET''\<rparr>) ''<p>''"
proof -
  let ?R = "demo_registry\<lparr>handlers := [64 \<mapsto> \<lparr>on_req = WebsocketReq, members = RegistrationMember 128\<rparr>],
    pathconfs := [(''/ws'', [64])], objects := Map.empty\<rparr>"
  have "new_static_file_handler ''/page'' 192 256 ''text/html'' ''<p>hi'' 3 ?R = Inr demo_registry"
    by (simp add: registration_defs demo_registry_def fun_upd_twist)
  moreover have "memis_ok (=)" "3 \<le> length ''<p>hi''" "handlers ?R 192 = None" "extends demo_registry demo_registry"
    by (simp_all add: memis_ok_def extends_def)
  ultimately show ?thesis
    using static_file_served[of "(=)" 3 "''<p>hi''" ?R 192 demo_registry demo_registry "''/page''" "''text/html''" 0 256 demo_http
        "demo_web_req\<lparr>plain := demo_request\<lparr>meth := ''GET''\<rparr>\<rparr>"] by simp
qed

end
