(* ===== verification/Demo_Server.thy ===== *)
theory Demo_Server
  imports Handler_Registry
begin

text \<open>
  The registrations of \<^verbatim>\<open>webserver_demo.cpp\<close>, with the functions of \<open>Http_Handlers\<close> as handlers: what h2o holds
  for each path afterwards, and what it gets when it calls it. \<open>h1\<close> to \<open>h3\<close> are the addresses that
  \<^verbatim>\<open>h2o_create_handler\<close> returns; the loggers and the file handler of \<^verbatim>\<open>/\<close> belong to h2o. The end of the theory
  compares the registrations of \<^verbatim>\<open>simple.cpp\<close>.
\<close>

definition register_demo_handlers :: "memis \<Rightarrow> addr \<Rightarrow> addr \<Rightarrow> addr \<Rightarrow> registry \<Rightarrow> registry res" where
  "register_demo_handlers m h1 h2 h3 R =
     bindE (add_handler ''/post-test'' h1 (post_test m) R) (\<lambda>(pathconf1, R1).
     bindE (add_handler ''/chunked-test'' h2 (chunked_test m) R1) (\<lambda>(pathconf2, R2).
     bindE (add_handler ''/reproxy-test'' h3 (reproxy_test m) R2) (\<lambda>(pathconf3, R3).
     Inr (snd (register_path ''/'' R3)))))"

lemma register_demo_handlers_eq:
  "register_demo_handlers m h1 h2 h3 no_registry = Inr
     \<lparr>handlers = [h1 \<mapsto> \<lparr>on_req = Plain (post_test m), members = NoMembers\<rparr>,
        h2 \<mapsto> \<lparr>on_req = Plain (chunked_test m), members = NoMembers\<rparr>,
        h3 \<mapsto> \<lparr>on_req = Plain (reproxy_test m), members = NoMembers\<rparr>],
      pathconfs = [(''/post-test'', [h1]), (''/chunked-test'', [h2]), (''/reproxy-test'', [h3]), (''/'', [])],
      objects = Map.empty, registrations = Map.empty\<rparr>"
  by (simp add: register_demo_handlers_def registration_defs no_registry_def)

lemma register_demo_handlers_registered:
  assumes "distinct [h1, h2, h3]" "register_demo_handlers m h1 h2 h3 no_registry = Inr R"
  shows "registered R"
proof -
  obtain i1 R1 i2 R2 i3 R3 where r: "add_handler ''/post-test'' h1 (post_test m) no_registry = Inr (i1, R1)"
    "add_handler ''/chunked-test'' h2 (chunked_test m) R1 = Inr (i2, R2)"
    "add_handler ''/reproxy-test'' h3 (reproxy_test m) R2 = Inr (i3, R3)" "register_path ''/'' R3 = (fst (register_path ''/'' R3), R)"
    using assms(2) by (auto simp: register_demo_handlers_def)
  have "handlers R1 h2 = None" "handlers R2 h3 = None"
    using r(1,2) assms(1) by (auto simp: registration_defs no_registry_def)
  moreover have "registered R1"
    using registered_handler[OF registered_none _ r(1)[unfolded no_registry_def]] by simp
  ultimately show ?thesis using registered_handler registered_path r(2-4) by blast
qed

lemma call_plain:
  assumes "handlers R h = Some \<lparr>on_req = Plain f, members = NoMembers\<rparr>"
  shows "\<exists>rc p. call_handler m H R h req = Inr (rc, req\<lparr>plain := p\<rparr>, None) \<and> f (plain req) = (rc, p)"
  using assms by (cases "f (plain req)") (simp add: call_handler_def)

text \<open>C30: what the demo serves: after its registrations h2o holds one handler for each test path, a GET of
  \<^verbatim>\<open>/chunked-test\<close> and \<^verbatim>\<open>/reproxy-test\<close> is answered once with the text of that page, and a POST below
  \<^verbatim>\<open>/post-test\<close> is answered with its own body only when the path ends in a slash; everything else is
  declined.\<close>

theorem demo_paths_answer:
  assumes "memis_ok m" and "distinct [h1, h2, h3]"
  shows "\<exists>R. register_demo_handlers m h1 h2 h3 no_registry = Inr R \<and> registered R \<and>
    pathconfs R = [(''/post-test'', [h1]), (''/chunked-test'', [h2]), (''/reproxy-test'', [h3]), (''/'', [])] \<and>
    (\<exists>rc p. call_handler m H R h1 req = Inr (rc, req\<lparr>plain := p\<rparr>, None) \<and>
       (if meth (plain req) = ''POST'' \<and> path_normalized (plain req) = ''/post-test/''
        then answered (rc, p) (plain req) (entity (plain req)) else declined (rc, p) (plain req))) \<and>
    (\<exists>rc p. call_handler m H R h2 req = Inr (rc, req\<lparr>plain := p\<rparr>, None) \<and>
       (if meth (plain req) = ''GET'' then answered (rc, p) (plain req) demo_body else declined (rc, p) (plain req))) \<and>
    (\<exists>rc p. call_handler m H R h3 req = Inr (rc, req\<lparr>plain := p\<rparr>, None) \<and>
       (if meth (plain req) = ''GET'' then answered (rc, p) (plain req) (''you should never see this!'' @ [CHR 0x0A])
        else declined (rc, p) (plain req)))"
proof -
  obtain R where r: "register_demo_handlers m h1 h2 h3 no_registry = Inr R"
    "handlers R h1 = Some \<lparr>on_req = Plain (post_test m), members = NoMembers\<rparr>"
    "handlers R h2 = Some \<lparr>on_req = Plain (chunked_test m), members = NoMembers\<rparr>"
    "handlers R h3 = Some \<lparr>on_req = Plain (reproxy_test m), members = NoMembers\<rparr>"
    "pathconfs R = [(''/post-test'', [h1]), (''/chunked-test'', [h2]), (''/reproxy-test'', [h3]), (''/'', [])]"
    using assms(2) unfolding register_demo_handlers_eq by auto
  note d = demo_handlers_answer_once[OF assms(1), of "plain req"]
  obtain rc1 p1 rc2 p2 rc3 p3 where
    c: "call_handler m H R h1 req = Inr (rc1, req\<lparr>plain := p1\<rparr>, None)" "post_test m (plain req) = (rc1, p1)"
      "call_handler m H R h2 req = Inr (rc2, req\<lparr>plain := p2\<rparr>, None)" "chunked_test m (plain req) = (rc2, p2)"
      "call_handler m H R h3 req = Inr (rc3, req\<lparr>plain := p3\<rparr>, None)" "reproxy_test m (plain req) = (rc3, p3)"
    using call_plain[OF r(2), of m H req] call_plain[OF r(3), of m H req] call_plain[OF r(4), of m H req] by blast
  show ?thesis
    by (intro exI[of _ R] conjI r(1,5) register_demo_handlers_registered[OF assms(2) r(1)] exI[of _ rc1] exI[of _ p1]
        exI[of _ rc2] exI[of _ p2] exI[of _ rc3] exI[of _ p3] c(1,3,5) d[unfolded c(2,4,6), THEN conjunct1]
        d[unfolded c(2,4,6), THEN conjunct2, THEN conjunct1] d[unfolded c(2,4,6), THEN conjunct2, THEN conjunct2])
qed

theorem demo_paths_answer_witness:
  "\<exists>R rc p. register_demo_handlers (=) 64 128 192 no_registry = Inr R \<and>
     call_handler (=) demo_http R 64 demo_web_req = Inr (rc, demo_web_req\<lparr>plain := p\<rparr>, None) \<and>
     answered (rc, p) demo_request ''abc''"
proof -
  have "memis_ok (=)" "distinct [64, 128, 192 :: addr]" by (simp_all add: memis_ok_def)
  from demo_paths_answer[OF this, of demo_http demo_web_req] show ?thesis
    by (auto simp: demo_web_req_def demo_request_def)
qed

subsection \<open>The registrations of simple.cpp\<close>

definition simple_register_handler :: "string \<Rightarrow> addr \<Rightarrow> (request \<Rightarrow> int \<times> request) \<Rightarrow> registry \<Rightarrow> (nat \<times> registry) res" where
  "simple_register_handler path h f R =
     (case register_path path R of (pathconf, R1) \<Rightarrow>
        bindE (create_handler pathconf h \<lparr>on_req = Plain f, members = NoMembers\<rparr> R1) (\<lambda>R2. Inr (pathconf, R2)))"

definition register_simple_handlers :: "memis \<Rightarrow> addr \<Rightarrow> addr \<Rightarrow> addr \<Rightarrow> registry \<Rightarrow> registry res" where
  "register_simple_handlers m h1 h2 h3 R =
     bindE (simple_register_handler ''/post-test'' h1 (simple_post_test m) R) (\<lambda>(pathconf1, R1).
     bindE (simple_register_handler ''/chunked-test'' h2 (simple_chunked_test m) R1) (\<lambda>(pathconf2, R2).
     bindE (simple_register_handler ''/reproxy-test'' h3 (simple_reproxy_test m) R2) (\<lambda>(pathconf3, R3).
     Inr (snd (register_path ''/'' R3)))))"

lemma register_simple_handlers_eq:
  "register_simple_handlers m h1 h2 h3 no_registry = Inr
     \<lparr>handlers = [h1 \<mapsto> \<lparr>on_req = Plain (simple_post_test m), members = NoMembers\<rparr>,
        h2 \<mapsto> \<lparr>on_req = Plain (simple_chunked_test m), members = NoMembers\<rparr>,
        h3 \<mapsto> \<lparr>on_req = Plain (simple_reproxy_test m), members = NoMembers\<rparr>],
      pathconfs = [(''/post-test'', [h1]), (''/chunked-test'', [h2]), (''/reproxy-test'', [h3]), (''/'', [])],
      objects = Map.empty, registrations = Map.empty\<rparr>"
  by (simp add: register_simple_handlers_def simple_register_handler_def registration_defs no_registry_def)

lemma call_plain_eq:
  "handlers R h = Some \<lparr>on_req = Plain f, members = NoMembers\<rparr> \<Longrightarrow>
     call_handler m H R h req = Inr (case f (plain req) of (rc, p) \<Rightarrow> (rc, req\<lparr>plain := p\<rparr>, None))"
  by (simp add: call_handler_def split: prod.split)

text \<open>The two servers register the same paths and accept and decline the same requests; only the text of
  \<^verbatim>\<open>/chunked-test\<close> differs.\<close>

theorem simple_paths_alike:
  assumes "distinct [h1, h2, h3]"
  shows "\<exists>R S. register_demo_handlers m h1 h2 h3 no_registry = Inr R \<and> register_simple_handlers m h1 h2 h3 no_registry = Inr S \<and>
    pathconfs S = pathconfs R \<and> call_handler m H S h1 req = call_handler m H R h1 req \<and>
    call_handler m H S h3 req = call_handler m H R h3 req \<and>
    map_sum id fst (call_handler m H S h2 req) = map_sum id fst (call_handler m H R h2 req)"
proof -
  obtain R S where r: "register_demo_handlers m h1 h2 h3 no_registry = Inr R" "register_simple_handlers m h1 h2 h3 no_registry = Inr S"
    "pathconfs S = pathconfs R" and c:
    "handlers R h1 = Some \<lparr>on_req = Plain (post_test m), members = NoMembers\<rparr>"
    "handlers R h2 = Some \<lparr>on_req = Plain (chunked_test m), members = NoMembers\<rparr>"
    "handlers R h3 = Some \<lparr>on_req = Plain (reproxy_test m), members = NoMembers\<rparr>"
    "handlers S h1 = Some \<lparr>on_req = Plain (simple_post_test m), members = NoMembers\<rparr>"
    "handlers S h2 = Some \<lparr>on_req = Plain (simple_chunked_test m), members = NoMembers\<rparr>"
    "handlers S h3 = Some \<lparr>on_req = Plain (simple_reproxy_test m), members = NoMembers\<rparr>"
    using assms unfolding register_demo_handlers_eq register_simple_handlers_eq by auto
  have "call_handler m H S h1 req = call_handler m H R h1 req" "call_handler m H S h3 req = call_handler m H R h3 req"
    unfolding c[THEN call_plain_eq] simple_handlers_same by (rule refl)+
  moreover have "map_sum id fst (call_handler m H S h2 req) = map_sum id fst (call_handler m H R h2 req)"
    unfolding c[THEN call_plain_eq] using simple_handlers_same(3)[of m "plain req"] by (simp add: case_prod_beta)
  ultimately show ?thesis using r by blast
qed

theorem simple_paths_alike_witness:
  "\<exists>S. register_simple_handlers (=) 64 128 192 no_registry = Inr S \<and>
     (\<exists>rc p. call_handler (=) demo_http S 64 demo_web_req = Inr (rc, demo_web_req\<lparr>plain := p\<rparr>, None))"
proof -
  have "distinct [64, 128, 192 :: addr]" by simp
  from simple_paths_alike[OF this, of "(=)" demo_http demo_web_req] show ?thesis
    using register_demo_handlers_eq[of "(=)" 64 128 192] by (auto simp: call_handler_def split: prod.splits)
qed

end
