(* ===== verification/Websocket_Reentry.thy ===== *)
theory Websocket_Reentry
  imports Websocket
begin

text \<open>
  \<^verbatim>\<open>appserver_websocket.cpp\<close> once more, with the calls that come back from wslay: \<^verbatim>\<open>wslay_event_recv\<close> calls
  \<^verbatim>\<open>on_msg_callback\<close>, which reaches the virtual \<^verbatim>\<open>receive_websocket_message\<close>; that of \<^verbatim>\<open>AppServerEchoWebSocket\<close>
  calls \<^verbatim>\<open>send_websocket_message\<close> and so \<^verbatim>\<open>h2o_websocket_proceed\<close> while the outer \<^verbatim>\<open>h2o_websocket_proceed\<close>
  is still inside \<^verbatim>\<open>wslay_event_recv\<close>. The connection, its wslay context and its \<^verbatim>\<open>AppServerWebSocket\<close> are
  memory here: an access after they are freed is \<open>BadPointer\<close>.
\<close>

subsection \<open>Memory and libraries\<close>

text \<open>The dynamic class of the \<^verbatim>\<open>AppServerWebSocket\<close>.\<close>

datatype app_class = AppServerWebSocket | AppServerEchoWebSocket

text \<open>\<open>None\<close> is memory that has been freed. \<open>heard\<close> and \<open>queued\<close> record the messages passed to
  \<^verbatim>\<open>receive_websocket_message\<close> and to \<^verbatim>\<open>wslay_event_queue_msg\<close>.\<close>

record ('w, 's) ws_mem =
  the_conn :: "'s conn option"
  the_ctx :: "'w option"
  the_app :: "app_class option"
  end_sock :: "'s option"
  heard :: "(byte \<times> byte list) list"
  queued :: "(byte \<times> byte list) list"

text \<open>
  What \<^verbatim>\<open>wslay_event_recv\<close> does next, given its context: it returns, it calls \<^verbatim>\<open>recv_callback\<close> with a
  buffer of some size and goes on with the result, or it hands over a message and goes on with
  whatever the context is when the callback returns.
\<close>

datatype 'w recv_action =
    RecvReturn int 'w
  | WantData nat "byte list option \<Rightarrow> 'w"
  | Message byte "byte list" 'w

record ('w, 's) ws_lib =
  sock_lib :: "'s sock_api"
  bufs :: nat
  wslay :: "('w, 's) wslay_api"
  recv_next :: "'w \<Rightarrow> 'w recv_action"

definition live :: "'a option \<Rightarrow> 'a res" where
  "live p = (case p of None \<Rightarrow> Inl BadPointer | Some x \<Rightarrow> Inr x)"

definition bindR :: "'a res option \<Rightarrow> ('a \<Rightarrow> 'b res option) \<Rightarrow> 'b res option" where
  "bindR x f = Option.bind x (\<lambda>r. case r of Inl e \<Rightarrow> Some (Inl e) | Inr y \<Rightarrow> f y)"

subsection \<open>Steps without a call back\<close>

text \<open>What an outcome does to the memory: \<^verbatim>\<open>on_websocket_message(conn, NULL)\<close> closes and frees the
  connection and its context, and deletes the \<^verbatim>\<open>AppServerWebSocket\<close>.\<close>

definition store :: "('w, 's) outcome \<Rightarrow> ('w, 's) ws_mem \<Rightarrow> ('w, 's) ws_mem res" where
  "store out m = (case out of
     Live w c \<Rightarrow> Inr (m\<lparr>the_conn := Some c, the_ctx := Some w\<rparr>)
   | Closed so \<Rightarrow> bindE (live (the_app m)) (\<lambda>_.
       Inr (m\<lparr>the_conn := None, the_ctx := None, the_app := None, end_sock := so\<rparr>)))"

definition with_conn :: "('w, 's) ws_mem \<Rightarrow> ('w \<Rightarrow> 's conn \<Rightarrow> 'a res) \<Rightarrow> 'a res" where
  "with_conn m f = bindE (live (the_conn m)) (\<lambda>c. bindE (live (the_ctx m)) (\<lambda>w. f w c))"

definition close_phase :: "('w, 's) ws_lib \<Rightarrow> ('w, 's) ws_mem \<Rightarrow> ('w, 's) ws_mem res" where
  "close_phase L m = with_conn m (\<lambda>w c. store (on_close (sock_lib L) w c) m)"

definition end_phase :: "('w, 's) ws_lib \<Rightarrow> ('w, 's) ws_mem \<Rightarrow> ('w, 's) ws_mem res" where
  "end_phase L m = with_conn m (\<lambda>w c. bindE (proceed_end (sock_lib L) (wslay L) w c) (\<lambda>out. store out m))"

text \<open>The sending half of the loop body; \<open>None\<close> goes to the label \<^verbatim>\<open>Close\<close>, otherwise the flag \<^verbatim>\<open>handled\<close>.\<close>

definition send_phase :: "('w, 's) ws_lib \<Rightarrow> ('w, 's) ws_mem \<Rightarrow> (bool option \<times> ('w, 's) ws_mem) res" where
  "send_phase L m = with_conn m (\<lambda>w c. bindE (proceed_send (sock_lib L) (bufs L) (wslay L) w c) (\<lambda>r.
     Inr (case r of
            GotoClose w1 c1 \<Rightarrow> (None, m\<lparr>the_conn := Some c1, the_ctx := Some w1\<rparr>)
          | Round handled w1 c1 \<Rightarrow> (Some handled, m\<lparr>the_conn := Some c1, the_ctx := Some w1\<rparr>))))"

definition recv_wanted :: "('w, 's) ws_lib \<Rightarrow> ('w, 's) ws_mem \<Rightarrow> bool res" where
  "recv_wanted L m = with_conn m (\<lambda>w c. bindE (get_sock c) (\<lambda>s.
     Inr (length (sock_input (sock_lib L) s) \<noteq> 0 \<and> want_read (wslay L) w)))"

definition data_callback :: "('w, 's) ws_lib \<Rightarrow> nat \<Rightarrow> ('w, 's) ws_mem \<Rightarrow> (byte list option \<times> ('w, 's) ws_mem) res" where
  "data_callback L len m = bindE (live (the_conn m)) (\<lambda>c.
     bindE (recv_callback (sock_lib L) len c) (\<lambda>(r, c1). Inr (r, m\<lparr>the_conn := Some c1\<rparr>)))"

subsection \<open>The calls\<close>

text \<open>
  \<^verbatim>\<open>h2o_websocket_proceed\<close>, its loop, \<^verbatim>\<open>wslay_event_recv\<close> and \<^verbatim>\<open>on_msg_callback\<close> with the virtual method, which
  call each other; \<open>exec L n\<close> runs a call whose chain of calls and rounds is shorter than \<open>n\<close>, and is
  \<open>None\<close> otherwise. The number of the result is the return code of \<^verbatim>\<open>wslay_event_recv\<close>, and for the loop
  whether it leaves for the label \<^verbatim>\<open>Close\<close>.
\<close>

datatype ws_call = Proceed | ProceedLoop | EventRecv | OnMessage byte "byte list"

fun exec :: "('w, 's) ws_lib \<Rightarrow> nat \<Rightarrow> ws_call \<Rightarrow> ('w, 's) ws_mem \<Rightarrow> (int \<times> ('w, 's) ws_mem) res option" where
  "exec L 0 call m = None"
| "exec L (Suc n) Proceed m =
     bindR (exec L n ProceedLoop m) (\<lambda>(goto_close, m1).
       Some (bindE (if goto_close \<noteq> 0 then close_phase L m1 else end_phase L m1) (\<lambda>m2. Inr (0, m2))))"
| "exec L (Suc n) ProceedLoop m =
     bindR (Some (send_phase L m)) (\<lambda>(handled, m1).
       case handled of
         None \<Rightarrow> Some (Inr (1, m1))
       | Some h \<Rightarrow> bindR (Some (recv_wanted L m1)) (\<lambda>wanted.
           if wanted
           then bindR (exec L n EventRecv m1) (\<lambda>(rc, m2).
                  if rc \<noteq> 0 then Some (Inr (1, m2)) else exec L n ProceedLoop m2)
           else if h then exec L n ProceedLoop m1 else Some (Inr (0, m1))))"
| "exec L (Suc n) EventRecv m =
     bindR (Some (live (the_ctx m))) (\<lambda>w.
       case recv_next L w of
         RecvReturn rc w' \<Rightarrow> Some (Inr (rc, m\<lparr>the_ctx := Some w'\<rparr>))
       | WantData len k \<Rightarrow> bindR (Some (data_callback L len m)) (\<lambda>(r, m1).
           exec L n EventRecv (m1\<lparr>the_ctx := Some (k r)\<rparr>))
       | Message opcode msg w' \<Rightarrow> bindR (exec L n (OnMessage opcode msg) (m\<lparr>the_ctx := Some w'\<rparr>)) (\<lambda>(_, m1).
           exec L n EventRecv m1))"
| "exec L (Suc n) (OnMessage opcode msg) m =
     bindR (Some (with_conn m (\<lambda>w c. bindE (live (the_app m)) (\<lambda>app. Inr (w, app))))) (\<lambda>(w, app).
       let m1 = m\<lparr>heard := heard m @ [(opcode, msg)]\<rparr>
       in case app of
            AppServerWebSocket \<Rightarrow> Some (Inr (0, m1))
          | AppServerEchoWebSocket \<Rightarrow>
              exec L n Proceed (m1\<lparr>the_ctx := Some (queue_msg (wslay L) opcode msg w),
                                   queued := queued m @ [(opcode, msg)]\<rparr>))"

text \<open>
  \<^verbatim>\<open>send_websocket_message\<close> and \<^verbatim>\<open>close_websocket\<close> called from outside. The context exists from the upgrade
  on, before \<^verbatim>\<open>on_websocket_complete\<close> sets the socket. \<^verbatim>\<open>close_websocket\<close> frees the connection and its
  context; the \<^verbatim>\<open>AppServerWebSocket\<close> stays.
\<close>

definition send_message :: "('w, 's) ws_lib \<Rightarrow> nat \<Rightarrow> byte \<Rightarrow> byte list \<Rightarrow> ('w, 's) ws_mem \<Rightarrow> (int \<times> ('w, 's) ws_mem) res option" where
  "send_message L n opcode msg m =
     bindR (Some (bindE (live (the_app m)) (\<lambda>_. with_conn m (\<lambda>w c. Inr w)))) (\<lambda>w.
       exec L n Proceed (m\<lparr>the_ctx := Some (queue_msg (wslay L) opcode msg w), queued := queued m @ [(opcode, msg)]\<rparr>))"

definition close_websocket :: "('w, 's) ws_lib \<Rightarrow> ('w, 's) ws_mem \<Rightarrow> ('w, 's) ws_mem res" where
  "close_websocket L m =
     bindE (live (the_app m)) (\<lambda>_. with_conn m (\<lambda>w c.
       case h2o_websocket_close (sock_lib L) c of
         Live w' c' \<Rightarrow> Inr (m\<lparr>the_conn := Some c', the_ctx := Some w'\<rparr>)
       | Closed so \<Rightarrow> Inr (m\<lparr>the_conn := None, the_ctx := None, end_sock := so\<rparr>)))"

subsection \<open>Memory that is in use\<close>

definition in_use :: "('w, 's) ws_lib \<Rightarrow> ('w, 's) ws_mem \<Rightarrow> bool" where
  "in_use L m \<longleftrightarrow> (\<exists>c. the_conn m = Some c \<and> conn_ok (sock_lib L) (bufs L) c) \<and> the_ctx m \<noteq> None \<and> the_app m \<noteq> None"

definition freed :: "('w, 's) ws_mem \<Rightarrow> bool" where
  "freed m \<longleftrightarrow> the_conn m = None \<and> the_ctx m = None \<and> the_app m = None \<and> end_sock m \<noteq> None"

lemma live_simps [simp]: "live (Some x) = Inr x" "live None = Inl BadPointer"
  by (simp_all add: live_def)

lemma bindR_simps [simp]:
  "bindR None f = None" "bindR (Some (Inl e)) f = Some (Inl e)" "bindR (Some (Inr x)) f = f x"
  by (simp_all add: bindR_def)

lemma in_useE:
  assumes "in_use L m"
  obtains c s w a where "the_conn m = Some c" "conn_ok (sock_lib L) (bufs L) c" "sock c = Some s"
    "the_ctx m = Some w" "the_app m = Some a"
  using assms by (auto simp: in_use_def conn_ok_def)

text \<open>What a call may change: the messages only grow, and by the same ones as long as the socket echoes.\<close>

definition grows :: "('w, 's) ws_mem \<Rightarrow> ('w, 's) ws_mem \<Rightarrow> bool" where
  "grows m m' \<longleftrightarrow> (\<exists>xs. heard m' = heard m @ xs \<and>
     queued m' = queued m @ (if the_app m = Some AppServerEchoWebSocket then xs else []))"

definition accepted :: "('w, 's) ws_lib \<Rightarrow> ('w, 's) ws_mem \<Rightarrow> byte list" where
  "accepted L m = (case the_conn m of None \<Rightarrow> [] | Some c \<Rightarrow> outgoing (sock_lib L) c)"

text \<open>\<open>kept L m m'\<close>: nothing was freed, and what was accepted for the peer keeps its place.\<close>

definition kept :: "('w, 's) ws_lib \<Rightarrow> ('w, 's) ws_mem \<Rightarrow> ('w, 's) ws_mem \<Rightarrow> bool" where
  "kept L m m' \<longleftrightarrow> in_use L m' \<and> the_app m' = the_app m \<and> grows m m' \<and> prefix (accepted L m) (accepted L m')"

lemma grows_trans: "grows a b \<Longrightarrow> grows b c \<Longrightarrow> the_app b = the_app a \<Longrightarrow> grows a c"
  by (auto simp: grows_def)

lemma kept_refl: "in_use L m \<Longrightarrow> kept L m m"
  by (simp add: kept_def grows_def)

lemma kept_trans: "kept L a b \<Longrightarrow> kept L b c \<Longrightarrow> kept L a c"
  unfolding kept_def using grows_trans prefix_order.trans by metis

lemma kept_use: "kept L m m' \<Longrightarrow> in_use L m'" "kept L m m' \<Longrightarrow> the_app m' = the_app m" "kept L m m' \<Longrightarrow> grows m m'"
  by (simp_all add: kept_def)

lemma kept_conn:
  assumes "in_use L m" "the_conn m = Some c" "carried (sock_lib L) (bufs L) c c'"
  shows "kept L m (m\<lparr>the_conn := Some c', the_ctx := Some w\<rparr>)" "kept L m (m\<lparr>the_conn := Some c'\<rparr>)"
  using assms by (auto simp: kept_def in_use_def carried_def grows_def accepted_def)

lemma kept_ctx: "in_use L m \<Longrightarrow> kept L m (m\<lparr>the_ctx := Some w\<rparr>)"
  by (auto simp: kept_def in_use_def grows_def accepted_def)

subsection \<open>The steps between two calls\<close>

text \<open>
  \<open>steady L I\<close>: \<open>I\<close> holds of the context throughout, and while it holds wslay does not fail and wants
  to read: the peer has not closed the stream and no error has occurred.
\<close>

definition steady :: "('w, 's) ws_lib \<Rightarrow> ('w \<Rightarrow> bool) \<Rightarrow> bool" where
  "steady L I \<longleftrightarrow> (\<forall>w. I w \<longrightarrow>
     want_read (wslay L) w \<and>
     (\<forall>c rc w' c'. event_send (wslay L) w c = Inr (rc, w', c') \<longrightarrow> rc = 0 \<and> I w') \<and>
     (\<forall>opcode msg. I (queue_msg (wslay L) opcode msg w)) \<and>
     (case recv_next L w of
        RecvReturn rc w' \<Rightarrow> rc = 0 \<and> I w'
      | WantData len k \<Rightarrow> \<forall>r. I (k r)
      | Message opcode msg w' \<Rightarrow> I w'))"

definition calm :: "('w \<Rightarrow> bool) \<Rightarrow> ('w, 's) ws_mem \<Rightarrow> bool" where
  "calm I m \<longleftrightarrow> (\<exists>w. the_ctx m = Some w \<and> I w)"

lemma steadyD:
  assumes "steady L I" "I w"
  shows "want_read (wslay L) w" "event_send (wslay L) w c = Inr (rc, w', c') \<Longrightarrow> rc = 0 \<and> I w'"
    "I (queue_msg (wslay L) opcode msg w)"
    "recv_next L w = RecvReturn rc w' \<Longrightarrow> rc = 0 \<and> I w'" "recv_next L w = WantData len k \<Longrightarrow> I (k r)"
    "recv_next L w = Message opcode msg w' \<Longrightarrow> I w'"
  using assms unfolding steady_def by (fastforce)+

lemma send_phase_ok:
  assumes W: "wslay_send_ok (sock_lib L) (bufs L) (wslay L)" and u: "in_use L m"
  shows "\<exists>h m'. send_phase L m = Inr (h, m') \<and> kept L m m' \<and> (steady L I \<longrightarrow> calm I m \<longrightarrow> calm I m' \<and> h \<noteq> None)"
proof -
  obtain c s w a where c: "the_conn m = Some c" "conn_ok (sock_lib L) (bufs L) c" "sock c = Some s"
    "the_ctx m = Some w" "the_app m = Some a" using u by (rule in_useE)
  let ?r = "proceed_send (sock_lib L) (bufs L) (wslay L) w c"
  have st: "h1 \<and> I w1" if "steady L I" "I w" "?r = Inr r" "r = GotoClose w1 c1 \<and> h1 = False \<or> r = Round h w1 c1 \<and> h1 = True" for h h1 w1 c1 r
    using that c(3) steadyD(2)[OF that(1,2)] by (fastforce simp: proceed_send_def split: if_splits)
  from proceed_send_ok[OF W c(2), of w] show ?thesis
  proof (elim disjE exE conjE)
    fix w1 c1
    assume r: "?r = Inr (GotoClose w1 c1)" and k: "carried (sock_lib L) (bufs L) c c1"
    show ?thesis using r kept_conn(1)[OF u c(1) k] st[OF _ _ r] c(1,4)
      by (auto simp: send_phase_def with_conn_def calm_def)
  next
    fix h w1 c1
    assume r: "?r = Inr (Round h w1 c1)" and k: "carried (sock_lib L) (bufs L) c c1"
    show ?thesis using r kept_conn(1)[OF u c(1) k] st[OF _ _ r] c(1,4)
      by (auto simp: send_phase_def with_conn_def calm_def)
  qed
qed

lemma recv_wanted_ok: "in_use L m \<Longrightarrow> \<exists>b. recv_wanted L m = Inr b"
  by (erule in_useE) (simp add: recv_wanted_def with_conn_def)

lemma data_callback_ok:
  assumes A: "sock_ok (sock_lib L)" and u: "in_use L m"
  shows "\<exists>r m'. data_callback L len m = Inr (r, m') \<and> the_ctx m' = the_ctx m \<and> kept L m m'"
proof -
  obtain c s w a where c: "the_conn m = Some c" "conn_ok (sock_lib L) (bufs L) c" "sock c = Some s"
    "the_ctx m = Some w" "the_app m = Some a" using u by (rule in_useE)
  obtain r s' c' where r: "recv_callback (sock_lib L) len c = Inr (r, c')" "sock c' = Some s'" "write_bufs c' = write_bufs c"
    "is_writing (sock_lib L) s' = is_writing (sock_lib L) s" "written (sock_lib L) s' = written (sock_lib L) s"
    using recv_callback_ok[OF A c(3), of len] by blast
  then have "carried (sock_lib L) (bufs L) c c'" using c(2,3) by (auto simp: carried_def conn_ok_def outgoing_def)
  from kept_conn(2)[OF u c(1) this] show ?thesis using r(1) c(1,4) by (simp add: data_callback_def)
qed

lemma close_phase_ok:
  assumes "in_use L m"
  shows "\<exists>m'. close_phase L m = Inr m' \<and> freed m' \<and> heard m' = heard m \<and> queued m' = queued m"
  using assms
  by (elim in_useE)
    (simp add: close_phase_def with_conn_def on_close_def on_websocket_message_def h2o_websocket_close_def store_def freed_def)

lemma end_phase_ok:
  assumes A: "sock_ok (sock_lib L)" and u: "in_use L m"
  shows "\<exists>m'. end_phase L m = Inr m' \<and>
    (kept L m m' \<and> the_ctx m' = the_ctx m \<or> freed m' \<and> heard m' = heard m \<and> queued m' = queued m) \<and>
    (steady L I \<longrightarrow> calm I m \<longrightarrow> kept L m m' \<and> the_ctx m' = the_ctx m)"
proof -
  obtain c s w a where c: "the_conn m = Some c" "conn_ok (sock_lib L) (bufs L) c" "sock c = Some s"
    "the_ctx m = Some w" "the_app m = Some a" using u by (rule in_useE)
  note A = sock_okD[OF A]
  have W: "want_read (wslay L) w" if "steady L I" "calm I m" using that c(4) by (auto simp: steady_def calm_def)
  show ?thesis using c W
    by (auto simp: end_phase_def with_conn_def proceed_end_def Let_def store_def on_close_def on_websocket_message_def
        h2o_websocket_close_def kept_def in_use_def conn_ok_def freed_def grows_def accepted_def outgoing_def A)
qed

subsection \<open>No access to freed memory\<close>

text \<open>
  A call on memory in use never goes wrong when the socket does not echo, or when wslay is steady.
  Without the echo only \<^verbatim>\<open>h2o_websocket_proceed\<close> itself may free the connection, as its last act.
\<close>

definition sound :: "('w, 's) ws_lib \<Rightarrow> ('w \<Rightarrow> bool) \<Rightarrow> ws_call \<Rightarrow> ('w, 's) ws_mem \<Rightarrow> (int \<times> ('w, 's) ws_mem) res \<Rightarrow> bool" where
  "sound L I call m r \<longleftrightarrow> (\<exists>rc m'. r = Inr (rc, m') \<and> grows m m' \<and>
     (kept L m m' \<or> call = Proceed \<and> the_app m = Some AppServerWebSocket \<and> freed m') \<and>
     (steady L I \<longrightarrow> calm I m \<longrightarrow> kept L m m' \<and> calm I m' \<and> rc = 0))"

definition fit :: "('w, 's) ws_lib \<Rightarrow> ('w \<Rightarrow> bool) \<Rightarrow> ('w, 's) ws_mem \<Rightarrow> bool" where
  "fit L I m \<longleftrightarrow> in_use L m \<and> (the_app m = Some AppServerWebSocket \<or> steady L I \<and> calm I m)"

lemma fit_kept:
  assumes "fit L I m" "kept L m m'" "steady L I \<longrightarrow> calm I m \<longrightarrow> calm I m'"
  shows "fit L I m'"
  using assms unfolding fit_def kept_def by auto

lemma sound_kept:
  assumes "kept L m m1" "sound L I call m1 r" "steady L I \<longrightarrow> calm I m \<longrightarrow> calm I m1" "call' = Proceed \<or> call \<noteq> Proceed"
  shows "sound L I call' m r"
proof -
  obtain rc m' where r: "r = Inr (rc, m')" "grows m1 m'"
    "kept L m1 m' \<or> call = Proceed \<and> the_app m1 = Some AppServerWebSocket \<and> freed m'"
    "steady L I \<longrightarrow> calm I m1 \<longrightarrow> kept L m1 m' \<and> calm I m' \<and> rc = 0" using assms(2) unfolding sound_def by blast
  note k = kept_use[OF assms(1)]
  have "grows m m'" by (rule grows_trans[OF k(3) r(2) k(2)])
  moreover have "kept L m m'" if "kept L m1 m'" by (rule kept_trans[OF assms(1) that])
  ultimately show ?thesis using r assms(3,4) k(2) unfolding sound_def by auto
qed

lemma soundI:
  assumes "kept L m m'" "steady L I \<longrightarrow> calm I m \<longrightarrow> calm I m' \<and> rc = 0"
  shows "sound L I call m (Inr (rc, m'))"
  using assms unfolding sound_def by (auto dest: kept_use(3))

text \<open>One lemma per call, with the claim for smaller depths as a hypothesis.\<close>

lemma sound_Proceed:
  assumes A: "sock_ok (sock_lib L)" and IH: "\<And>call m r. fit L I m \<Longrightarrow> exec L n call m = Some r \<Longrightarrow> sound L I call m r"
    and fit: "fit L I m" and r: "exec L (Suc n) Proceed m = Some r"
  shows "sound L I Proceed m r"
proof -
  have u: "in_use L m" using fit by (simp add: fit_def)
  obtain x where x: "exec L n ProceedLoop m = Some x" using r by (cases "exec L n ProceedLoop m") auto
  obtain gc m1 where s: "x = Inr (gc, m1)" "kept L m m1" "steady L I \<longrightarrow> calm I m \<longrightarrow> calm I m1 \<and> gc = 0"
    using IH[OF fit x] unfolding sound_def by auto
  note k = kept_use[OF s(2)]
  have f: "sound L I Proceed m (Inr (0, m2))" if "freed m2" "heard m2 = heard m1" "queued m2 = queued m1"
    "\<not> (steady L I \<and> calm I m)" for m2
    using that k fit unfolding sound_def fit_def grows_def by auto
  show ?thesis
  proof (cases "gc = 0")
    case False
    then have ns: "\<not> (steady L I \<and> calm I m)" using s(3) by auto
    obtain m2 where "close_phase L m1 = Inr m2" "freed m2" "heard m2 = heard m1" "queued m2 = queued m1"
      using close_phase_ok[OF k(1)] by blast
    then show ?thesis using r x s(1) False f[OF _ _ _ ns] by auto
  next
    case True
    obtain m2 where e: "end_phase L m1 = Inr m2"
      "kept L m1 m2 \<and> the_ctx m2 = the_ctx m1 \<or> freed m2 \<and> heard m2 = heard m1 \<and> queued m2 = queued m1"
      "steady L I \<longrightarrow> calm I m1 \<longrightarrow> kept L m1 m2 \<and> the_ctx m2 = the_ctx m1" using end_phase_ok[OF A k(1), of I] by blast
    have r': "r = Inr (0, m2)" using r x s(1) True e(1) by simp
    show ?thesis
    proof (cases "kept L m1 m2 \<and> the_ctx m2 = the_ctx m1")
      case True
      then have "sound L I Proceed m1 (Inr (0, m2))" by (intro soundI) (auto simp: calm_def)
      then show ?thesis unfolding r' by (rule sound_kept[OF s(2)]) (use s(3) in auto)
    next
      case False
      then show ?thesis using e(2,3) s(3) f[of m2] r' by auto
    qed
  qed
qed

lemma sound_ProceedLoop:
  assumes W: "wslay_send_ok (sock_lib L) (bufs L) (wslay L)" and IH: "\<And>call m r. fit L I m \<Longrightarrow> exec L n call m = Some r \<Longrightarrow> sound L I call m r"
    and fit: "fit L I m" and r: "exec L (Suc n) ProceedLoop m = Some r"
  shows "sound L I ProceedLoop m r"
proof -
  have u: "in_use L m" using fit by (simp add: fit_def)
  obtain h m1 where p: "send_phase L m = Inr (h, m1)" "kept L m m1"
    "steady L I \<longrightarrow> calm I m \<longrightarrow> calm I m1 \<and> h \<noteq> None" using send_phase_ok[OF W u, of I] by blast
  have fit1: "fit L I m1" by (rule fit_kept[OF fit p(2)]) (use p(3) in auto)
  have lift: "sound L I ProceedLoop m y" if "sound L I c m1 y" "c \<noteq> Proceed" for c y
    by (rule sound_kept[OF p(2) that(1)]) (use p(3) that(2) in auto)
  show ?thesis
  proof (cases h)
    case None
    then have "r = Inr (1, m1)" using r p(1) by simp
    then show ?thesis using p None by (auto intro!: soundI)
  next
    case (Some hd)
    obtain b where b: "recv_wanted L m1 = Inr b" using recv_wanted_ok kept_use(1)[OF p(2)] by blast
    show ?thesis
    proof (cases b)
      case True
      obtain x where x: "exec L n EventRecv m1 = Some x"
        using r p(1) Some b True by (cases "exec L n EventRecv m1") auto
      obtain rc m2 where s: "x = Inr (rc, m2)" "kept L m1 m2" "steady L I \<longrightarrow> calm I m1 \<longrightarrow> calm I m2 \<and> rc = 0"
        using IH[OF fit1 x] unfolding sound_def by auto
      have fit2: "fit L I m2" by (rule fit_kept[OF fit1 s(2)]) (use s(3) in auto)
      show ?thesis
      proof (cases "rc = 0")
        case True
        then have "exec L n ProceedLoop m2 = Some r" using r p(1) Some b \<open>b\<close> x s(1) by simp
        from IH[OF fit2 this] have "sound L I ProceedLoop m1 r" by (rule sound_kept[OF s(2)]) (use s(3) in auto)
        then show ?thesis by (rule lift) simp
      next
        case False
        then have "r = Inr (1, m2)" using r p(1) Some b \<open>b\<close> x s(1) by simp
        moreover have "sound L I ProceedLoop m1 (Inr (1, m2))" by (rule soundI[OF s(2)]) (use s(3) False in auto)
        ultimately show ?thesis by (auto intro!: lift)
      qed
    next
      case False
      show ?thesis
      proof (cases hd)
        case True
        then have "exec L n ProceedLoop m1 = Some r" using r p(1) Some b \<open>\<not> b\<close> by simp
        from IH[OF fit1 this] show ?thesis by (rule lift) simp
      next
        case hd: False
        then have "r = Inr (0, m1)" using r p(1) Some b \<open>\<not> b\<close> by simp
        then show ?thesis using p by (auto intro!: soundI)
      qed
    qed
  qed
qed

lemma sound_EventRecv:
  assumes A: "sock_ok (sock_lib L)" and IH: "\<And>call m r. fit L I m \<Longrightarrow> exec L n call m = Some r \<Longrightarrow> sound L I call m r"
    and fit: "fit L I m" and r: "exec L (Suc n) EventRecv m = Some r"
  shows "sound L I EventRecv m r"
proof -
  have u: "in_use L m" using fit by (simp add: fit_def)
  obtain w where w: "the_ctx m = Some w" using u by (auto simp: in_use_def)
  have calm: "I w" if "calm I m" using that w by (simp add: calm_def)
  show ?thesis
  proof (cases "recv_next L w")
    case (RecvReturn rc w')
    then have "r = Inr (rc, m\<lparr>the_ctx := Some w'\<rparr>)" using r w by simp
    then show ?thesis using kept_ctx[OF u, of w'] steadyD(4)[of L I, OF _ _ RecvReturn] calm
      by (auto intro!: soundI simp: calm_def)
  next
    case (WantData len k)
    obtain d m1 where d: "data_callback L len m = Inr (d, m1)" "the_ctx m1 = the_ctx m" "kept L m m1"
      using data_callback_ok[OF A u] by blast
    let ?m = "m1\<lparr>the_ctx := Some (k d)\<rparr>"
    have k1: "kept L m ?m" by (rule kept_trans[OF d(3) kept_ctx[OF kept_use(1)[OF d(3)]]])
    have c1: "steady L I \<longrightarrow> calm I m \<longrightarrow> calm I ?m" using steadyD(5)[of L I, OF _ _ WantData] calm by (auto simp: calm_def)
    have "exec L n EventRecv ?m = Some r" using r w WantData d(1) by simp
    from IH[OF fit_kept[OF fit k1 c1] this] show ?thesis by (rule sound_kept[OF k1 _ c1]) simp
  next
    case (Message opcode msg w')
    let ?m = "m\<lparr>the_ctx := Some w'\<rparr>"
    have k1: "kept L m ?m" by (rule kept_ctx[OF u])
    have c1: "steady L I \<longrightarrow> calm I m \<longrightarrow> calm I ?m" using steadyD(6)[of L I, OF _ _ Message] calm by (auto simp: calm_def)
    have fit1: "fit L I ?m" by (rule fit_kept[OF fit k1 c1])
    obtain x where x: "exec L n (OnMessage opcode msg) ?m = Some x"
      using r w Message by (cases "exec L n (OnMessage opcode msg) ?m") auto
    obtain rc m2 where s: "x = Inr (rc, m2)" "kept L ?m m2" "steady L I \<longrightarrow> calm I ?m \<longrightarrow> calm I m2"
      using IH[OF fit1 x] unfolding sound_def by auto
    have "exec L n EventRecv m2 = Some r" using r w Message x s(1) by simp
    from IH[OF fit_kept[OF fit1 s(2,3)] this] have "sound L I EventRecv ?m r" by (rule sound_kept[OF s(2) _ s(3)]) simp
    then show ?thesis by (rule sound_kept[OF k1 _ c1]) simp
  qed
qed

lemma sound_OnMessage:
  assumes IH: "\<And>call m r. fit L I m \<Longrightarrow> exec L n call m = Some r \<Longrightarrow> sound L I call m r"
    and fit: "fit L I m" and r: "exec L (Suc n) (OnMessage opcode msg) m = Some r"
  shows "sound L I (OnMessage opcode msg) m r"
proof -
  have u: "in_use L m" using fit by (simp add: fit_def)
  obtain c s w a where c: "the_conn m = Some c" "conn_ok (sock_lib L) (bufs L) c" "sock c = Some s"
    "the_ctx m = Some w" "the_app m = Some a" using u by (rule in_useE)
  let ?m1 = "m\<lparr>heard := heard m @ [(opcode, msg)]\<rparr>"
  show ?thesis
  proof (cases a)
    case AppServerWebSocket
    then have "r = Inr (0, ?m1)" using r c by (simp add: with_conn_def)
    moreover have "kept L m ?m1" using u c AppServerWebSocket by (auto simp: kept_def in_use_def grows_def accepted_def)
    ultimately show ?thesis by (auto intro!: soundI simp: calm_def)
  next
    case AppServerEchoWebSocket
    let ?m = "?m1\<lparr>the_ctx := Some (queue_msg (wslay L) opcode msg w), queued := queued m @ [(opcode, msg)]\<rparr>"
    have st: "steady L I" "calm I m" using fit c AppServerEchoWebSocket by (auto simp: fit_def)
    have k1: "kept L m ?m" using u c AppServerEchoWebSocket by (auto simp: kept_def in_use_def grows_def accepted_def)
    have c1: "calm I ?m" using steadyD(3)[OF st(1)] st(2) c by (auto simp: calm_def)
    have "exec L n Proceed ?m = Some r" using r c AppServerEchoWebSocket by (simp add: with_conn_def)
    from IH[OF fit_kept[OF fit k1] this] c1 have "sound L I Proceed ?m r" by blast
    then obtain rc m' where "r = Inr (rc, m')" "kept L ?m m'" "calm I m'" "rc = 0"
      using st(1) c1 unfolding sound_def by auto
    then show ?thesis using kept_trans[OF k1] by (auto intro!: soundI)
  qed
qed

lemma exec_sound:
  assumes A: "sock_ok (sock_lib L)" and W: "wslay_send_ok (sock_lib L) (bufs L) (wslay L)"
  shows "fit L I m \<Longrightarrow> exec L n call m = Some r \<Longrightarrow> sound L I call m r"
proof (induction n arbitrary: call m r)
  case (Suc n)
  then show ?case
    using sound_Proceed[OF A Suc.IH] sound_ProceedLoop[OF W Suc.IH] sound_EventRecv[OF A Suc.IH] sound_OnMessage[OF Suc.IH]
    by (cases call) blast+
qed simp

subsection \<open>The calls return\<close>

text \<open>
  \<open>paced\<close>: how wslay uses up its work. \<open>\<mu>\<close> counts what its context still has to do: sending and handing
  over a message do some of it, queueing the same message back does not make up for that, and one
  byte of input is worth \<open>K\<close>. Once it has been told that there is no data, it is \<open>drained\<close> and does not
  ask again before \<^verbatim>\<open>wslay_event_recv\<close> returns; before that it returns only if it stops reading.
\<close>

definition paced :: "('w, 's) ws_lib \<Rightarrow> ('w \<Rightarrow> nat) \<Rightarrow> ('w \<Rightarrow> bool) \<Rightarrow> nat \<Rightarrow> bool" where
  "paced L \<mu> drained K \<longleftrightarrow> (\<forall>w.
     (\<forall>c s w' c'. sock c = Some s \<longrightarrow> \<not> is_writing (sock_lib L) s \<longrightarrow> want_write (wslay L) w \<longrightarrow>
        event_send (wslay L) w c = Inr (0, w', c') \<longrightarrow>
        \<mu> w' \<le> \<mu> w \<and> (drained w' \<longrightarrow> drained w) \<and> (length (write_bufs c') < bufs L \<longrightarrow> \<mu> w' < \<mu> w)) \<and>
     (case recv_next L w of
        RecvReturn rc w' \<Rightarrow> rc = 0 \<longrightarrow> \<mu> w' \<le> \<mu> w \<and> (drained w' \<longrightarrow> drained w) \<and> (drained w \<or> \<not> want_read (wslay L) w')
      | WantData len k \<Rightarrow> 0 < len \<and> \<not> drained w \<and> \<mu> (k None) \<le> \<mu> w \<and> drained (k None) \<and>
          (\<forall>d. d \<noteq> [] \<longrightarrow> \<mu> (k (Some d)) < \<mu> w + K * length d \<and> \<not> drained (k (Some d)))
      | Message opcode msg w' \<Rightarrow> \<mu> w' < \<mu> w \<and> \<mu> (queue_msg (wslay L) opcode msg w') < \<mu> w \<and>
          (drained w' \<longrightarrow> drained w) \<and> (drained (queue_msg (wslay L) opcode msg w') \<longrightarrow> drained w)))"

lemma pacedD:
  assumes "paced L \<mu> drained K"
  shows "sock c = Some s \<Longrightarrow> \<not> is_writing (sock_lib L) s \<Longrightarrow> want_write (wslay L) w \<Longrightarrow>
      event_send (wslay L) w c = Inr (0, w', c') \<Longrightarrow>
      \<mu> w' \<le> \<mu> w \<and> (drained w' \<longrightarrow> drained w) \<and> (length (write_bufs c') < bufs L \<longrightarrow> \<mu> w' < \<mu> w)"
    "recv_next L w = RecvReturn 0 w' \<Longrightarrow>
      \<mu> w' \<le> \<mu> w \<and> (drained w' \<longrightarrow> drained w) \<and> (drained w \<or> \<not> want_read (wslay L) w')"
    "recv_next L w = WantData len k \<Longrightarrow> 0 < len \<and> \<not> drained w \<and> \<mu> (k None) \<le> \<mu> w \<and> drained (k None)"
    "recv_next L w = WantData len k \<Longrightarrow> d \<noteq> [] \<Longrightarrow> \<mu> (k (Some d)) < \<mu> w + K * length d \<and> \<not> drained (k (Some d))"
    "recv_next L w = Message opcode msg w' \<Longrightarrow> \<mu> w' < \<mu> w \<and> \<mu> (queue_msg (wslay L) opcode msg w') < \<mu> w \<and>
      (drained w' \<longrightarrow> drained w) \<and> (drained (queue_msg (wslay L) opcode msg w') \<longrightarrow> drained w)"
proof -
  note p = assms [unfolded paced_def, rule_format, of w]
  show "sock c = Some s \<Longrightarrow> \<not> is_writing (sock_lib L) s \<Longrightarrow> want_write (wslay L) w \<Longrightarrow>
      event_send (wslay L) w c = Inr (0, w', c') \<Longrightarrow>
      \<mu> w' \<le> \<mu> w \<and> (drained w' \<longrightarrow> drained w) \<and> (length (write_bufs c') < bufs L \<longrightarrow> \<mu> w' < \<mu> w)"
    using p by blast
qed (use assms [unfolded paced_def, rule_format, of w] in simp_all)

definition input_of :: "('w, 's) ws_lib \<Rightarrow> ('w, 's) ws_mem \<Rightarrow> byte list" where
  "input_of L m = (case the_conn m of None \<Rightarrow> [] | Some c \<Rightarrow> (case sock c of None \<Rightarrow> [] | Some s \<Rightarrow> sock_input (sock_lib L) s))"

definition work :: "('w, 's) ws_lib \<Rightarrow> ('w \<Rightarrow> nat) \<Rightarrow> nat \<Rightarrow> ('w, 's) ws_mem \<Rightarrow> nat" where
  "work L \<mu> K m = K * length (input_of L m) + (case the_ctx m of None \<Rightarrow> 0 | Some w \<Rightarrow> \<mu> w)"

definition dry :: "('w \<Rightarrow> bool) \<Rightarrow> ('w, 's) ws_mem \<Rightarrow> bool" where
  "dry drained m \<longleftrightarrow> (\<exists>w. the_ctx m = Some w \<and> drained w)"

definition eager :: "('w, 's) ws_lib \<Rightarrow> ('w, 's) ws_mem \<Rightarrow> bool" where
  "eager L m \<longleftrightarrow> input_of L m \<noteq> [] \<and> (\<exists>w. the_ctx m = Some w \<and> want_read (wslay L) w)"

text \<open>\<open>m'\<close> comes after \<open>m\<close>: there is not more to do.\<close>

definition later :: "('w, 's) ws_lib \<Rightarrow> ('w \<Rightarrow> nat) \<Rightarrow> ('w \<Rightarrow> bool) \<Rightarrow> nat \<Rightarrow> ('w, 's) ws_mem \<Rightarrow> ('w, 's) ws_mem \<Rightarrow> bool" where
  "later L \<mu> drained K m m' \<longleftrightarrow> work L \<mu> K m' \<le> work L \<mu> K m \<and> (dry drained m' \<longrightarrow> input_of L m' = [])"

lemma send_phase_work:
  assumes W: "wslay_send_ok (sock_lib L) (bufs L) (wslay L)" and P: "paced L \<mu> drained K" and u: "in_use L m"
    and s: "send_phase L m = Inr (Some h, m1)" and d: "dry drained m \<longrightarrow> input_of L m = []"
  shows "later L \<mu> drained K m m1" "h \<Longrightarrow> work L \<mu> K m1 < work L \<mu> K m" "eager L m1 \<Longrightarrow> eager L m"
proof -
  obtain c s w a where c: "the_conn m = Some c" "conn_ok (sock_lib L) (bufs L) c" "sock c = Some s"
    "the_ctx m = Some w" "the_app m = Some a" using u by (rule in_useE)
  have "\<exists>w1 c1. m1 = m\<lparr>the_conn := Some c1, the_ctx := Some w1\<rparr> \<and> sock c1 = Some s \<and> \<mu> w1 \<le> \<mu> w \<and>
    (drained w1 \<longrightarrow> drained w) \<and> (h \<longrightarrow> \<mu> w1 < \<mu> w) \<and> (want_read (wslay L) w1 \<longrightarrow> want_read (wslay L) w)"
  proof (cases "\<not> is_writing (sock_lib L) s \<and> want_write (wslay L) w")
    case True
    obtain rc w1 ds c1 where e: "send_all (sock_lib L) (bufs L) ds c = Inr c1" "event_send (wslay L) w c = Inr (rc, w1, c1)"
      "rc = 0 \<longrightarrow> (want_read (wslay L) w1 \<longrightarrow> want_read (wslay L) w)"
      using W c(3) unfolding wslay_send_ok_def by (metis option.distinct(1))
    then have "rc = 0" "h \<longleftrightarrow> length (write_bufs c1) < bufs L" "m1 = m\<lparr>the_conn := Some c1, the_ctx := Some w1\<rparr>"
      using s c True by (auto simp: send_phase_def with_conn_def proceed_send_def split: if_splits)
    moreover have "sock c1 = Some s" using send_all_ok[OF c(2) e(1)] c(3) by simp
    ultimately show ?thesis using pacedD(1)[OF P c(3), of w w1 c1] True e by auto
  next
    case False
    then have "m1 = m\<lparr>the_conn := Some c, the_ctx := Some w\<rparr> \<and> \<not> h"
      using s c by (auto simp: send_phase_def with_conn_def proceed_send_def)
    then show ?thesis using c(3) by blast
  qed
  then obtain w1 c1 where m1: "m1 = m\<lparr>the_conn := Some c1, the_ctx := Some w1\<rparr>" "sock c1 = Some s" "\<mu> w1 \<le> \<mu> w"
    "drained w1 \<longrightarrow> drained w" "h \<longrightarrow> \<mu> w1 < \<mu> w" "want_read (wslay L) w1 \<longrightarrow> want_read (wslay L) w" by blast
  have i: "input_of L m1 = input_of L m" using m1 c by (simp add: input_of_def)
  have x: "the_ctx m1 = Some w1" using m1 by simp
  show "later L \<mu> drained K m m1" using m1(3,4) c(4) d x by (auto simp: later_def work_def dry_def i)
  show "h \<Longrightarrow> work L \<mu> K m1 < work L \<mu> K m" using m1(5) c(4) x by (simp add: work_def i)
  show "eager L m1 \<Longrightarrow> eager L m" using m1(6) c(4) x by (simp add: eager_def i)
qed

lemma data_callback_work:
  assumes A: "sock_ok (sock_lib L)" and P: "paced L \<mu> drained K" and u: "in_use L m"
    and n: "recv_next L w = WantData len k" "the_ctx m = Some w" and d: "data_callback L len m = Inr (r, m1)"
  defines "m2 \<equiv> m1\<lparr>the_ctx := Some (k r)\<rparr>"
  shows "work L \<mu> K m2 < work L \<mu> K m \<or> work L \<mu> K m2 \<le> work L \<mu> K m \<and> dry drained m2 \<and> \<not> dry drained m"
    "dry drained m2 \<longrightarrow> input_of L m2 = []"
proof -
  obtain c s a where c: "the_conn m = Some c" "sock c = Some s" using u by (rule in_useE) blast
  obtain r' s' c' where k: "recv_callback (sock_lib L) len c = Inr (r', c')" "sock c' = Some s'"
    "sock_input (sock_lib L) s = (case r' of None \<Rightarrow> [] | Some d \<Rightarrow> d) @ sock_input (sock_lib L) s'"
    "r' = None \<longleftrightarrow> sock_input (sock_lib L) s = []" "\<forall>d. r' = Some d \<longrightarrow> length d = min len (length (sock_input (sock_lib L) s))"
    using recv_callback_ok[OF A c(2), of len] by blast
  have m1: "m1 = m\<lparr>the_conn := Some c'\<rparr>" "r' = r" using d k(1) c by (auto simp: data_callback_def)
  have i: "input_of L m = sock_input (sock_lib L) s" "input_of L m2 = sock_input (sock_lib L) s'"
    using c k(2) m1 by (simp_all add: input_of_def m2_def)
  note p = pacedD(3)[OF P n(1)]
  show "work L \<mu> K m2 < work L \<mu> K m \<or> work L \<mu> K m2 \<le> work L \<mu> K m \<and> dry drained m2 \<and> \<not> dry drained m"
  proof (cases r)
    case None
    then show ?thesis using p n(2) i k(3) m1 by (auto simp: work_def dry_def m2_def)
  next
    case (Some b)
    then have b: "b \<noteq> []" using k(4,5) m1(2) p by (auto simp: min_def split: if_splits)
    have "length (input_of L m) = length b + length (input_of L m2)" using k(3) Some m1(2) i by simp
    then have "K * length (input_of L m) = K * length b + K * length (input_of L m2)" by (simp add: add_mult_distrib2)
    then show ?thesis using pacedD(4)[OF P n(1) b] n(2) Some by (simp add: work_def m2_def)
  qed
  show "dry drained m2 \<longrightarrow> input_of L m2 = []"
  proof (cases r)
    case None
    then show ?thesis using k(3,4) i m1(2) by simp
  next
    case (Some b)
    then have "b \<noteq> []" using k(4,5) m1(2) p by (auto simp: min_def split: if_splits)
    then show ?thesis using pacedD(4)[OF P n(1)] Some by (simp add: dry_def m2_def)
  qed
qed

lemma bindR_Some:
  "bindR x f = Some r \<longleftrightarrow> (\<exists>e. x = Some (Inl e) \<and> r = Inl e) \<or> (\<exists>a. x = Some (Inr a) \<and> f a = Some r)"
  by (cases x) (auto simp: bindR_def split: sum.splits)

text \<open>More depth does not change the result.\<close>

definition below :: "'a option \<Rightarrow> 'a option \<Rightarrow> bool" where
  "below x y \<longleftrightarrow> (\<forall>r. x = Some r \<longrightarrow> y = Some r)"

lemma below_intros:
  "below None x" "below x x"
  "below x x' \<Longrightarrow> (\<And>a. below (f a) (g a)) \<Longrightarrow> below (bindR x f) (bindR x' g)"
  "(\<And>a b. below (f2 a b) (g2 a b)) \<Longrightarrow> below (case p of (a, b) \<Rightarrow> f2 a b) (case p of (a, b) \<Rightarrow> g2 a b)"
  "below u u' \<Longrightarrow> (\<And>a. below (f a) (g a)) \<Longrightarrow> below (case y of None \<Rightarrow> u | Some a \<Rightarrow> f a) (case y of None \<Rightarrow> u' | Some a \<Rightarrow> g a)"
  "below u u' \<Longrightarrow> below v v' \<Longrightarrow> below (if b then u else v) (if b then u' else v')"
  "below u u' \<Longrightarrow> below v v' \<Longrightarrow>
   below (case k of AppServerWebSocket \<Rightarrow> u | AppServerEchoWebSocket \<Rightarrow> v)
     (case k of AppServerWebSocket \<Rightarrow> u' | AppServerEchoWebSocket \<Rightarrow> v')"
  "(\<And>rc w. below (fr rc w) (gr rc w)) \<Longrightarrow> (\<And>len c. below (fd len c) (gd len c)) \<Longrightarrow>
   (\<And>opcode msg w. below (fm opcode msg w) (gm opcode msg w)) \<Longrightarrow>
   below (case_recv_action fr fd fm act) (case_recv_action gr gd gm act)"
proof -
  assume "below x x'" "\<And>a. below (f a) (g a)"
  then show "below (bindR x f) (bindR x' g)"
    by (cases x) (auto simp: below_def bindR_def split: sum.splits)
qed (cases p; auto simp: below_def split: option.splits app_class.splits recv_action.splits)+

lemma exec_Suc: "below (exec L n call m) (exec L (Suc n) call m)"
proof (induction n arbitrary: call m)
  case (Suc n)
  define E E' where "E = exec L n" and "E' = exec L (Suc n)"
  have IH: "below (E call m) (E' call m)" for call m using Suc.IH by (simp add: E_def E'_def)
  show ?case
    by (cases call)
      (simp only: exec.simps(2-5)[of L n, folded E_def] exec.simps(2-5)[of L "Suc n", folded E'_def] Let_def, intro below_intros IH)+
qed (simp add: below_intros)

lemma exec_mono:
  assumes "exec L n call m = Some r" "n \<le> n'"
  shows "exec L n' call m = Some r"
  using assms(2) by (induction rule: dec_induct) (use assms(1) exec_Suc in \<open>unfold below_def, blast+\<close>)

text \<open>A call ends, and what is left is not more than before.\<close>

definition ends :: "('w, 's) ws_lib \<Rightarrow> ('w \<Rightarrow> nat) \<Rightarrow> ('w \<Rightarrow> bool) \<Rightarrow> nat \<Rightarrow> ws_call \<Rightarrow> ('w, 's) ws_mem \<Rightarrow> bool" where
  "ends L \<mu> drained K call m \<longleftrightarrow> (\<exists>n rc m'. exec L n call m = Some (Inr (rc, m')) \<and>
     (in_use L m' \<longrightarrow> rc = 0 \<longrightarrow> later L \<mu> drained K m m') \<and> (call = EventRecv \<longrightarrow> rc = 0 \<longrightarrow> \<not> eager L m'))"

lemma endsI:
  assumes "exec L n call m = Some (Inr (rc, m'))" "in_use L m' \<Longrightarrow> rc = 0 \<Longrightarrow> later L \<mu> drained K m m'"
    "call = EventRecv \<Longrightarrow> rc = 0 \<Longrightarrow> \<not> eager L m'"
  shows "ends L \<mu> drained K call m"
  using assms unfolding ends_def by blast

text \<open>A nested or following call decreases this.\<close>

definition rank_of :: "('w, 's) ws_lib \<Rightarrow> ('w \<Rightarrow> nat) \<Rightarrow> ('w \<Rightarrow> bool) \<Rightarrow> nat \<Rightarrow> ws_call \<Rightarrow> ('w, 's) ws_mem \<Rightarrow> nat" where
  "rank_of L \<mu> drained K call m = 5 * work L \<mu> K m +
     (case call of EventRecv \<Rightarrow> if dry drained m then 0 else 1 | ProceedLoop \<Rightarrow> if eager L m then 3 else 2 | _ \<Rightarrow> 4)"

lemma later_trans: "later L \<mu> drained K a b \<Longrightarrow> later L \<mu> drained K b c \<Longrightarrow> later L \<mu> drained K a c"
  by (auto simp: later_def)

lemma sound_result:
  assumes "sound L I call m (Inr (rc, m'))" "call \<noteq> Proceed" "fit L I m"
  shows "kept L m m'" "fit L I m'"
proof -
  show "kept L m m'" using assms(1,2) by (auto simp: sound_def)
  from fit_kept[OF assms(3) this] show "fit L I m'" using assms(1) by (auto simp: sound_def)
qed

lemma recv_wanted_eq: "in_use L m \<Longrightarrow> recv_wanted L m = Inr (eager L m)"
  by (erule in_useE) (simp add: recv_wanted_def with_conn_def eager_def input_of_def)

lemma end_phase_input:
  assumes A: "sock_ok (sock_lib L)" and u: "in_use L m" and e: "end_phase L m = Inr m'" and u': "in_use L m'"
  shows "input_of L m' = input_of L m"
proof -
  obtain c s w a where c: "the_conn m = Some c" "conn_ok (sock_lib L) (bufs L) c" "sock c = Some s"
    "the_ctx m = Some w" "the_app m = Some a" using u by (rule in_useE)
  obtain out where o: "proceed_end (sock_lib L) (wslay L) w c = Inr out" "store out m = Inr m'"
    using e c by (cases "proceed_end (sock_lib L) (wslay L) w c") (simp_all add: end_phase_def with_conn_def)
  obtain w1 c1 where l: "out = Live w1 c1"
    using o(2) u' c by (cases out) (auto simp: store_def in_use_def)
  have "map_option (sock_input (sock_lib L)) (sock c1) = Some (sock_input (sock_lib L) s)"
    using o(1) l c(3) sock_okD(11-13)[OF A]
    by (auto simp: proceed_end_def Let_def on_close_def on_websocket_message_def h2o_websocket_close_def split: if_splits)
  then show ?thesis using o(2) l c by (auto simp: store_def input_of_def)
qed

lemma ends_Proceed:
  assumes A: "sock_ok (sock_lib L)" and W: "wslay_send_ok (sock_lib L) (bufs L) (wslay L)" and fit: "fit L I m"
    and P: "ends L \<mu> drained K ProceedLoop m"
  shows "ends L \<mu> drained K Proceed m"
proof -
  obtain n gc m1 where x: "exec L n ProceedLoop m = Some (Inr (gc, m1))" "in_use L m1 \<longrightarrow> gc = 0 \<longrightarrow> later L \<mu> drained K m m1"
    using P unfolding ends_def by blast
  note s = sound_result[OF exec_sound[OF A W fit x(1)] _ fit, simplified]
  have u: "in_use L m1" using s(1) by (simp add: kept_def)
  show ?thesis
  proof (cases "gc = 0")
    case False
    obtain m2 where c: "close_phase L m1 = Inr m2" "freed m2" using close_phase_ok[OF u] by blast
    show ?thesis by (rule endsI[of L "Suc n" _ _ 0 m2]) (use c False x(1) in \<open>simp_all add: freed_def in_use_def\<close>)
  next
    case True
    obtain c s w a where c: "the_conn m1 = Some c" "conn_ok (sock_lib L) (bufs L) c" "sock c = Some s"
      "the_ctx m1 = Some w" "the_app m1 = Some a" using u by (rule in_useE)
    obtain m2 where e: "end_phase L m1 = Inr m2"
      "kept L m1 m2 \<and> the_ctx m2 = the_ctx m1 \<or> freed m2" using end_phase_ok[OF A u] by blast
    have i: "input_of L m2 = input_of L m1" if "\<not> freed m2"
      using end_phase_input[OF A u e(1)] that e(2) by (auto simp: kept_def)
    have l: "later L \<mu> drained K m1 m2" if "in_use L m2"
    proof -
      have "\<not> freed m2" using that by (auto simp: freed_def in_use_def)
      then have i: "input_of L m2 = input_of L m1" "the_ctx m2 = the_ctx m1" using i e(2) by blast+
      have "later L \<mu> drained K m m1" using x(2) u True by blast
      then show ?thesis by (simp add: later_def work_def dry_def i)
    qed
    have "exec L (Suc n) Proceed m = Some (Inr (0, m2))" using e(1) True x(1) by simp
    then show ?thesis by (rule endsI) (use l x(2) u True later_trans[of L \<mu> drained K m m1 m2] in simp_all)
  qed
qed

lemma ends_ProceedLoop:
  assumes A: "sock_ok (sock_lib L)" and W: "wslay_send_ok (sock_lib L) (bufs L) (wslay L)"
    and P: "paced L \<mu> drained K" and fit: "fit L I m" and dry: "dry drained m \<longrightarrow> input_of L m = []"
    and IH: "\<And>call m'. fit L I m' \<Longrightarrow> dry drained m' \<longrightarrow> input_of L m' = [] \<Longrightarrow> call = ProceedLoop \<or> call = EventRecv \<Longrightarrow>
      rank_of L \<mu> drained K call m' < rank_of L \<mu> drained K ProceedLoop m \<Longrightarrow> ends L \<mu> drained K call m'"
  shows "ends L \<mu> drained K ProceedLoop m"
proof -
  have u: "in_use L m" using fit by (simp add: fit_def)
  obtain h m1 where p: "send_phase L m = Inr (h, m1)" "kept L m m1"
    "steady L I \<longrightarrow> calm I m \<longrightarrow> calm I m1 \<and> h \<noteq> None" using send_phase_ok[OF W u, of I] by blast
  have fit1: "fit L I m1" and u1: "in_use L m1" using fit_kept[OF fit p(2)] p(2,3) by (auto simp: kept_def)
  have lift: "ends L \<mu> drained K ProceedLoop m" if "exec L n ProceedLoop m1' = Some (Inr (rc, m'))"
      "exec L (Suc n') ProceedLoop m = exec L n' ProceedLoop m1'" "n \<le> n'" "later L \<mu> drained K m m1'"
      "in_use L m' \<longrightarrow> rc = 0 \<longrightarrow> later L \<mu> drained K m1' m'" for n n' m1' rc m'
    using exec_mono[OF that(1,3)] that(2,5) later_trans[OF that(4), of m'] by (intro endsI[of L "Suc n'" _ _ rc m']) auto
  show ?thesis
  proof (cases h)
    case None
    have "exec L (Suc 0) ProceedLoop m = Some (Inr (1, m1))" using p(1) None by simp
    then show ?thesis by (rule endsI) simp_all
  next
    case (Some hd)
    note w = send_phase_work[OF W P u p(1)[unfolded Some] dry]
    note b = recv_wanted_eq[OF u1]
    have dry1: "dry drained m1 \<longrightarrow> input_of L m1 = []" using w(1) by (simp add: later_def)
    have le: "work L \<mu> K m1 \<le> work L \<mu> K m" using w(1) by (simp add: later_def)
    show ?thesis
    proof (cases "eager L m1")
      case False
      have e: "exec L (Suc n) ProceedLoop m = (if hd then exec L n ProceedLoop m1 else Some (Inr (0, m1)))" for n
        using p(1) Some b False by simp
      show ?thesis
      proof (cases hd)
        case True
        have "ends L \<mu> drained K ProceedLoop m1"
          using w(2)[OF True] False by (intro IH[OF fit1 dry1]) (simp_all add: rank_of_def)
        then obtain n rc m' where "exec L n ProceedLoop m1 = Some (Inr (rc, m'))" "in_use L m' \<longrightarrow> rc = 0 \<longrightarrow> later L \<mu> drained K m1 m'"
          unfolding ends_def by blast
        then show ?thesis using e[of n] True by (intro lift[OF _ _ _ w(1)]) auto
      next
        case False
        have "exec L (Suc 0) ProceedLoop m = Some (Inr (0, m1))" using e False by simp
        then show ?thesis by (rule endsI) (use w(1) in simp_all)
      qed
    next
      case True
      then have eager: "eager L m" by (rule w(3))
      have "ends L \<mu> drained K EventRecv m1"
        using le eager by (intro IH[OF fit1 dry1]) (simp_all add: rank_of_def)
      then obtain n rc m2 where r: "exec L n EventRecv m1 = Some (Inr (rc, m2))" "in_use L m2 \<longrightarrow> rc = 0 \<longrightarrow> later L \<mu> drained K m1 m2"
        "rc = 0 \<longrightarrow> \<not> eager L m2" unfolding ends_def by blast
      note s = sound_result[OF exec_sound[OF A W fit1 r(1)] _ fit1, simplified]
      have l: "later L \<mu> drained K m1 m2" if "rc = 0" using r(2) s(1) that by (simp add: kept_def)
      have l2: "later L \<mu> drained K m m2" if "rc = 0" by (rule later_trans[OF w(1) l[OF that]])
      show ?thesis
      proof (cases "rc = 0")
        case False
        have "exec L (Suc n) ProceedLoop m = Some (Inr (1, m2))" using p(1) Some b True r(1) False by simp
        then show ?thesis by (rule endsI) simp_all
      next
        case rc: True
        have "ends L \<mu> drained K ProceedLoop m2"
          using l[OF rc] l2[OF rc] r(3) rc eager s(2) by (intro IH) (simp_all add: rank_of_def later_def)
        then obtain n' rc' m' where r': "exec L n' ProceedLoop m2 = Some (Inr (rc', m'))" "in_use L m' \<longrightarrow> rc' = 0 \<longrightarrow> later L \<mu> drained K m2 m'"
          unfolding ends_def by blast
        have "exec L (Suc (max n n')) ProceedLoop m = exec L (max n n') ProceedLoop m2"
          using p(1) Some b True exec_mono[OF r(1), of "max n n'"] rc by simp
        then show ?thesis using r' by (intro lift[OF r'(1) _ _ l2[OF rc]]) auto
      qed
    qed
  qed
qed

lemma input_of_simps [simp]:
  "input_of L (m\<lparr>the_ctx := w\<rparr>) = input_of L m" "input_of L (m\<lparr>heard := hs\<rparr>) = input_of L m"
  "input_of L (m\<lparr>queued := qs\<rparr>) = input_of L m"
  by (simp_all add: input_of_def)

lemma ends_lift:
  assumes "exec L n EventRecv m1 = Some (Inr (rc, m'))" "exec L (Suc n) EventRecv m = exec L n EventRecv m1"
    "later L \<mu> drained K m m1" "in_use L m' \<longrightarrow> rc = 0 \<longrightarrow> later L \<mu> drained K m1 m'" "rc = 0 \<longrightarrow> \<not> eager L m'"
  shows "ends L \<mu> drained K EventRecv m"
  by (rule endsI[of L "Suc n" _ _ rc m']) (use assms later_trans[OF assms(3), of m'] in auto)

lemma ends_EventRecv:
  assumes A: "sock_ok (sock_lib L)" and W: "wslay_send_ok (sock_lib L) (bufs L) (wslay L)"
    and P: "paced L \<mu> drained K" and fit: "fit L I m" and dry: "dry drained m \<longrightarrow> input_of L m = []"
    and IH: "\<And>call m'. fit L I m' \<Longrightarrow> dry drained m' \<longrightarrow> input_of L m' = [] \<Longrightarrow> call = Proceed \<or> call = EventRecv \<Longrightarrow>
      rank_of L \<mu> drained K call m' < rank_of L \<mu> drained K EventRecv m \<Longrightarrow> ends L \<mu> drained K call m'"
  shows "ends L \<mu> drained K EventRecv m"
proof -
  have u: "in_use L m" using fit by (simp add: fit_def)
  obtain c s w a where c: "the_conn m = Some c" "conn_ok (sock_lib L) (bufs L) c" "sock c = Some s"
    "the_ctx m = Some w" "the_app m = Some a" using u by (rule in_useE)
  have calm: "I w" if "calm I m" using that c by (simp add: calm_def)
  have go: "ends L \<mu> drained K EventRecv m" if e: "\<And>n. k \<le> n \<Longrightarrow> exec L (Suc n) EventRecv m = exec L n EventRecv m1"
    and f1: "fit L I m1" and l: "later L \<mu> drained K m m1"
    and rank: "rank_of L \<mu> drained K EventRecv m1 < rank_of L \<mu> drained K EventRecv m" for k m1
  proof -
    have "ends L \<mu> drained K EventRecv m1" using l by (intro IH f1 rank) (simp_all add: later_def)
    then obtain n rc m' where r: "exec L n EventRecv m1 = Some (Inr (rc, m'))"
      "in_use L m' \<longrightarrow> rc = 0 \<longrightarrow> later L \<mu> drained K m1 m'" "rc = 0 \<longrightarrow> \<not> eager L m'" unfolding ends_def by blast
    show ?thesis by (rule ends_lift[OF exec_mono[OF r(1), of "max k n"] e l r(2,3)]) simp_all
  qed
  show ?thesis
  proof (cases "recv_next L w")
    case (RecvReturn rc w')
    have e: "exec L (Suc 0) EventRecv m = Some (Inr (rc, m\<lparr>the_ctx := Some w'\<rparr>))" using RecvReturn c by simp
    show ?thesis
      by (rule endsI[OF e]) (use pacedD(2)[OF P, of w w'] RecvReturn c dry in \<open>auto simp: later_def work_def dry_def eager_def\<close>)
  next
    case (WantData len k)
    obtain d m1 where d: "data_callback L len m = Inr (d, m1)" "the_ctx m1 = the_ctx m" "kept L m m1"
      using data_callback_ok[OF A u] by blast
    let ?m = "m1\<lparr>the_ctx := Some (k d)\<rparr>"
    note w = data_callback_work[OF A P u WantData c(4) d(1)]
    have k1: "kept L m ?m" by (rule kept_trans[OF d(3) kept_ctx[OF kept_use(1)[OF d(3)]]])
    have "steady L I \<longrightarrow> calm I m \<longrightarrow> calm I ?m" using steadyD(5)[of L I, OF _ _ WantData] calm by (auto simp: calm_def)
    then have f1: "fit L I ?m" by (rule fit_kept[OF fit k1])
    show ?thesis
      by (rule go[OF _ f1]) (use w WantData c d(1) in \<open>auto simp: rank_of_def later_def\<close>)
  next
    case (Message opcode msg w')
    let ?m = "m\<lparr>the_ctx := Some w'\<rparr>"
    let ?h = "m\<lparr>the_ctx := Some w', heard := heard m @ [(opcode, msg)]\<rparr>"
    have k1: "kept L m ?m" by (rule kept_ctx[OF u])
    have c1: "steady L I \<longrightarrow> calm I m \<longrightarrow> calm I ?m" using steadyD(6)[of L I, OF _ _ Message] calm by (auto simp: calm_def)
    have f1: "fit L I ?m" by (rule fit_kept[OF fit k1 c1])
    note p = pacedD(5)[OF P Message]
    show ?thesis
    proof (cases a)
      case AppServerWebSocket
      have o: "exec L (Suc n) (OnMessage opcode msg) ?m = Some (Inr (0, ?h))" for n
        using c AppServerWebSocket by (simp add: with_conn_def)
      have e: "exec L (Suc n) EventRecv m = exec L n EventRecv ?h" if "1 \<le> n" for n
        using that Message c o by (cases n) (simp_all del: exec.simps(5))
      have "sound L I (OnMessage opcode msg) ?m (Inr (0, ?h))" by (rule exec_sound[OF A W f1 o])
      then have f2: "fit L I ?h" by (rule sound_result(2)) (use f1 in simp_all)
      show ?thesis
        by (rule go[OF e f2]) (use p c dry in \<open>auto simp: rank_of_def later_def work_def dry_def\<close>)
    next
      case AppServerEchoWebSocket
      let ?q = "?h\<lparr>the_ctx := Some (queue_msg (wslay L) opcode msg w'), queued := queued m @ [(opcode, msg)]\<rparr>"
      have st: "steady L I" "calm I m" using fit c AppServerEchoWebSocket by (auto simp: fit_def)
      have kq: "kept L ?m ?q" using u c AppServerEchoWebSocket by (auto simp: kept_def in_use_def grows_def accepted_def)
      have cq: "calm I ?q" using steadyD(3)[OF st(1)] st c c1 by (auto simp: calm_def)
      have fq: "fit L I ?q" by (rule fit_kept[OF f1 kq]) (use cq in simp)
      have lq: "later L \<mu> drained K m ?q" "work L \<mu> K ?q < work L \<mu> K m"
        using p c dry by (auto simp: later_def work_def dry_def)
      have "ends L \<mu> drained K Proceed ?q"
        using lq by (intro IH[OF fq]) (simp_all add: later_def rank_of_def)
      then obtain n rc m2 where r: "exec L n Proceed ?q = Some (Inr (rc, m2))" "in_use L m2 \<longrightarrow> rc = 0 \<longrightarrow> later L \<mu> drained K ?q m2"
        unfolding ends_def by blast
      have s: "kept L ?q m2" "calm I m2" "rc = 0" using exec_sound[OF A W fq r(1)] st(1) cq by (auto simp: sound_def)
      have f2: "fit L I m2" by (rule fit_kept[OF fq s(1)]) (use s(2) in simp)
      have l2: "later L \<mu> drained K ?q m2" using r(2) s(3) kept_use(1)[OF s(1)] by simp
      have o: "exec L (Suc n') (OnMessage opcode msg) ?m = Some (Inr (rc, m2))" if "n \<le> n'" for n'
        using exec_mono[OF r(1) that] c AppServerEchoWebSocket by (simp add: with_conn_def)
      have e: "exec L (Suc n') EventRecv m = exec L n' EventRecv m2" if "Suc n \<le> n'" for n'
        using that Message c o by (cases n') (simp_all del: exec.simps(5))
      show ?thesis
        by (rule go[OF e f2 later_trans[OF lq(1) l2]]) (use lq(2) l2 in \<open>auto simp: rank_of_def later_def\<close>)
    qed
  qed
qed

lemma exec_ends:
  assumes A: "sock_ok (sock_lib L)" and W: "wslay_send_ok (sock_lib L) (bufs L) (wslay L)" and P: "paced L \<mu> drained K"
  shows "fit L I m \<Longrightarrow> dry drained m \<longrightarrow> input_of L m = [] \<Longrightarrow> call \<in> {Proceed, ProceedLoop, EventRecv} \<Longrightarrow>
    ends L \<mu> drained K call m"
proof (induction "rank_of L \<mu> drained K call m" arbitrary: call m rule: less_induct)
  case less
  note IH = less.hyps
  from less.prems(3) consider "call = Proceed" | "call = ProceedLoop" | "call = EventRecv" by blast
  then show ?case
  proof cases
    case 1
    have "ends L \<mu> drained K ProceedLoop m"
      by (rule IH[OF _ less.prems(1,2)]) (simp_all add: 1 rank_of_def)
    then show ?thesis unfolding 1 by (rule ends_Proceed[OF A W less.prems(1)])
  next
    case 2
    show ?thesis unfolding 2
      by (rule ends_ProceedLoop[OF A W P less.prems(1,2)]) (rule IH, unfold 2, assumption+, blast)
  next
    case 3
    show ?thesis unfolding 3
      by (rule ends_EventRecv[OF A W P less.prems(1,2)]) (rule IH, unfold 3, assumption+, blast)
  qed
qed

text \<open>The loop is left only when there is nothing to read.\<close>

lemma loop_idle: "exec L n ProceedLoop m = Some (Inr (0, m')) \<Longrightarrow> in_use L m' \<Longrightarrow> \<not> eager L m'"
proof (induction n arbitrary: m)
  case (Suc n)
  obtain h m1 where p: "send_phase L m = Inr (Some h, m1)" using Suc.prems(1)
    by (cases "send_phase L m") (auto split: option.splits)
  obtain b where b: "recv_wanted L m1 = Inr b" using Suc.prems(1) p by (cases "recv_wanted L m1") auto
  show ?case
  proof (cases b)
    case True
    obtain rc m2 where "exec L n EventRecv m1 = Some (Inr (rc, m2))" using Suc.prems(1) p b True
      by (cases "exec L n EventRecv m1"; cases "the (exec L n EventRecv m1)") auto
    then show ?thesis using Suc.prems p b True Suc.IH[of m2] by (auto split: if_splits)
  next
    case False
    then show ?thesis using Suc.prems p b Suc.IH[of m1] recv_wanted_eq[of L m1] by (auto split: if_splits)
  qed
qed simp

lemma proceed_idle:
  assumes A: "sock_ok (sock_lib L)" and W: "wslay_send_ok (sock_lib L) (bufs L) (wslay L)" and fit: "fit L I m"
    and e: "exec L n Proceed m = Some (Inr (rc, m'))" and u: "in_use L m'"
  shows "rc = 0" "\<not> eager L m'"
proof -
  obtain n' where n: "n = Suc n'" using e by (cases n) auto
  have nf: "\<not> freed m'" using u by (auto simp: freed_def in_use_def)
  obtain gc m1 where x: "exec L n' ProceedLoop m = Some (Inr (gc, m1))" using e n
    by (cases "exec L n' ProceedLoop m"; cases "the (exec L n' ProceedLoop m)") auto
  have c: "(if gc \<noteq> 0 then close_phase L m1 else end_phase L m1) = Inr m'" "rc = 0" using e n x
    by (cases "if gc \<noteq> 0 then close_phase L m1 else end_phase L m1"; simp)+
  have u1: "in_use L m1" using exec_sound[OF A W fit x] by (auto simp: sound_def kept_def)
  have gc: "gc = 0" using c(1) nf close_phase_ok[OF u1] by (auto split: if_splits)
  have i: "input_of L m' = input_of L m1" "the_ctx m' = the_ctx m1"
    using end_phase_ok[OF A u1] end_phase_input[OF A u1 _ u] c(1) gc nf by auto
  show "rc = 0" by (rule c(2))
  show "\<not> eager L m'" using loop_idle[OF _ u1] x gc i by (simp add: eager_def)
qed

subsection \<open>Executable libraries\<close>

text \<open>
  Every chunk of data is a message; the context holds the message that is complete, whether it has
  been told that there is no data, and the frames to send.
\<close>

type_synonym reentry_ctx = "byte list option \<times> bool \<times> byte list list"

definition demo_next :: "reentry_ctx \<Rightarrow> reentry_ctx recv_action" where
  "demo_next w = (case w of (msg, told, out) \<Rightarrow>
     case msg of Some d \<Rightarrow> Message 1 d (None, told, out)
     | None \<Rightarrow> if told then RecvReturn 0 (None, False, out)
       else WantData 4 (\<lambda>r. case r of None \<Rightarrow> (None, True, out) | Some d \<Rightarrow> (Some d, False, out)))"

definition demo_send :: "reentry_ctx \<Rightarrow> demo_sock conn \<Rightarrow> (int \<times> reentry_ctx \<times> demo_sock conn) res" where
  "demo_send w c = bindE (demo_event_send 4 (snd (snd w)) c) (\<lambda>(rc, out, c'). Inr (rc, (fst w, fst (snd w), out), c'))"

definition demo_lib :: "(reentry_ctx, demo_sock) ws_lib" where
  "demo_lib = \<lparr>sock_lib = demo_api, bufs = 4,
     wslay = \<lparr>want_write = (\<lambda>w. snd (snd w) \<noteq> []), want_read = (\<lambda>w. True), event_send = demo_send,
       event_recv = (\<lambda>w c. Inr (0, w, c)), queue_msg = (\<lambda>opcode m w. (fst w, fst (snd w), snd (snd w) @ [m]))\<rparr>,
     recv_next = demo_next\<rparr>"

text \<open>The same with a \<^verbatim>\<open>wslay_event_send\<close> that fails.\<close>

definition broken_lib :: "(reentry_ctx, demo_sock) ws_lib" where
  "broken_lib = demo_lib\<lparr>wslay := (wslay demo_lib)\<lparr>event_send := (\<lambda>w c. Inr (-400, w, c))\<rparr>\<rparr>"

definition demo_mem :: "app_class \<Rightarrow> (reentry_ctx, demo_sock) ws_mem" where
  "demo_mem a = \<lparr>the_conn = Some demo_conn, the_ctx = Some (None, False, []), the_app = Some a, end_sock = None,
     heard = [], queued = []\<rparr>"

lemma demo_lib_simps [simp]:
  "sock_lib demo_lib = demo_api" "bufs demo_lib = 4" "recv_next demo_lib = demo_next"
  "want_read (wslay demo_lib) w = True" "want_write (wslay demo_lib) w \<longleftrightarrow> snd (snd w) \<noteq> []"
  "event_send (wslay demo_lib) = demo_send" "queue_msg (wslay demo_lib) opcode m w = (fst w, fst (snd w), snd (snd w) @ [m])"
  by (simp_all add: demo_lib_def)

lemma demo_send_eq:
  assumes "demo_event_send 4 out c = Inr (rc, out', c')"
  shows "demo_send (p, d, out) c = Inr (rc, (p, d, out'), c')"
  using assms by (simp add: demo_send_def)

lemma demo_event_send_eq:
  assumes "sock c = Some s"
  defines "n \<equiv> if is_writing demo_api s then 0 else 4 - length (write_bufs c)"
  shows "demo_event_send 4 out c = Inr (0, drop n out, c\<lparr>write_bufs := write_bufs c @ take n out\<rparr>)"
proof -
  have "send_all demo_api 4 (take n out) c = Inr (c\<lparr>write_bufs := write_bufs c @ take n out\<rparr>)"
  proof (cases "n = 0")
    case False
    then show ?thesis using assms(1) by (intro send_all_fits[of c s]) (auto simp: n_def split: if_splits)
  qed simp
  then show ?thesis using assms(1) by (simp add: demo_event_send_def n_def Let_def)
qed

lemma demo_lib_send_ok: "wslay_send_ok (sock_lib demo_lib) (bufs demo_lib) (wslay demo_lib)"
  unfolding wslay_send_ok_def
proof (intro allI impI)
  fix w :: reentry_ctx and c :: "demo_sock conn"
  assume "sock c \<noteq> None"
  moreover obtain p d out where w: "w = (p, d, out)" by (cases w)
  ultimately obtain rc out' ds c' where "send_all demo_api 4 ds c = Inr c'" "demo_event_send 4 out c = Inr (rc, out', c')"
    "rc = 0 \<longrightarrow> \<not> is_writing demo_api (the (sock c')) \<and> length (write_bufs c') < 4 \<longrightarrow> out' = []"
    using wslay_okD(1)[OF demo_wslay_ok[of 4], unfolded wslay_send_ok_def, rule_format, of c out] by (auto simp: demo_wslay_def)
  then show "\<exists>rc w' ds c'. send_all (sock_lib demo_lib) (bufs demo_lib) ds c = Inr c' \<and>
      event_send (wslay demo_lib) w c = Inr (rc, w', c') \<and>
      (rc = 0 \<longrightarrow> (want_read (wslay demo_lib) w' \<longrightarrow> want_read (wslay demo_lib) w) \<and>
       (\<not> is_writing (sock_lib demo_lib) (the (sock c')) \<and> length (write_bufs c') < bufs demo_lib \<longrightarrow> \<not> want_write (wslay demo_lib) w'))"
    using demo_send_eq[of out c rc out' c' p d] w by (intro exI[of _ rc] exI[of _ "(p, d, out')"] exI[of _ ds] exI[of _ c']) simp
qed

definition demo_load :: "reentry_ctx \<Rightarrow> nat" where
  "demo_load w = (case fst w of None \<Rightarrow> 0 | Some _ \<Rightarrow> 4) + 2 * length (snd (snd w))"

lemma demo_lib_paced: "paced demo_lib demo_load (\<lambda>w. fst (snd w)) 5"
  unfolding paced_def
  by (auto simp: demo_next_def demo_load_def demo_send_def demo_event_send_eq neq_Nil_conv split: option.splits)

lemma demo_mem_in_use: "in_use demo_lib (demo_mem a)" "in_use broken_lib (demo_mem a)"
  using demo_conn_ok by (auto simp: in_use_def demo_mem_def broken_lib_def demo_lib_def)

lemma broken_lib_send_ok: "wslay_send_ok (sock_lib broken_lib) (bufs broken_lib) (wslay broken_lib)"
proof -
  have e: "event_send (wslay broken_lib) w c = Inr (-400, w, c)" for w c by (simp add: broken_lib_def)
  have s: "send_all A b [] c = Inr c" for A and b :: nat and c :: "demo_sock conn" by simp
  show ?thesis unfolding wslay_send_ok_def by (intro allI impI exI conjI, rule s, rule e) auto
qed

subsection \<open>Theorems\<close>

text \<open>C12: A connection whose socket does not answer from its \<^verbatim>\<open>receive_websocket_message\<close> is never touched after it was
  freed, whatever wslay does: it may fail at any point. Only \<^verbatim>\<open>h2o_websocket_proceed\<close> frees it, and
  then the socket, the context and the \<^verbatim>\<open>AppServerWebSocket\<close> together. It queues nothing for the peer.\<close>

theorem silent_socket_safe:
  assumes "sock_ok (sock_lib L)" "wslay_send_ok (sock_lib L) (bufs L) (wslay L)"
    and "in_use L m" "the_app m = Some AppServerWebSocket" "exec L n call m = Some r"
  shows "\<exists>rc m'. r = Inr (rc, m') \<and> (in_use L m' \<or> call = Proceed \<and> freed m') \<and>
    prefix (heard m) (heard m') \<and> queued m' = queued m"
proof -
  have "fit L (\<lambda>w. False) m" using assms(3,4) by (simp add: fit_def)
  from exec_sound[OF assms(1,2) this assms(5)] show ?thesis
    using assms(4) by (auto simp: sound_def kept_def grows_def prefix_def)
qed

theorem silent_socket_safe_witness:
  "\<exists>m'. exec broken_lib 9 Proceed (demo_mem AppServerWebSocket) = Some (Inr (0, m')) \<and> in_use broken_lib m' \<and>
     heard m' = [(1, [1, 2, 3])] \<and> queued m' = []"
proof -
  have "case exec broken_lib 9 Proceed (demo_mem AppServerWebSocket) of
      Some (Inr (rc, m')) \<Rightarrow> rc = 0 \<and> heard m' = [(1, [1, 2, 3])] \<and> (case the_conn m' of None \<Rightarrow> False | Some c \<Rightarrow> True)
    | _ \<Rightarrow> False" by code_simp
  then obtain m' where e: "exec broken_lib 9 Proceed (demo_mem AppServerWebSocket) = Some (Inr (0, m'))" "heard m' = [(1, [1, 2, 3])]"
    "the_conn m' \<noteq> None" by (auto split: option.splits sum.splits)
  show ?thesis
    using silent_socket_safe[OF _ broken_lib_send_ok demo_mem_in_use(2) _ e(1)] e
    by (auto simp: demo_mem_def broken_lib_def demo_api_ok freed_def)
qed

text \<open>C6: While wslay reports no error and wants to read, the echo server works: \<^verbatim>\<open>h2o_websocket_proceed\<close>, with all the calls of
  itself from inside \<^verbatim>\<open>wslay_event_recv\<close>, returns; no freed memory is used; every message received
  is queued back once, in order; what was accepted for the peer stays in place; and no input is left
  unread.\<close>

theorem echo_returns_every_message:
  assumes "sock_ok (sock_lib L)" "wslay_send_ok (sock_lib L) (bufs L) (wslay L)"
    and "paced L \<mu> drained K" "steady L I"
    and "in_use L m" "the_app m = Some AppServerEchoWebSocket" "the_ctx m = Some w" "I w" "\<not> drained w"
  shows "\<exists>N m' msgs. (\<forall>n \<ge> N. exec L n Proceed m = Some (Inr (0, m'))) \<and> in_use L m' \<and>
    heard m' = heard m @ msgs \<and> queued m' = queued m @ msgs \<and>
    prefix (accepted L m) (accepted L m') \<and> input_of L m' = []"
proof -
  have c: "calm I m" and fit: "fit L I m" using assms(4-8) by (auto simp: fit_def calm_def)
  have "ends L \<mu> drained K Proceed m" by (rule exec_ends[OF assms(1-3) fit]) (use assms(7,9) in \<open>simp_all add: dry_def\<close>)
  then obtain n rc m' where e: "exec L n Proceed m = Some (Inr (rc, m'))" unfolding ends_def by blast
  have s: "kept L m m'" "calm I m'" using exec_sound[OF assms(1,2) fit e] assms(4) c by (auto simp: sound_def)
  note i = proceed_idle[OF assms(1,2) fit e kept_use(1)[OF s(1)]]
  have "input_of L m' = []" using i(2) s(2) steadyD(1)[OF assms(4)] by (auto simp: eager_def calm_def)
  moreover have "\<forall>n' \<ge> n. exec L n' Proceed m = Some (Inr (0, m'))" using exec_mono[OF e] i(1) by blast
  ultimately show ?thesis using s(1) assms(6) unfolding kept_def grows_def by (intro exI[of _ n] exI[of _ m']) auto
qed

lemma demo_lib_steady: "steady demo_lib (\<lambda>w. True)"
  by (auto simp: steady_def demo_send_def demo_event_send_def demo_next_def bindE_def Let_def split: option.splits sum.splits prod.splits)

theorem echo_returns_every_message_witness:
  "\<exists>m'. exec demo_lib 20 Proceed (demo_mem AppServerEchoWebSocket) = Some (Inr (0, m')) \<and> in_use demo_lib m' \<and>
     queued m' = [(1, [1, 2, 3])] \<and> accepted demo_lib m' = [1, 2, 3] \<and> input_of demo_lib m' = []"
proof -
  let ?m = "demo_mem AppServerEchoWebSocket"
  have "case exec demo_lib 20 Proceed ?m of
      Some (Inr (rc, m')) \<Rightarrow> rc = 0 \<and> heard m' = [(1, [1, 2, 3])] \<and> accepted demo_lib m' = [1, 2, 3] | _ \<Rightarrow> False" by code_simp
  then obtain m1 where d: "exec demo_lib 20 Proceed ?m = Some (Inr (0, m1))" "heard m1 = [(1, [1, 2, 3])]" "accepted demo_lib m1 = [1, 2, 3]"
    by (auto split: option.splits sum.splits)
  have "\<exists>N m' msgs. (\<forall>n \<ge> N. exec demo_lib n Proceed ?m = Some (Inr (0, m'))) \<and> in_use demo_lib m' \<and>
    heard m' = heard ?m @ msgs \<and> queued m' = queued ?m @ msgs \<and>
    prefix (accepted demo_lib ?m) (accepted demo_lib m') \<and> input_of demo_lib m' = []"
    by (rule echo_returns_every_message[OF _ demo_lib_send_ok demo_lib_paced demo_lib_steady demo_mem_in_use(1), where w = "(None, False, [])"])
      (simp_all add: demo_mem_def demo_api_ok)
  then obtain N m' msgs where t: "\<forall>n \<ge> N. exec demo_lib n Proceed ?m = Some (Inr (0, m'))" "in_use demo_lib m'"
    "heard m' = heard ?m @ msgs" "queued m' = queued ?m @ msgs" "input_of demo_lib m' = []" by blast
  have "m' = m1" using t(1)[rule_format, of "max 20 N"] exec_mono[OF d(1), of "max 20 N"] by simp
  then show ?thesis using t d by (auto simp: demo_mem_def)
qed

text \<open>C13: The echo server uses freed memory when sending fails: if \<^verbatim>\<open>wslay_event_send\<close> fails on the answer to a
  message, the \<^verbatim>\<open>h2o_websocket_proceed\<close> called from \<^verbatim>\<open>receive_websocket_message\<close> frees the
  connection and its wslay context, and the \<^verbatim>\<open>wslay_event_recv\<close> that it returns into goes on with that
  context.\<close>

theorem echo_use_after_free:
  assumes "the_conn m = Some c" "sock c = Some s" "the_ctx m = Some w" "the_app m = Some AppServerEchoWebSocket"
    and "recv_next L w = Message opcode msg w'"
    and "\<not> is_writing (sock_lib L) s" "want_write (wslay L) (queue_msg (wslay L) opcode msg w')"
    and "event_send (wslay L) (queue_msg (wslay L) opcode msg w') c = Inr (rc, w2, c2)" "rc \<noteq> 0"
  shows "\<forall>n \<ge> 4. exec L n EventRecv m = Some (Inl BadPointer)"
proof -
  let ?q = "m\<lparr>heard := heard m @ [(opcode, msg)], the_ctx := Some (queue_msg (wslay L) opcode msg w'),
    queued := queued m @ [(opcode, msg)]\<rparr>"
  have p: "send_phase L ?q = Inr (None, ?q\<lparr>the_conn := Some c2, the_ctx := Some w2\<rparr>)"
    using assms by (simp add: send_phase_def with_conn_def proceed_send_def)
  have f: "\<exists>so. close_phase L (?q\<lparr>the_conn := Some c2, the_ctx := Some w2\<rparr>) =
      Inr (?q\<lparr>the_conn := None, the_ctx := None, the_app := None, end_sock := so\<rparr>)"
    using assms(4)
    by (auto simp: close_phase_def with_conn_def on_close_def on_websocket_message_def h2o_websocket_close_def store_def)
  have e: "exec L (Suc (Suc (Suc (Suc n)))) EventRecv m = Some (Inl BadPointer)" for n
    using p f assms(3-5) assms(1) by (auto simp: with_conn_def Let_def)
  have "Suc (Suc (Suc (Suc (n - 4)))) = n" if "4 \<le> n" for n using that by simp
  then show ?thesis using e by metis
qed

theorem echo_use_after_free_witness:
  "exec broken_lib 9 EventRecv ((demo_mem AppServerEchoWebSocket)\<lparr>the_ctx := Some (Some [7], False, [])\<rparr>) = Some (Inl BadPointer)"
  by (rule echo_use_after_free[of _ demo_conn "([1, 2, 3], [], False, False)" "(Some [7], False, [])" broken_lib 1 "[7]" "(None, False, [])"
        "-400", THEN spec, THEN mp])
    (simp_all add: demo_mem_def demo_conn_def broken_lib_def demo_lib_def demo_next_def demo_api_def)

text \<open>A message sent outside the life of the connection is an error: before \<^verbatim>\<open>on_websocket_complete\<close> has set
  the socket, \<^verbatim>\<open>send_websocket_message\<close> passes a null socket to h2o; after \<^verbatim>\<open>close_websocket\<close>, which leaves
  the \<^verbatim>\<open>AppServerWebSocket\<close> allocated with a pointer to the freed connection, it reads freed memory.\<close>

theorem message_outside_connection:
  assumes "the_conn m = Some c" "the_ctx m = Some w" "the_app m = Some a" "n \<ge> 2"
  shows "(sock c = None \<longrightarrow> send_message L n opcode msg m = Some (Inl BadPointer)) \<and>
    (\<exists>m'. close_websocket L m = Inr m' \<and> the_app m' = Some a \<and> send_message L n opcode msg m' = Some (Inl BadPointer))"
proof (intro conjI)
  obtain k where n: "n = Suc (Suc k)" using assms(4) by (cases n; cases "n - 1") auto
  have "proceed_send (sock_lib L) (bufs L) (wslay L) w' c = Inl BadPointer" if "sock c = None" for w'
    using that by (simp add: proceed_send_def get_sock_def)
  then show "sock c = None \<longrightarrow> send_message L n opcode msg m = Some (Inl BadPointer)"
    using assms by (simp add: send_message_def n send_phase_def with_conn_def)
  show "\<exists>m'. close_websocket L m = Inr m' \<and> the_app m' = Some a \<and> send_message L n opcode msg m' = Some (Inl BadPointer)"
    using assms by (simp add: close_websocket_def send_message_def with_conn_def h2o_websocket_close_def)
qed

theorem message_outside_connection_witness:
  "send_message demo_lib 5 1 [7] ((demo_mem AppServerWebSocket)\<lparr>the_conn := Some (demo_conn\<lparr>sock := None\<rparr>)\<rparr>) = Some (Inl BadPointer) \<and>
   (\<exists>m'. close_websocket demo_lib (demo_mem AppServerWebSocket) = Inr m' \<and> the_app m' = Some AppServerWebSocket \<and>
      send_message demo_lib 5 1 [7] m' = Some (Inl BadPointer))"
  using message_outside_connection[of "(demo_mem AppServerWebSocket)\<lparr>the_conn := Some (demo_conn\<lparr>sock := None\<rparr>)\<rparr>"
      "demo_conn\<lparr>sock := None\<rparr>" "(None, False, [])" AppServerWebSocket 5 demo_lib 1 "[7]"]
    message_outside_connection[of "demo_mem AppServerWebSocket" demo_conn "(None, False, [])" AppServerWebSocket 5 demo_lib 1 "[7]"]
  by (simp add: demo_mem_def)

end
