(* ===== verification/Websocket_Buffers.thy ===== *)
theory Websocket_Buffers
  imports Websocket
begin

text \<open>
  The memory behind the write buffers of a websocket connection: \<^verbatim>\<open>send_callback\<close> allocates a copy of the
  data, h2o is handed pointers to the copies, \<^verbatim>\<open>on_write_complete\<close> and \<^verbatim>\<open>h2o_websocket_close\<close> free them.
  In \<open>Websocket\<close> a buffer is its bytes; here it is an address and a length, and each operation is shown to
  do what it does there.
\<close>

subsection \<open>Memory\<close>

text \<open>\<open>blocks\<close> are the allocations of the connection, \<open>iov\<close> is \<^verbatim>\<open>_write_buf.bufs[0 .. cnt)\<close>, and
  \<open>in_flight\<close> what a write under way was handed, with the bytes it had then.\<close>

record 's bufmem =
  blocks :: "addr \<rightharpoonup> byte list"
  bsock :: "'s option"
  iov :: "(addr \<times> nat) list"
  blocked :: bool
  in_flight :: "((addr \<times> nat) \<times> byte list) list"

definition bufmem_sock :: "'s bufmem \<Rightarrow> 's res" where
  "bufmem_sock m = (case bsock m of None \<Rightarrow> Inl BadPointer | Some s \<Rightarrow> Inr s)"

definition read_buf :: "(addr \<rightharpoonup> byte list) \<Rightarrow> addr \<times> nat \<Rightarrow> byte list res" where
  "read_buf h b = (case h (fst b) of
     None \<Rightarrow> Inl BadPointer
   | Some d \<Rightarrow> if length d < snd b then Inl BadIndex else Inr (take (snd b) d))"

fun read_bufs :: "(addr \<rightharpoonup> byte list) \<Rightarrow> (addr \<times> nat) list \<Rightarrow> byte list list res" where
  "read_bufs h [] = Inr []"
| "read_bufs h (b # bs) = bindE (read_buf h b) (\<lambda>d. bindE (read_bufs h bs) (\<lambda>ds. Inr (d # ds)))"

subsection \<open>Operations\<close>

text \<open>\<open>p\<close> is what \<^verbatim>\<open>h2o_mem_alloc\<close> returns; it ends the process when there is no memory.\<close>

definition send_callback_mem :: "'s sock_api \<Rightarrow> nat \<Rightarrow> addr \<Rightarrow> byte list \<Rightarrow> 's bufmem \<Rightarrow> (nat option \<times> 's bufmem) res" where
  "send_callback_mem A nbufs p data m =
     bindE (bufmem_sock m) (\<lambda>s.
       if is_writing A s \<or> length (iov m) = nbufs then Inr (None, m\<lparr>blocked := True\<rparr>)
       else Inr (Some (length data),
              m\<lparr>blocks := (blocks m)(p \<mapsto> data), iov := iov m @ [(p, length data)]\<rparr>))"

fun free_loop :: "(addr \<times> nat) list \<Rightarrow> (addr \<rightharpoonup> byte list) \<Rightarrow> (addr \<rightharpoonup> byte list) res" where
  "free_loop [] h = Inr h"
| "free_loop (b # bs) h = (if h (fst b) = None then Inl BadPointer else free_loop bs (h(fst b := None)))"

definition free_write_buf :: "'s bufmem \<Rightarrow> 's bufmem res" where
  "free_write_buf m = bindE (free_loop (iov m) (blocks m)) (\<lambda>h. Inr (m\<lparr>blocks := h\<rparr>))"

text \<open>The write at the end of \<^verbatim>\<open>h2o_websocket_proceed\<close>.\<close>

definition write_mem :: "'s sock_api \<Rightarrow> 's bufmem \<Rightarrow> 's bufmem res" where
  "write_mem A m =
     bindE (bufmem_sock m) (\<lambda>s.
       if \<not> is_writing A s \<and> 0 < length (iov m)
       then bindE (read_bufs (blocks m) (iov m)) (\<lambda>ds.
              Inr (m\<lparr>bsock := Some (socket_write A ds s), in_flight := zip (iov m) ds\<rparr>))
       else Inr m)"

text \<open>\<^verbatim>\<open>on_write_complete\<close> up to the call of \<^verbatim>\<open>h2o_websocket_proceed\<close>.\<close>

definition write_complete_mem :: "'s bufmem \<Rightarrow> 's bufmem res" where
  "write_complete_mem m =
     bindE (assertE (0 < length (iov m))) (\<lambda>_.
     bindE (free_write_buf m) (\<lambda>m1. Inr (m1\<lparr>iov := []\<rparr>)))"

text \<open>\<^verbatim>\<open>h2o_websocket_close\<close>: the socket it closes, and the allocations that are left.\<close>

definition close_mem :: "'s sock_api \<Rightarrow> 's bufmem \<Rightarrow> ('s option \<times> (addr \<rightharpoonup> byte list)) res" where
  "close_mem A m = bindE (free_write_buf m) (\<lambda>m1. Inr (map_option (socket_close A) (bsock m), blocks m1))"

subsection \<open>Ownership and abstraction\<close>

text \<open>Each buffer has its own allocation of its length, and there are no others.\<close>

definition owned :: "'s bufmem \<Rightarrow> bool" where
  "owned m \<longleftrightarrow> distinct (map fst (iov m)) \<and> dom (blocks m) = fst ` set (iov m) \<and>
     (\<forall>(p, n) \<in> set (iov m). \<exists>d. blocks m p = Some d \<and> length d = n)"

definition conn_of :: "'s bufmem \<Rightarrow> 's conn" where
  "conn_of m = \<lparr>sock = bsock m, write_bufs = map (\<lambda>b. the (blocks m (fst b))) (iov m), would_block = blocked m\<rparr>"

text \<open>What h2o still reads is what the write was started with.\<close>

definition flight_ok :: "'s sock_api \<Rightarrow> 's bufmem \<Rightarrow> bool" where
  "flight_ok A m \<longleftrightarrow>
     (case bsock m of None \<Rightarrow> in_flight m = [] | Some s \<Rightarrow> (is_writing A s \<longleftrightarrow> in_flight m \<noteq> [])) \<and>
     (in_flight m \<noteq> [] \<longrightarrow> map fst (in_flight m) = iov m) \<and>
     (\<forall>(b, d) \<in> set (in_flight m). read_buf (blocks m) b = Inr d)"

lemma read_bufs_owned:
  assumes "\<forall>(p, n) \<in> set bs. \<exists>d. h p = Some d \<and> length d = n"
  shows "read_bufs h bs = Inr (map (\<lambda>b. the (h (fst b))) bs)"
  using assms by (induction bs) (fastforce simp: read_buf_def)+

lemma read_bufs_zip:
  "read_bufs h bs = Inr ds \<Longrightarrow> length ds = length bs \<and> (\<forall>(b, d) \<in> set (zip bs ds). read_buf h b = Inr d)"
  by (induction bs arbitrary: ds) auto

lemma free_loop_owned:
  assumes "distinct (map fst bs)" "\<forall>b \<in> set bs. h (fst b) \<noteq> None"
  shows "free_loop bs h = Inr (\<lambda>p. if p \<in> fst ` set bs then None else h p)"
  using assms
proof (induction bs arbitrary: h)
  case (Cons b bs)
  have "\<forall>b' \<in> set bs. fst b' \<noteq> fst b" using Cons.prems(1) by (metis distinct.simps(2) imageI list.set_map list.simps(9))
  then have "\<forall>b' \<in> set bs. (h(fst b := None)) (fst b') \<noteq> None" using Cons.prems(2) by simp
  then have "free_loop bs (h(fst b := None)) = Inr (\<lambda>p. if p \<in> fst ` set bs then None else (h(fst b := None)) p)"
    using Cons.prems(1) by (intro Cons.IH) simp_all
  moreover have "free_loop (b # bs) h = free_loop bs (h(fst b := None))" using Cons.prems(2) by auto
  moreover have "(\<lambda>p. if p \<in> fst ` set bs then None else (h(fst b := None)) p) = (\<lambda>p. if p \<in> fst ` set (b # bs) then None else h p)"
    by auto
  ultimately show ?case by metis
qed simp

lemma free_write_buf_owned:
  assumes "owned m"
  shows "free_write_buf m = Inr (m\<lparr>blocks := Map.empty\<rparr>)"
proof -
  have "\<forall>b \<in> set (iov m). blocks m (fst b) \<noteq> None" using assms by (fastforce simp: owned_def)
  then have "free_loop (iov m) (blocks m) = Inr (\<lambda>p. if p \<in> fst ` set (iov m) then None else blocks m p)"
    using assms by (intro free_loop_owned) (simp_all add: owned_def)
  moreover have "(\<lambda>p. if p \<in> fst ` set (iov m) then None else blocks m p) = Map.empty"
    using assms by (auto simp: owned_def fun_eq_iff dom_def)
  ultimately show ?thesis by (simp add: free_write_buf_def)
qed

lemma conn_of_sock: "bufmem_sock m = get_sock (conn_of m)"
  by (simp add: bufmem_sock_def get_sock_def conn_of_def)

subsection \<open>Each operation does what it does in Websocket\<close>

lemma send_mem_ok:
  assumes o: "owned m" and f: "flight_ok A m" and p: "p \<notin> dom (blocks m)" and s: "bsock m = Some s"
  shows "\<exists>r m'. send_callback_mem A nbufs p data m = Inr (r, m') \<and> owned m' \<and> flight_ok A m' \<and> bsock m' = Some s \<and>
    send_callback A nbufs data (conn_of m) = Inr (r, conn_of m')"
proof (cases "is_writing A s \<or> length (iov m) = nbufs")
  case True
  then show ?thesis using assms
    by (auto simp: send_callback_mem_def send_callback_def bufmem_sock_def conn_of_def owned_def flight_ok_def)
next
  case False
  let ?m = "m\<lparr>blocks := (blocks m)(p \<mapsto> data), iov := iov m @ [(p, length data)]\<rparr>"
  have fl: "in_flight m = []" using f s False by (simp add: flight_ok_def)
  have ne: "\<forall>b \<in> set (iov m). fst b \<noteq> p" using o p by (auto simp: owned_def)
  have "\<exists>d. (blocks ?m) q = Some d \<and> length d = n" if "(q, n) \<in> set (iov ?m)" for q n
    using that o ne unfolding owned_def by (cases "(q, n) \<in> set (iov m)") (fastforce, auto)
  moreover have "distinct (map fst (iov ?m))" "dom (blocks ?m) = fst ` set (iov ?m)" using o p by (auto simp: owned_def)
  ultimately have "owned ?m" unfolding owned_def by blast
  moreover have "flight_ok A ?m" using fl s False by (simp add: flight_ok_def)
  moreover have "conn_of ?m = (conn_of m)\<lparr>write_bufs := write_bufs (conn_of m) @ [data]\<rparr>"
    using ne by (auto simp: conn_of_def)
  moreover have "send_callback_mem A nbufs p data m = Inr (Some (length data), ?m)"
    using s False by (simp add: send_callback_mem_def bufmem_sock_def)
  moreover have "send_callback A nbufs data (conn_of m) = Inr (Some (length data), (conn_of m)\<lparr>write_bufs := write_bufs (conn_of m) @ [data]\<rparr>)"
    using s False by (simp add: send_callback_def conn_of_def)
  ultimately show ?thesis using s by (intro exI[of _ "Some (length data)"] exI[of _ ?m]) simp
qed

lemma write_mem_ok:
  assumes A: "sock_ok A" and o: "owned m" and f: "flight_ok A m" and s: "bsock m = Some s"
  shows "\<exists>m'. write_mem A m = Inr m' \<and> owned m' \<and> flight_ok A m' \<and> blocks m' = blocks m \<and> iov m' = iov m \<and>
    bsock m' = Some (if \<not> is_writing A s \<and> 0 < length (write_bufs (conn_of m)) then socket_write A (write_bufs (conn_of m)) s else s)"
proof (cases "\<not> is_writing A s \<and> 0 < length (iov m)")
  case True
  have r: "read_bufs (blocks m) (iov m) = Inr (write_bufs (conn_of m))"
    using read_bufs_owned[of "iov m" "blocks m"] o by (simp add: owned_def conn_of_def)
  let ?m = "m\<lparr>bsock := Some (socket_write A (write_bufs (conn_of m)) s), in_flight := zip (iov m) (write_bufs (conn_of m))\<rparr>"
  have "zip (iov m) (write_bufs (conn_of m)) \<noteq> []" using True by (auto simp: conn_of_def neq_Nil_conv)
  moreover have "map fst (zip (iov m) (write_bufs (conn_of m))) = iov m" by (simp add: conn_of_def)
  ultimately have "flight_ok A ?m" using read_bufs_zip[OF r] sock_okD[OF A] by (simp add: flight_ok_def)
  moreover have "owned ?m" using o by (simp add: owned_def)
  moreover have "write_mem A m = Inr ?m" using s True r by (simp add: write_mem_def bufmem_sock_def)
  ultimately show ?thesis using True by (intro exI[of _ ?m]) (simp add: conn_of_def)
next
  case False
  then show ?thesis using assms by (auto simp: write_mem_def bufmem_sock_def conn_of_def)
qed

lemma write_complete_ok:
  assumes o: "owned m" and n: "iov m \<noteq> []"
  shows "write_complete_mem m = Inr (m\<lparr>blocks := Map.empty, iov := []\<rparr>)"
  using free_write_buf_owned[OF o] n by (simp add: write_complete_mem_def)

lemma close_mem_ok:
  assumes "owned m"
  shows "\<exists>so. close_mem A m = Inr (so, Map.empty) \<and> h2o_websocket_close A (conn_of m) = (Closed so :: ('w, 's) outcome)"
  using free_write_buf_owned[OF assms] by (simp add: close_mem_def h2o_websocket_close_def conn_of_def)

subsection \<open>The life of the buffers\<close>

text \<open>Between \<open>buf_start\<close>, the completed upgrade, and the closing of the connection: wslay sends, a write starts and
  ends, and the input of the socket changes.\<close>

inductive buf_reach :: "'s sock_api \<Rightarrow> nat \<Rightarrow> 's bufmem \<Rightarrow> bool" for A nbufs where
  buf_start: "\<not> is_writing A s \<Longrightarrow>
    buf_reach A nbufs \<lparr>blocks = Map.empty, bsock = Some s, iov = [], blocked = b, in_flight = []\<rparr>"
| buf_send: "\<lbrakk>buf_reach A nbufs m; p \<notin> dom (blocks m); send_callback_mem A nbufs p data m = Inr (r, m')\<rbrakk> \<Longrightarrow> buf_reach A nbufs m'"
| buf_write: "\<lbrakk>buf_reach A nbufs m; write_mem A m = Inr m'\<rbrakk> \<Longrightarrow> buf_reach A nbufs m'"
| buf_input: "\<lbrakk>buf_reach A nbufs m; bsock m = Some s; is_writing A s' = is_writing A s\<rbrakk> \<Longrightarrow> buf_reach A nbufs (m\<lparr>bsock := Some s'\<rparr>)"
| buf_done: "\<lbrakk>buf_reach A nbufs m; bsock m = Some s; is_writing A s; \<not> is_writing A s';
    write_complete_mem (m\<lparr>bsock := Some s', in_flight := []\<rparr>) = Inr m'\<rbrakk> \<Longrightarrow> buf_reach A nbufs m'"

lemma buf_reach_ok:
  assumes A: "sock_ok A"
  shows "buf_reach A nbufs m \<Longrightarrow> owned m \<and> flight_ok A m \<and> (\<exists>s. bsock m = Some s)"
proof (induction rule: buf_reach.induct)
  case (buf_start s b)
  then show ?case by (simp add: owned_def flight_ok_def)
next
  case (buf_send m p data r m')
  then obtain s where "bsock m = Some s" by blast
  then show ?case using send_mem_ok[of m A p s nbufs data] buf_send by auto
next
  case (buf_write m m')
  then obtain s where "bsock m = Some s" by blast
  then show ?case using write_mem_ok[OF A, of m s] buf_write by auto
next
  case (buf_input m s s')
  then show ?case by (simp add: owned_def flight_ok_def)
next
  case (buf_done m s s' m')
  then have "iov m \<noteq> []" by (auto simp: flight_ok_def)
  moreover have "owned (m\<lparr>bsock := Some s', in_flight := []\<rparr>)" using buf_done by (simp add: owned_def)
  ultimately have "m' = m\<lparr>bsock := Some s', in_flight := [], blocks := Map.empty, iov := []\<rparr>"
    using write_complete_ok[of "m\<lparr>bsock := Some s', in_flight := []\<rparr>"] buf_done.hyps(5) by simp
  then show ?case using buf_done.hyps(4) by (simp add: owned_def flight_ok_def)
qed

subsection \<open>Theorems\<close>

text \<open>C35: The write buffers in memory are the buffers of the abstract connection: in every state of a connection each
  buffer has an allocation of its own and there are no others, so nothing is leaked and nothing freed
  twice; what a write under way was handed is still there, unchanged; \<^verbatim>\<open>send_callback\<close>, the completion of
  a write, and the closing of the connection, also during a write, do what they do on plain bytes, and
  the last two leave no allocation behind.\<close>

theorem write_buffers_owned:
  assumes "sock_ok A" "buf_reach A nbufs m" "bsock m = Some s" "p \<notin> dom (blocks m)"
  shows "dom (blocks m) = fst ` set (iov m) \<and> (\<forall>(b, d) \<in> set (in_flight m). read_buf (blocks m) b = Inr d) \<and>
    (\<exists>r m'. send_callback_mem A nbufs p data m = Inr (r, m') \<and> send_callback A nbufs data (conn_of m) = Inr (r, conn_of m')) \<and>
    (\<exists>so. close_mem A m = Inr (so, Map.empty) \<and> h2o_websocket_close A (conn_of m) = (Closed so :: ('w, 's) outcome)) \<and>
    (is_writing A s \<longrightarrow> (\<exists>m'. write_complete_mem m = Inr m' \<and> blocks m' = Map.empty \<and> conn_of m' = (conn_of m)\<lparr>write_bufs := []\<rparr>))"
proof -
  have i: "owned m" "flight_ok A m" using buf_reach_ok[OF assms(1,2)] by blast+
  have "\<exists>m'. write_complete_mem m = Inr m' \<and> blocks m' = Map.empty \<and> conn_of m' = (conn_of m)\<lparr>write_bufs := []\<rparr>" if "is_writing A s"
  proof -
    have "iov m \<noteq> []" using i(2) assms(3) that by (auto simp: flight_ok_def)
    then show ?thesis using write_complete_ok[OF i(1)] by (simp add: conn_of_def)
  qed
  then show ?thesis
    using send_mem_ok[OF i assms(4,3), of nbufs data] close_mem_ok[OF i(1), of A] i by (auto simp: owned_def flight_ok_def)
qed

definition demo_bufmem :: "demo_sock bufmem" where
  "demo_bufmem = \<lparr>blocks = [64 \<mapsto> [1, 2], 128 \<mapsto> [3]], bsock = Some ([], [1, 2, 3], True, False), iov = [(64, 2), (128, 1)],
     blocked = False, in_flight = [((64, 2), [1, 2]), ((128, 1), [3])]\<rparr>"

lemma demo_bufmem_reach: "buf_reach demo_api 4 demo_bufmem"
proof -
  let ?m = "\<lparr>blocks = Map.empty, bsock = Some ([], [], False, False), iov = [], blocked = False, in_flight = []\<rparr> :: demo_sock bufmem"
  let ?m1 = "?m\<lparr>blocks := [64 \<mapsto> [1, 2]], iov := [(64, 2)]\<rparr>" and ?m2 = "?m\<lparr>blocks := [64 \<mapsto> [1, 2], 128 \<mapsto> [3]], iov := [(64, 2), (128, 1)]\<rparr>"
  have "buf_reach demo_api 4 ?m" by (rule buf_start) (simp add: demo_api_def)
  then have "buf_reach demo_api 4 ?m1"
    by (rule buf_send[of _ _ _ 64 "[1, 2]" "Some 2"]) (simp_all add: send_callback_mem_def bufmem_sock_def demo_api_def)
  then have "buf_reach demo_api 4 ?m2"
    by (rule buf_send[of _ _ _ 128 "[3]" "Some 1"]) (simp_all add: send_callback_mem_def bufmem_sock_def demo_api_def)
  then show ?thesis
    by (rule buf_write) (simp add: write_mem_def bufmem_sock_def demo_api_def demo_bufmem_def read_buf_def)
qed

theorem write_buffers_owned_witness:
  "\<exists>m' so. write_complete_mem demo_bufmem = Inr m' \<and> blocks m' = Map.empty \<and> close_mem demo_api demo_bufmem = Inr (so, Map.empty)"
proof -
  have s: "bsock demo_bufmem = Some ([], [1, 2, 3], True, False)" "192 \<notin> dom (blocks demo_bufmem)" "is_writing demo_api ([], [1, 2, 3], True, False)"
    by (simp_all add: demo_bufmem_def demo_api_def)
  from write_buffers_owned[OF demo_api_ok demo_bufmem_reach s(1,2), of "[7]", where ?'w = unit] s(3) show ?thesis by blast
qed

end
