(* ===== verification/Server_Life.thy ===== *)
theory Server_Life
  imports Webserver
begin

text \<open>
  The processes from start to end: construction and destruction of \<^verbatim>\<open>H2O_Webserver\<close>, the callback of its
  listeners, \<^verbatim>\<open>main\<close> of \<^verbatim>\<open>appserver.cpp\<close> with the loop around it, and \<^verbatim>\<open>simple.cpp\<close> with its \<^verbatim>\<open>main\<close> and the
  listener it has when h2o is built without libuv.
\<close>

subsection \<open>Construction, destruction and the callback of a listener\<close>

datatype life_event =
    LoopInit int
  | ConfigInit
  | RegisterHost string nat
  | ContextInit
  | AcceptCtx
  | LoopRun
  | RequestShutdown
  | ContextDispose
  | LoopClose

definition H2O_Webserver_ctor :: "life_event list" where
  "H2O_Webserver_ctor = [ConfigInit, RegisterHost ''default'' 65535, ContextInit]"

definition H2O_Webserver_dtor :: "life_event list" where
  "H2O_Webserver_dtor = [RequestShutdown, ContextDispose]"

text \<open>The data of the handle is its \<^verbatim>\<open>ListenerRecord\<close>, which names the server.\<close>

definition on_accept_trampoline :: "addr \<Rightarrow> addr \<Rightarrow> int \<Rightarrow> int \<Rightarrow> server \<Rightarrow> server res" where
  "on_accept_trampoline p listener status accept_rc st = (case handle_data st listener of
     None \<Rightarrow> Inl BadPointer
   | Some l \<Rightarrow> if allocs st l = None then Inl BadPointer else on_accept p listener status accept_rc st)"

subsection \<open>main of appserver.cpp\<close>

text \<open>\<^verbatim>\<open>webserver_demo\<close> fills \<^verbatim>\<open>accept_ctx\<close> between the set-up of TLS and the listener.\<close>

definition demo_events :: "answers \<Rightarrow> life_event list" where
  "demo_events a = (if cert_rc a = 1 \<and> key_rc a = 1 \<and> cipher_rc a = 1 then [AcceptCtx] else [])"

definition appserver_process :: "int \<Rightarrow> addr \<Rightarrow> addr \<Rightarrow> answers \<Rightarrow> server \<Rightarrow> int \<times> life_event list \<times> server" where
  "appserver_process loop_rc p local a st =
     (if loop_rc \<noteq> 0 then (loop_rc, [LoopInit loop_rc, LoopClose], st)
      else let (rv, st1) = webserver_demo p local a st;
               run = (if rv \<noteq> 0 then [] else [LoopRun])
           in (rv, LoopInit loop_rc # H2O_Webserver_ctor @ demo_events a @ run @ H2O_Webserver_dtor @ [LoopClose], st1))"

subsection \<open>simple.cpp\<close>

text \<open>The \<^verbatim>\<open>static\<close> listener is at \<open>listener\<close>; \<open>uv_loop_init\<close> is not checked, and \<^verbatim>\<open>return 1\<close> is shared by all ways out.\<close>

definition simple_main :: "int \<Rightarrow> addr \<Rightarrow> answers \<Rightarrow> server \<Rightarrow> int \<times> life_event list \<times> server" where
  "simple_main loop_rc listener a st =
     (let ev = [ConfigInit, RegisterHost ''default'' 65535, LoopInit loop_rc, ContextInit];
          (ssl, st2) = simple_setup_ssl ''examples/h2o/server.crt'' ''examples/h2o/server.key''
            ''DEFAULT:!MD5:!DSS:!DES:!RC4:!RC2:!SEED:!IDEA:!NULL:!ADH:!EXP:!SRP:!PSK'' (cert_rc a) (key_rc a) (cipher_rc a)
            (demo_paths (logfh a) st)
      in if ssl \<noteq> 0 then (1, ev, st2)
         else let (rv, st3) = simple_create_listener listener (bind_rc a) (listen_rc a) st2
           in if rv \<noteq> 0 then (1, ev @ [AcceptCtx], st3) else (1, ev @ [AcceptCtx, LoopRun], st3))"

text \<open>
  Without libuv: \<open>fd\<close> is what \<^verbatim>\<open>socket\<close> returns, the other arguments what \<^verbatim>\<open>setsockopt\<close>, \<^verbatim>\<open>bind\<close> and
  \<^verbatim>\<open>listen\<close> return, evaluated from left to right; \<open>fds\<close> are the descriptors that are open.
\<close>

datatype sys_call = Socket | SetSockOpt int | BindCall int nat nat | ListenCall int

definition evloop_create_listener ::
  "int \<Rightarrow> int \<Rightarrow> int \<Rightarrow> int \<Rightarrow> int set \<Rightarrow> int \<times> sys_call list \<times> int option \<times> int set" where
  "evloop_create_listener fd opt_rc b_rc l_rc fds =
     (if fd = - 1 then (- 1, [Socket], None, fds)
      else if opt_rc \<noteq> 0 then (- 1, [Socket, SetSockOpt fd], None, insert fd fds)
      else if b_rc \<noteq> 0 then (- 1, [Socket, SetSockOpt fd, BindCall fd 0x7f000001 7890], None, insert fd fds)
      else if l_rc \<noteq> 0 then (- 1, [Socket, SetSockOpt fd, BindCall fd 0x7f000001 7890, ListenCall fd], None, insert fd fds)
      else (0, [Socket, SetSockOpt fd, BindCall fd 0x7f000001 7890, ListenCall fd], Some fd, insert fd fds))"

definition evloop_on_accept :: "bool \<Rightarrow> addr option \<Rightarrow> server \<Rightarrow> server" where
  "evloop_on_accept err accepted st =
     (if err then st else case accepted of None \<Rightarrow> st | Some sock \<Rightarrow> ask [H2oAccept sock] st)"

subsection \<open>The order of events\<close>

text \<open>
  What libuv and h2o ask for: a loop is initialised, once and successfully, before it is used or
  closed, and is not used after that; the context lives inside the life of the loop and of its
  configuration; nothing is accepted without \<^verbatim>\<open>accept_ctx\<close>.
\<close>

record life =
  loop_open :: bool
  config_ready :: bool
  ctx_open :: bool
  accepting :: bool

fun life_step :: "life_event \<Rightarrow> life \<Rightarrow> life option" where
  "life_step (LoopInit rc) s = (if loop_open s then None else Some (s\<lparr>loop_open := rc = 0\<rparr>))"
| "life_step ConfigInit s = (if config_ready s then None else Some (s\<lparr>config_ready := True\<rparr>))"
| "life_step (RegisterHost n p) s = (if config_ready s then Some s else None)"
| "life_step ContextInit s = (if loop_open s \<and> config_ready s \<and> \<not> ctx_open s then Some (s\<lparr>ctx_open := True\<rparr>) else None)"
| "life_step AcceptCtx s = (if ctx_open s then Some (s\<lparr>accepting := True\<rparr>) else None)"
| "life_step LoopRun s = (if loop_open s \<and> ctx_open s \<and> accepting s then Some s else None)"
| "life_step RequestShutdown s = (if ctx_open s then Some s else None)"
| "life_step ContextDispose s = (if ctx_open s then Some (s\<lparr>ctx_open := False\<rparr>) else None)"
| "life_step LoopClose s = (if loop_open s \<and> \<not> ctx_open s then Some (s\<lparr>loop_open := False\<rparr>) else None)"

fun lives :: "life_event list \<Rightarrow> life \<Rightarrow> life option" where
  "lives [] s = Some s"
| "lives (e # es) s = (case life_step e s of None \<Rightarrow> None | Some s' \<Rightarrow> lives es s')"

definition unborn :: life where
  "unborn = \<lparr>loop_open = False, config_ready = False, ctx_open = False, accepting = False\<rparr>"

lemma lives_append: "lives (xs @ ys) s = (case lives xs s of None \<Rightarrow> None | Some s' \<Rightarrow> lives ys s')"
  by (induction xs arbitrary: s) (auto split: option.splits)

lemmas life_defs = H2O_Webserver_ctor_def H2O_Webserver_dtor_def demo_events_def unborn_def

lemma webserver_demo_code:
  "fst (webserver_demo p local a st) =
    (if cert_rc a \<noteq> 1 \<or> key_rc a \<noteq> 1 \<or> cipher_rc a \<noteq> 1 then - 5 else if bind_rc a \<noteq> 0 \<or> listen_rc a \<noteq> 0 then - 4 else 0)"
proof -
  let ?c = "''DEFAULT:!MD5:!DSS:!DES:!RC4:!RC2:!SEED:!IDEA:!NULL:!ADH:!EXP:!SRP:!PSK''"
  obtain ssl st2 where s: "setup_ssl ''certs/server-crt.pem'' ''certs/server-key.pem'' ?c (cert_rc a) (key_rc a) (cipher_rc a)
      (demo_paths (logfh a) st) = (ssl, st2)" by (metis surj_pair)
  obtain lr st3 where l: "create_ip4_listener p local 7890 (bind_rc a) (listen_rc a) st2 = (lr, st3)" by (metis surj_pair)
  show ?thesis using setup_ssl_result(1)[OF s] create_ip4_listener_result(1)[OF l] by (auto simp: webserver_demo_def s l)
qed

lemma simple_setup_ssl_code:
  "fst (simple_setup_ssl cf kf cs c k x st) = (if c = 1 \<and> k = 1 \<and> x = 1 then 0 else - 1)"
  by (simp add: simple_setup_ssl_def Let_def)

lemma simple_create_listener_code: "fst (simple_create_listener h b l st) = (if b \<noteq> 0 then b else l)"
  by (simp add: simple_create_listener_def Let_def)

subsection \<open>Theorems\<close>


text \<open>\<^verbatim>\<open>main\<close> of \<^verbatim>\<open>simple.cpp\<close> exits with 1 however it went, also when the server was started and its loop
  has ended; the loop runs exactly when TLS and the listener could be set up. Its listener without
  libuv returns 0 exactly when all four calls succeed, and on an error after \<^verbatim>\<open>socket\<close> leaves the
  descriptor open with no owner.\<close>

theorem simple_main_results:
  "(case simple_main loop_rc listener a st of (rv, events, st') \<Rightarrow>
      rv = 1 \<and> (LoopRun \<in> set events \<longleftrightarrow> cert_rc a = 1 \<and> key_rc a = 1 \<and> cipher_rc a = 1 \<and> bind_rc a = 0 \<and> listen_rc a = 0) \<and>
      (lives events unborn \<noteq> None \<longleftrightarrow> loop_rc = 0)) \<and>
    (case evloop_create_listener fd opt_rc b_rc l_rc fds of (rv, cs, owner, fds') \<Rightarrow>
      rv = (if fd \<noteq> - 1 \<and> opt_rc = 0 \<and> b_rc = 0 \<and> l_rc = 0 then 0 else - 1) \<and>
      owner = (if rv = 0 then Some fd else None) \<and> fds' = (if fd = - 1 then fds else insert fd fds))"
proof (intro conjI)
  let ?c = "''DEFAULT:!MD5:!DSS:!DES:!RC4:!RC2:!SEED:!IDEA:!NULL:!ADH:!EXP:!SRP:!PSK''"
  obtain ssl st2 where s: "simple_setup_ssl ''examples/h2o/server.crt'' ''examples/h2o/server.key'' ?c
      (cert_rc a) (key_rc a) (cipher_rc a) (demo_paths (logfh a) st) = (ssl, st2)" by (metis surj_pair)
  obtain lr st3 where l: "simple_create_listener listener (bind_rc a) (listen_rc a) st2 = (lr, st3)" by (metis surj_pair)
  have "ssl = (if cert_rc a = 1 \<and> key_rc a = 1 \<and> cipher_rc a = 1 then 0 else - 1)" "lr = (if bind_rc a \<noteq> 0 then bind_rc a else listen_rc a)"
    using simple_setup_ssl_code simple_create_listener_code s l by (metis fst_conv)+
  then show "case simple_main loop_rc listener a st of (rv, events, st') \<Rightarrow>
      rv = 1 \<and> (LoopRun \<in> set events \<longleftrightarrow> cert_rc a = 1 \<and> key_rc a = 1 \<and> cipher_rc a = 1 \<and> bind_rc a = 0 \<and> listen_rc a = 0) \<and>
      (lives events unborn \<noteq> None \<longleftrightarrow> loop_rc = 0)"
    by (auto simp: simple_main_def Let_def s l life_defs)
qed (auto simp: evloop_create_listener_def)

text \<open>A listener that was created calls back into the server it belongs to.\<close>

lemma listener_calls_back:
  assumes "create_listener p local ip port b l st = (0, st')"
  shows "on_accept_trampoline c (listener_handle p) status rc st' = on_accept c (listener_handle p) status rc st'"
  using assms
  by (auto simp: on_accept_trampoline_def create_listener_def new_listener_record_def Let_def split: if_splits)

end
