(* ===== verification/Spec2Isabelle.thy ===== *)
theory Spec2Isabelle
  imports Rwq_Api Rwq_Tso_Queue Atomic_Ops Blocking_Queue Blocking_Conc Blocking_Tso Semaphore_Ports Uv_Log_Consumer Handler_Registry Demo_Server Websocket_Reentry Websocket_Buffers Server_Life
begin

text \<open>
  A verification library for \<^verbatim>\<open>house-mouse/appserver\<close>, a small application server on top of h2o and libuv.

  \<^bold>\<open>The program.\<close> Threads log through \<^verbatim>\<open>src/logger.cpp\<close>: the first message of a thread creates a
  \<^verbatim>\<open>ThreadLogger\<close> and registers it under a \<^verbatim>\<open>uvMutex\<close>; every message goes into the lock-free queue of its
  thread, and \<^verbatim>\<open>LogConsumer::consume\<close> drains the queues of all threads. The queue is
  \<^verbatim>\<open>BlockingReaderWriterQueue\<close> of \<^verbatim>\<open>src/libs/readerwriterqueue/\<close>, a single-producer single-consumer
  \<^verbatim>\<open>ReaderWriterQueue\<close> with a \<^verbatim>\<open>LightweightSemaphore\<close> that counts its elements. The server,
  \<^verbatim>\<open>src/webserver.cpp\<close>, opens listeners, accepts connections and registers handlers and websockets;
  \<^verbatim>\<open>src/appserver_websocket.cpp\<close> moves data between the websocket library wslay and a socket of h2o.
  \<^verbatim>\<open>src/webserver_demo.cpp\<close>, \<^verbatim>\<open>src/appserver.cpp\<close> and \<^verbatim>\<open>src/simple.cpp\<close> are servers built from these parts.

  \<^bold>\<open>The theories.\<close>
  \<^item> \<open>App_Prelude\<close>: 64-bit words and addresses, the result type \<open>res\<close> with the ways a run can go wrong (a
    failed assertion, a bad pointer, the use of a slot without an object), its bind, and lemmas on words,
    lists and modular indices.
  \<^item> \<open>Rwq_Block\<close>, \<open>Rwq_Queue\<close>, \<open>Rwq_Refine\<close>, \<open>Rwq_Life\<close>, \<open>Rwq_Api\<close>: \<^verbatim>\<open>readerwriterqueue.h\<close>. \<open>Block\<close> is
    \<^verbatim>\<open>struct Block\<close>, a ring buffer with indices \<open>front\<close> and \<open>tail\<close> and their stale copies; a heap maps
    addresses to blocks, and \<open>rwq\<close> holds the members of the class. \<open>inner_enqueue\<close>, \<open>try_dequeue\<close>, \<open>peek\<close>,
    \<open>pop\<close>, \<open>size_approx\<close>, the constructor, the two moves and the destructor follow the methods branch by
    branch. The invariant \<open>queue_at\<close> relates the heap to the list of elements; each operation refines an
    operation on lists.
  \<^item> \<open>Fifo_Spec\<close>: the locale \<open>fifo_queue\<close>, what a client may rely on, and its consequence that an
    interleaving of whole operations delivers in order. \<open>Rwq_Api\<close> interprets it for the plain queue,
    \<open>Blocking_Queue\<close> for the blocking one.
  \<^item> \<open>Rwq_Conc\<close>, \<open>Rwq_Conc_Steps\<close>: the same two methods as program counters of a producer and a consumer,
    one access to shared memory per step, with an invariant that holds in every reachable state.
  \<^item> \<open>Rwq_Tso\<close>, \<open>Rwq_Tso_Steps\<close>, \<open>Rwq_Tso_Queue\<close>: the same steps on a machine that buffers stores, as x86 does: a
    thread steps in its own view, what it stored is read off the result (\<open>enq_stores\<close>, \<open>deq_stores\<close>) and reaches
    the memory at any later time. \<open>Two_Threads\<close> holds the locale \<open>commuting_threads\<close>, interpreted with the steps of
    the producer and the consumer: steps commute even when one of them has read an old value, so the state
    each thread sees satisfies the invariant of \<open>Rwq_Conc\<close>.
  \<^item> \<open>Cpu_Time\<close>, \<open>Semaphore\<close>: \<^verbatim>\<open>cputime.cpp\<close> and the semaphores of \<^verbatim>\<open>atomicops.h\<close>: the POSIX wrapper as
    functions of the value of the kernel semaphore, the lightweight one as atomic steps.
  \<^item> \<open>Atomic_Ops\<close>: the rest of \<^verbatim>\<open>atomicops.h\<close>: the fences as lists of barriers and \<^verbatim>\<open>weak_atomic\<close> on words, in
    the variants that the preprocessor selects.
  \<^item> \<open>Semaphore_Ports\<close>: the wrappers for Windows and Mach. The locale \<open>counting_semaphore\<close> is what the queue relies
    on, \<open>exact_semaphore\<close> extends it with when a call may block or fail; POSIX and Windows interpret the
    second, Mach the first as long as no wait is aborted.
  \<^item> \<open>Blocking_Queue\<close>: the operations of \<^verbatim>\<open>BlockingReaderWriterQueue\<close> as whole calls.
  \<^item> \<open>Blocking_Conc\<close>: \<^verbatim>\<open>enqueue\<close> and \<^verbatim>\<open>signal\<close> of a producer against \<^verbatim>\<open>wait_dequeue\<close>, \<^verbatim>\<open>wait_dequeue_timed\<close> and
    \<^verbatim>\<open>try_dequeue\<close> of a consumer: the steps of the queue in \<open>Rwq_Conc\<close> composed with those of the semaphore,
    one access to shared memory or to the kernel per step.
  \<^item> \<open>Blocking_Tso\<close>: the same composition with the queue of \<open>Rwq_Tso\<close> inside: the stores of the queue are buffered,
    and an atomic addition to the count waits until the thread's own buffer is empty, as a locked
    instruction does. Every element that is signalled can then be reached from the memory.
    Flushing at once gives the executions of \<open>Blocking_Conc\<close>.
  \<^item> \<open>Log_Message\<close>, \<open>Logger\<close>, \<open>Log_Consumer\<close>: \<^verbatim>\<open>logger.hpp\<close>, \<^verbatim>\<open>logger.cpp\<close> and \<^verbatim>\<open>uvmutex.cpp\<close>: messages and
    their text, registration and logging, and the consumer with messages that arrive while it runs. The
    step relation at the end of \<open>Log_Consumer\<close> composes all of it.
  \<^item> \<open>Uv_Log_Consumer\<close>: \<^verbatim>\<open>uvlogconsumer.cpp\<close>, the consumer as a timer of the loop, composed with the threads that
    log.
  \<^item> \<open>Websocket\<close>: \<^verbatim>\<open>appserver_websocket.cpp\<close>: handshake, callbacks, \<open>proceed\<close> and the events of a
    connection as a step relation.
  \<^item> \<open>Websocket_Reentry\<close>: the same file with the calls that come back: \<^verbatim>\<open>wslay_event_recv\<close> calls the message
    callback, and the echo socket answers by calling \<open>proceed\<close> again. The connection, its context and its
    \<^verbatim>\<open>AppServerWebSocket\<close> are memory that can be freed, \<open>exec\<close> evaluates the four calls.
  \<^item> \<open>Websocket_Buffers\<close>: the write buffers of a connection as allocations, which refine the buffers of
    \<open>Websocket\<close>, where a buffer is its bytes.
  \<^item> \<open>Http_Handlers\<close>, \<open>Webserver\<close>: the request handlers, and listeners, connections, TLS and start-up, with
    the calls made of the libraries recorded in order.
  \<^item> \<open>Handler_Registry\<close>: \<^verbatim>\<open>webserver_handler.cpp\<close> and the registration in \<^verbatim>\<open>webserver.cpp\<close>: the structure behind
    each handler of h2o, the cast its function makes, and the virtual call of the trampoline. \<open>Demo_Server\<close>: the
    registrations of \<^verbatim>\<open>webserver_demo.cpp\<close> and \<^verbatim>\<open>simple.cpp\<close> and what their handlers answer.
  \<^item> \<open>Server_Life\<close>: both \<^verbatim>\<open>main\<close> functions as sequences of events of the loop and of the context of h2o.

  \<^bold>\<open>What is shown.\<close> The queue delivers what went in, once and in order, between whole calls and in every
  interleaving of the accesses of one producer and one consumer, also when their stores are buffered and
  reach the memory late; both calls are wait-free; no assertion of
  the source fails; the memory the constructor promises is there and the destructor frees exactly what is
  owned. The blocking queue never loses a wake-up and, on sequentially consistent memory, gives up only when
  no signalled element is there; a consumer that was granted an element finds it, with buffered stores too.
  Each thread has one logger, logging never blocks beyond the first message of a thread, the consumer
  hands over every message held when it starts and keeps the order of each thread. A websocket
  connection is, after every event, closed or waiting for a socket event that will resume its work. The
  re-entrant calls of the echo socket end and return every message as long as wslay reports no error, and
  use freed memory as soon as sending fails. Handlers are registered with the types they are called with. A
  timer prints all that was logged. The POSIX and the Windows semaphore are the same counter.
  Other lemmas state what error paths do, including those that are wrong in the source.

  \<^bold>\<open>Assumptions.\<close> Code that is not part of the sources is an argument: \<^verbatim>\<open>malloc\<close> (with \<open>env_ok\<close>: fresh,
  aligned blocks that do not wrap, or a refusal), the clock and \<^verbatim>\<open>new\<close> (\<open>log_env_ok\<close>), h2o sockets (\<open>sock_ok\<close>), wslay
  (\<open>wslay_ok\<close>; for calls that come back \<open>wslay_send_ok\<close>, \<open>paced\<close>: it uses up its work, and \<open>steady\<close>: it reports no
  error), the string, digest and encoding functions of h2o and OpenSSL (\<open>http_ok\<close>, \<open>memis_ok\<close>).
  Each of these hypotheses is met by a concrete instance in a witness. What a processor and its barriers keep
  in order is \<open>cpu_ok\<close>. The logger is shown on sequentially consistent memory, the queue
  and the blocking queue also on memory with store buffers, where the acquire and release fences emit nothing
  (\<open>x86_fence_instruction\<close> for the variants written out in the source); the stores of one element, and those into a block that is not linked yet, count as
  one. The target is 64-bit and \<^verbatim>\<open>NDEBUG\<close> is not defined, so assertions and the re-entrancy
  guards are part of the code.

  \<^bold>\<open>Loops.\<close> A bounded loop is a primitive recursion or a \<open>function\<close> with a measure. A loop whose end
  depends on the heap or on a library is a \<open>partial_function (option)\<close>, and a theorem shows that
  it returns \<open>Some\<close>: \<open>size_approx\<close> and the destructor over the ring of blocks, \<open>proceed\<close> over the
  data wslay still has, \<open>consume\<close> over a finite sequence of arrivals. The calls of \<open>Websocket_Reentry\<close>
  nest through a library, so \<open>exec\<close> takes a bound on the depth of calls and rounds: more depth does not change
  a result, and \<open>exec_ends\<close> shows that some depth is enough, by a rank that counts unread input, the work of
  wslay and the kind of the call.

  \<^bold>\<open>Not modelled.\<close> Processors that reorder more than x86 does: there the queue relies on its fences, whose
  instructions are modelled, but not what a processor without them would do; reordering by the compiler;
  the rounding of \<^verbatim>\<open>float\<close>; the choice of a handler for a path, which h2o makes; memcached support, which is
  compiled out; \<^verbatim>\<open>FilePath\<close>, which has declarations and no implementation; tests and benchmarks.
\<close>

end
